(* ===== verification/BK_Prelude.thy ===== *)
theory BK_Prelude
  imports
    Main
    "HOL-Library.AList"
    "HOL-Library.Char_ord"
    "HOL-Library.List_Lexorder"
    "HOL-Library.Sublist"
    "HOL-Library.Multiset"
    "HOL-Library.Word"
    "HOL-Library.Product_Lexorder"
begin

text \<open>
  Shared vocabulary of the development.

  \<^item> Types: a Rust \<open>String\<close> is the list of its UTF-8 bytes (\<open>string\<close>), so that
    \<open>length\<close> is \<open>str::len\<close> and the lexicographic order of \<open>List_Lexorder\<close> is
    \<open>Ord for str\<close>.  Unsigned integers that are only compared, counted or subtracted with
    \<open>saturating_sub\<close> are \<open>nat\<close> (truncated subtraction is exactly \<open>saturating_sub\<close>);
    integers whose wrap-around matters are machine words.
  \<^item> Containers: a \<open>HashMap\<close> is an association list with distinct keys, whose list order
    is the (unspecified) iteration order; a \<open>BTreeMap\<close> is an association list with strictly
    increasing keys; both meet the interface \<open>keyed_map\<close> below.
  \<^item> Sorting: \<open>sort_by\<close> is the stable sort of \<open>slice::sort_by\<close>.
  \<^item> State machines: \<open>step_system\<close> gives reachability and the invariant rule once.
\<close>

named_theorems bk_defs \<open>definitions unfolded by the component proofs\<close>
named_theorems bk_inv \<open>preservation of component invariants\<close>

type_synonym u64 = nat
type_synonym usize = nat

type_synonym ('k, 'v) hashmap = "('k \<times> 'v) list"
type_synonym ('k, 'v) btreemap = "('k \<times> 'v) list"

abbreviation u64_max :: nat where
  "u64_max \<equiv> 18446744073709551615"

definition sat_add_u64 :: "nat \<Rightarrow> nat \<Rightarrow> nat" where
  "sat_add_u64 a b = min (a + b) u64_max"

section \<open>Options and lists\<close>

fun or_else :: "'a option \<Rightarrow> 'a option \<Rightarrow> 'a option" where
  "or_else (Some a) b = Some a"
| "or_else None b = b"

fun opt_filter :: "('a \<Rightarrow> bool) \<Rightarrow> 'a option \<Rightarrow> 'a option" where
  "opt_filter p (Some a) = (if p a then Some a else None)"
| "opt_filter p None = None"

fun unwrap_or :: "'a \<Rightarrow> 'a option \<Rightarrow> 'a" where
  "unwrap_or d (Some a) = a"
| "unwrap_or d None = d"

lemma or_else_None_iff [simp]: "or_else a b = None \<longleftrightarrow> a = None \<and> b = None"
  by (cases a) auto

lemma or_else_None_right [simp]: "or_else a None = a"
  by (cases a) auto

lemma opt_filter_eq_Some [simp]: "opt_filter p x = Some a \<longleftrightarrow> x = Some a \<and> p a"
  by (cases x) auto

definition first_opt :: "'a list \<Rightarrow> 'a option" where
  "first_opt xs = (case xs of [] \<Rightarrow> None | x # _ \<Rightarrow> Some x)"

definition last_opt :: "'a list \<Rightarrow> 'a option" where
  "last_opt xs = (if xs = [] then None else Some (last xs))"

lemma first_opt_simps [simp]: "first_opt [] = None" "first_opt (x # xs) = Some x"
  by (simp_all add: first_opt_def)

lemma first_opt_in_set: "first_opt xs = Some x \<Longrightarrow> x \<in> set xs"
  by (cases xs) auto

lemma first_opt_None [simp]: "first_opt xs = None \<longleftrightarrow> xs = []"
  by (cases xs) auto

lemma find_SomeD: "find P xs = Some x \<Longrightarrow> x \<in> set xs \<and> P x"
  by (auto simp: find_Some_iff)

section \<open>Stable sorting by a comparator\<close>

fun insert_by :: "('a \<Rightarrow> 'a \<Rightarrow> bool) \<Rightarrow> 'a \<Rightarrow> 'a list \<Rightarrow> 'a list" where
  "insert_by le x [] = [x]"
| "insert_by le x (y # ys) = (if le x y then x # y # ys else y # insert_by le x ys)"

fun sort_by :: "('a \<Rightarrow> 'a \<Rightarrow> bool) \<Rightarrow> 'a list \<Rightarrow> 'a list" where
  "sort_by le [] = []"
| "sort_by le (x # xs) = insert_by le x (sort_by le xs)"

lemma mset_insert_by [simp]: "mset (insert_by le x ys) = add_mset x (mset ys)"
  by (induction ys) auto

lemma mset_sort_by [simp]: "mset (sort_by le xs) = mset xs"
  by (induction xs) auto

lemma set_sort_by [simp]: "set (sort_by le xs) = set xs"
  by (metis mset_sort_by set_mset_mset)

lemma set_insert_by [simp]: "set (insert_by le x ys) = insert x (set ys)"
  by (induction ys) auto

lemma length_sort_by [simp]: "length (sort_by le xs) = length xs"
  by (metis mset_sort_by size_mset)

lemma distinct_sort_by [simp]: "distinct (sort_by le xs) = distinct xs"
  by (metis mset_sort_by mset_eq_imp_distinct_iff)

lemma sort_by_Nil [simp]: "sort_by le xs = [] \<longleftrightarrow> xs = []"
  by (metis length_0_conv length_sort_by)

lemma sorted_insert_by:
  assumes "transp le" "totalp le" "reflp le" "sorted_wrt le ys"
  shows "sorted_wrt le (insert_by le x ys)"
  using assms(4)
proof (induction ys)
  case Nil
  then show ?case by simp
next
  case (Cons y ys)
  show ?case
  proof (cases "le x y")
    case True
    with Cons.prems assms(1) show ?thesis by (auto dest: transpD)
  next
    case False
    with assms(2,3) have "le y x" by (metis reflpD totalpD)
    with False Cons show ?thesis by auto
  qed
qed

lemma sorted_sort_by:
  assumes "transp le" "totalp le" "reflp le"
  shows "sorted_wrt le (sort_by le xs)"
  using assms by (induction xs) (auto intro: sorted_insert_by)

lemma first_sort_by:
  assumes "transp le" "totalp le" "reflp le" "first_opt (sort_by le xs) = Some x"
  shows "x \<in> set xs \<and> (\<forall>y \<in> set xs. le x y)"
proof -
  from assms(4) obtain r where r: "sort_by le xs = x # r"
    by (cases "sort_by le xs") auto
  then have s: "set xs = set (x # r)" by (metis set_sort_by)
  from sorted_sort_by [OF assms(1-3), of xs] r have "\<forall>y \<in> set r. le x y" by simp
  moreover have "le x x" using assms(3) by (simp add: reflpD)
  ultimately show ?thesis using s by auto
qed

lemma sort_by_unique:
  assumes "transp le" "totalp le" "reflp le"
    and "\<And>a b. a \<in> set xs \<Longrightarrow> b \<in> set xs \<Longrightarrow> le a b \<Longrightarrow> le b a \<Longrightarrow> a = b"
    and "mset xs = mset ys"
  shows "sort_by le xs = sort_by le ys"
proof -
  have uniq: "sorted_wrt le as \<Longrightarrow> sorted_wrt le bs \<Longrightarrow> mset as = mset bs
      \<Longrightarrow> set as \<subseteq> set xs \<Longrightarrow> as = bs" for as bs
  proof (induction as arbitrary: bs)
    case Nil
    then show ?case by simp
  next
    case (Cons a as)
    then obtain b bs' where bs: "bs = b # bs'" by (cases bs) auto
    have sets: "set (a # as) = set (b # bs')" using Cons.prems(3) bs by (metis set_mset_mset)
    have "b = a \<or> b \<in> set as" "a = b \<or> a \<in> set bs'" using sets by auto
    then have "a = b"
      using Cons.prems(1,2,4) bs sets assms(4) [of a b] by fastforce
    then show ?case using Cons bs by auto
  qed
  have "set xs = set ys" using assms(5) by (metis set_mset_mset)
  then show ?thesis
    using uniq [of "sort_by le xs" "sort_by le ys"] sorted_sort_by [OF assms(1-3)] assms(5) by simp
qed

text \<open>Comparators of the code are chains of \<open>cmp(..).then_with(..)\<close>: a comparison of tuples.
  \<open>sort_asc\<close> and \<open>sort_desc\<close> sort by such a key, \<open>max_by_key\<close> and \<open>min_by_key\<close> are
  \<open>Iterator::max_by\<close> (the last maximum) and \<open>Iterator::min_by\<close> (the first minimum).\<close>

definition sort_asc :: "('a \<Rightarrow> 'k::linorder) \<Rightarrow> 'a list \<Rightarrow> 'a list" where
  "sort_asc key xs = sort_by (\<lambda>a b. key a \<le> key b) xs"

definition sort_desc :: "('a \<Rightarrow> 'k::linorder) \<Rightarrow> 'a list \<Rightarrow> 'a list" where
  "sort_desc key xs = sort_by (\<lambda>a b. key b \<le> key a) xs"

fun max_by_key :: "('a \<Rightarrow> 'k::linorder) \<Rightarrow> 'a list \<Rightarrow> 'a option" where
  "max_by_key key [] = None"
| "max_by_key key (x # xs) = Some (foldl (\<lambda>a b. if key a \<le> key b then b else a) x xs)"

fun min_by_key :: "('a \<Rightarrow> 'k::linorder) \<Rightarrow> 'a list \<Rightarrow> 'a option" where
  "min_by_key key [] = None"
| "min_by_key key (x # xs) = Some (foldl (\<lambda>a b. if key a \<le> key b then a else b) x xs)"

lemma key_order [simp]:
  fixes key :: "'a \<Rightarrow> 'k::linorder"
  shows "transp (\<lambda>a b. key a \<le> key b)" "totalp (\<lambda>a b. key a \<le> key b)" "reflp (\<lambda>a b. key a \<le> key b)"
    "transp (\<lambda>a b. key b \<le> key a)" "totalp (\<lambda>a b. key b \<le> key a)" "reflp (\<lambda>a b. key b \<le> key a)"
  by (auto simp: transp_def totalp_on_def reflp_def)

lemma set_sort_key_by [simp]:
  "set (sort_asc key xs) = set xs" "set (sort_desc key xs) = set xs"
  "mset (sort_asc key xs) = mset xs" "mset (sort_desc key xs) = mset xs"
  "length (sort_asc key xs) = length xs" "length (sort_desc key xs) = length xs"
  "distinct (sort_asc key xs) = distinct xs" "distinct (sort_desc key xs) = distinct xs"
  "sort_asc key xs = [] \<longleftrightarrow> xs = []" "sort_desc key xs = [] \<longleftrightarrow> xs = []"
  by (simp_all add: sort_asc_def sort_desc_def)

lemma sorted_sort_asc: "sorted_wrt (\<lambda>a b. key a \<le> key b) (sort_asc key xs)"
  by (simp add: sort_asc_def sorted_sort_by)

lemma sorted_sort_desc: "sorted_wrt (\<lambda>a b. key b \<le> key a) (sort_desc key xs)"
  by (simp add: sort_desc_def sorted_sort_by)

lemma sort_asc_unique:
  "inj_on key (set xs) \<Longrightarrow> mset xs = mset ys \<Longrightarrow> sort_asc key xs = sort_asc key ys"
  unfolding sort_asc_def by (rule sort_by_unique) (auto dest: inj_onD)

lemma sort_desc_unique:
  "inj_on key (set xs) \<Longrightarrow> mset xs = mset ys \<Longrightarrow> sort_desc key xs = sort_desc key ys"
  unfolding sort_desc_def by (rule sort_by_unique) (auto dest: inj_onD)

lemma first_sort_desc:
  "first_opt (sort_desc key xs) = Some x \<Longrightarrow> x \<in> set xs \<and> (\<forall>y \<in> set xs. key y \<le> key x)"
  unfolding sort_desc_def by (rule first_sort_by) simp_all

lemma first_sort_asc:
  "first_opt (sort_asc key xs) = Some x \<Longrightarrow> x \<in> set xs \<and> (\<forall>y \<in> set xs. key x \<le> key y)"
  unfolding sort_asc_def by (rule first_sort_by) simp_all

lemma first_sort_desc_iff:
  assumes "inj_on key (set xs)"
  shows "first_opt (sort_desc key xs) = Some x \<longleftrightarrow> x \<in> set xs \<and> (\<forall>y \<in> set xs. key y \<le> key x)"
proof
  assume x: "x \<in> set xs \<and> (\<forall>y \<in> set xs. key y \<le> key x)"
  then have "sort_desc key xs \<noteq> []" by auto
  then obtain z where z: "first_opt (sort_desc key xs) = Some z" by (cases "sort_desc key xs") auto
  from first_sort_desc [OF z] x have "z \<in> set xs" "key z = key x" by (auto intro: antisym)
  then show "first_opt (sort_desc key xs) = Some x" using z x assms by (auto dest: inj_onD)
qed (rule first_sort_desc)

lemma max_by_key_Some:
  assumes "max_by_key key xs = Some m"
  shows "m \<in> set xs \<and> (\<forall>y \<in> set xs. key y \<le> key m)"
proof -
  have aux: "foldl (\<lambda>a b. if key a \<le> key b then b else a) x ys \<in> insert x (set ys) \<and>
    (\<forall>y \<in> insert x (set ys). key y \<le> key (foldl (\<lambda>a b. if key a \<le> key b then b else a) x ys))" for x ys
  proof (induction ys arbitrary: x)
    case (Cons y ys)
    show ?case using Cons.IH [of y] Cons.IH [of x] by (cases "key x \<le> key y") auto
  qed simp
  from assms obtain x ys where "xs = x # ys" by (cases xs) auto
  with assms aux [of x ys] show ?thesis by auto
qed

lemma min_by_key_Some:
  assumes "min_by_key key xs = Some m"
  shows "m \<in> set xs \<and> (\<forall>y \<in> set xs. key m \<le> key y)"
proof -
  have aux: "foldl (\<lambda>a b. if key a \<le> key b then a else b) x ys \<in> insert x (set ys) \<and>
    (\<forall>y \<in> insert x (set ys). key (foldl (\<lambda>a b. if key a \<le> key b then a else b) x ys) \<le> key y)" for x ys
  proof (induction ys arbitrary: x)
    case (Cons y ys)
    show ?case using Cons.IH [of y] Cons.IH [of x] by (cases "key x \<le> key y") auto
  qed simp
  from assms obtain x ys where "xs = x # ys" by (cases xs) auto
  with assms aux [of x ys] show ?thesis by auto
qed

lemma max_by_key_None [simp]: "max_by_key key xs = None \<longleftrightarrow> xs = []"
  by (cases xs) auto

lemma min_by_key_None [simp]: "min_by_key key xs = None \<longleftrightarrow> xs = []"
  by (cases xs) auto

section \<open>Keyed containers\<close>

text \<open>
  What the code relies on from \<open>std::collections\<close> maps: \<open>get\<close> after \<open>insert\<close> and
  \<open>remove\<close>, and the key list an iteration visits.
\<close>

locale keyed_map =
  fixes ins :: "'k \<Rightarrow> 'v \<Rightarrow> ('k \<times> 'v) list \<Rightarrow> ('k \<times> 'v) list"
    and del :: "'k \<Rightarrow> ('k \<times> 'v) list \<Rightarrow> ('k \<times> 'v) list"
    and ok :: "('k \<times> 'v) list \<Rightarrow> bool"
  assumes get_ins: "ok m \<Longrightarrow> map_of (ins k v m) = (map_of m)(k \<mapsto> v)"
    and get_del: "ok m \<Longrightarrow> map_of (del k m) = (map_of m)(k := None)"
    and ok_Nil: "ok []"
    and ok_ins: "ok m \<Longrightarrow> ok (ins k v m)"
    and ok_del: "ok m \<Longrightarrow> ok (del k m)"
    and ok_distinct: "ok m \<Longrightarrow> distinct (map fst m)"
begin

lemma ok_collect: "ok m \<Longrightarrow> ok (fold (\<lambda>(k, v). ins k v) kvs m)"
  by (induction kvs arbitrary: m) (auto simp: ok_ins)

lemma get_collect:
  "ok m \<Longrightarrow> map_of (fold (\<lambda>(k, v). ins k v) kvs m) = map_of m ++ map_of (rev kvs)"
proof (induction kvs arbitrary: m)
  case Nil
  then show ?case by simp
next
  case (Cons kv kvs)
  obtain k v where [simp]: "kv = (k, v)" by (cases kv)
  from Cons.prems have "ok (ins k v m)" by (rule ok_ins)
  from Cons.IH [OF this] have "map_of (fold (\<lambda>(k, v). ins k v) kvs (ins k v m))
      = (map_of m)(k \<mapsto> v) ++ map_of (rev kvs)"
    unfolding get_ins [OF Cons.prems] .
  then show ?case by (simp add: map_add_def fun_eq_iff split: option.splits)
qed

lemma dom_del: "ok m \<Longrightarrow> fst ` set (del k m) = fst ` set m - {k}"
  by (metis (no_types, lifting) dom_fun_upd dom_map_of_conv_image_fst get_del)

lemma dom_ins: "ok m \<Longrightarrow> fst ` set (ins k v m) = insert k (fst ` set m)"
  by (metis dom_fun_upd dom_map_of_conv_image_fst get_ins option.discI)

lemma mem_iff: "ok m \<Longrightarrow> (k, v) \<in> set m \<longleftrightarrow> map_of m k = Some v"
  by (simp add: ok_distinct)

end

subsection \<open>\<open>HashMap\<close>: association lists in iteration order\<close>

definition hm_ok :: "('k, 'v) hashmap \<Rightarrow> bool" where
  "hm_ok m \<longleftrightarrow> distinct (map fst m)"

abbreviation hm_insert :: "'k \<Rightarrow> 'v \<Rightarrow> ('k, 'v) hashmap \<Rightarrow> ('k, 'v) hashmap" where
  "hm_insert \<equiv> AList.update"

abbreviation hm_remove :: "'k \<Rightarrow> ('k, 'v) hashmap \<Rightarrow> ('k, 'v) hashmap" where
  "hm_remove \<equiv> AList.delete"

abbreviation hm_contains :: "('k, 'v) hashmap \<Rightarrow> 'k \<Rightarrow> bool" where
  "hm_contains m k \<equiv> map_of m k \<noteq> None"

abbreviation hm_keys :: "('k, 'v) hashmap \<Rightarrow> 'k list" where
  "hm_keys m \<equiv> map fst m"

abbreviation hm_values :: "('k, 'v) hashmap \<Rightarrow> 'v list" where
  "hm_values m \<equiv> map snd m"

interpretation hm: keyed_map AList.update AList.delete hm_ok
  by unfold_locales
    (auto simp: hm_ok_def update_conv delete_conv distinct_update distinct_delete)

lemmas hm_ok_simps [simp] = hm.ok_ins hm.ok_del

definition hm_map_values :: "('v \<Rightarrow> 'w) \<Rightarrow> ('k, 'v) hashmap \<Rightarrow> ('k, 'w) hashmap" where
  "hm_map_values f m = map (\<lambda>(k, v). (k, f v)) m"

lemma map_of_hm_map_values [simp]: "map_of (hm_map_values f m) k = map_option f (map_of m k)"
  by (induction m) (auto simp: hm_map_values_def)

lemma keys_hm_map_values [simp]: "map fst (hm_map_values f m) = map fst m"
  by (auto simp: hm_map_values_def)

lemma hm_ok_map_values [simp]: "hm_ok (hm_map_values f m) = hm_ok m"
  by (simp add: hm_ok_def)

lemma hm_value_iff: "hm_ok m \<Longrightarrow> v \<in> set (hm_values m) \<longleftrightarrow> (\<exists>k. map_of m k = Some v)"
  by (force simp: hm.mem_iff [symmetric])

subsection \<open>\<open>BTreeMap\<close>: association lists in key order\<close>

definition bt_ok :: "('k::linorder, 'v) btreemap \<Rightarrow> bool" where
  "bt_ok m \<longleftrightarrow> sorted_wrt (<) (map fst m)"

fun bt_insert :: "'k::linorder \<Rightarrow> 'v \<Rightarrow> ('k, 'v) btreemap \<Rightarrow> ('k, 'v) btreemap" where
  "bt_insert k v [] = [(k, v)]"
| "bt_insert k v ((a, b) # m) =
     (if k < a then (k, v) # (a, b) # m
      else if k = a then (k, v) # m
      else (a, b) # bt_insert k v m)"

fun bt_remove :: "'k::linorder \<Rightarrow> ('k, 'v) btreemap \<Rightarrow> ('k, 'v) btreemap" where
  "bt_remove k [] = []"
| "bt_remove k ((a, b) # m) = (if k = a then m else (a, b) # bt_remove k m)"

abbreviation bt_collect :: "('k::linorder \<times> 'v) list \<Rightarrow> ('k, 'v) btreemap" where
  "bt_collect kvs \<equiv> fold (\<lambda>(k, v). bt_insert k v) kvs []"

lemma keys_bt_insert [simp]: "fst ` set (bt_insert k v m) = insert k (fst ` set m)"
  by (induction k v m rule: bt_insert.induct) (simp_all add: insert_commute)

lemma map_of_bt_insert [simp]: "map_of (bt_insert k v m) = (map_of m)(k \<mapsto> v)"
  by (induction m) (auto simp: fun_eq_iff)

lemma bt_ok_insert: "bt_ok m \<Longrightarrow> bt_ok (bt_insert k v m)"
proof (induction m)
  case Nil
  then show ?case by (simp add: bt_ok_def)
next
  case (Cons ab m)
  obtain a b where [simp]: "ab = (a, b)" by (cases ab)
  show ?case
  proof (cases "a < k")
    case True
    have "\<forall>x \<in> fst ` set (bt_insert k v m). a < x"
      using True Cons.prems by (auto simp: bt_ok_def)
    moreover have "bt_ok (bt_insert k v m)" using Cons by (simp add: bt_ok_def)
    ultimately show ?thesis using True by (auto simp: bt_ok_def)
  next
    case False
    then show ?thesis using Cons.prems by (auto simp: bt_ok_def)
  qed
qed

lemma bt_remove_notin: "k \<notin> fst ` set m \<Longrightarrow> bt_remove k m = m"
  by (induction m) auto

lemma keys_bt_remove: "bt_ok m \<Longrightarrow> fst ` set (bt_remove k m) = fst ` set m - {k}"
proof (induction k m rule: bt_remove.induct)
  case (1 k)
  then show ?case by simp
next
  case (2 k a b m)
  from "2.prems" have "bt_ok m" "a \<notin> fst ` set m" by (auto simp: bt_ok_def)
  then show ?case using "2.IH" by (cases "k = a") (simp_all, blast)
qed

lemma map_of_bt_remove: "bt_ok m \<Longrightarrow> map_of (bt_remove k m) = (map_of m)(k := None)"
proof (induction m)
  case Nil
  then show ?case by simp
next
  case (Cons ab m)
  obtain a b where [simp]: "ab = (a, b)" by (cases ab)
  from Cons.prems have "a \<notin> fst ` set m" "bt_ok m" by (auto simp: bt_ok_def)
  then have "map_of m a = None" by (simp add: map_of_eq_None_iff)
  then show ?case using Cons.IH \<open>bt_ok m\<close> by (auto simp: fun_eq_iff)
qed

lemma bt_ok_remove: "bt_ok m \<Longrightarrow> bt_ok (bt_remove k m)"
proof (induction m)
  case Nil
  then show ?case by simp
next
  case (Cons ab m)
  obtain a b where [simp]: "ab = (a, b)" by (cases ab)
  from Cons.prems have "bt_ok m" "\<forall>x \<in> fst ` set m. a < x" by (auto simp: bt_ok_def)
  then show ?case using Cons.IH by (auto simp: bt_ok_def keys_bt_remove [unfolded bt_ok_def])
qed

lemma bt_ok_distinct: "bt_ok m \<Longrightarrow> distinct (map fst m)"
  by (simp add: bt_ok_def strict_sorted_iff)

interpretation bt: keyed_map bt_insert bt_remove bt_ok
  by unfold_locales
    (auto simp: bt_ok_insert bt_ok_remove map_of_bt_remove bt_ok_distinct, simp add: bt_ok_def)

subsection \<open>\<open>BTreeSet\<close>: strictly increasing lists\<close>

abbreviation bts_collect :: "'a::linorder list \<Rightarrow> 'a list" where
  "bts_collect xs \<equiv> sort (remdups xs)"

lemma bts_collect_strict [simp]: "sorted_wrt (<) (bts_collect xs)"
  by (simp add: strict_sorted_iff)

lemma sorted_filter_strict:
  "sorted_wrt (<) (xs :: 'a::linorder list) \<Longrightarrow> sorted_wrt (<) (filter P xs)"
  by (rule sorted_wrt_filter)

section \<open>Reachability\<close>

text \<open>
  A component as a labelled transition system: the initial states and the operations.
  A safety property of a component is the interpretation of this locale at its invariant.
\<close>

inductive reach :: "('s \<Rightarrow> bool) \<Rightarrow> ('s \<Rightarrow> 's \<Rightarrow> bool) \<Rightarrow> 's \<Rightarrow> bool" for init step where
  reach_init: "init s \<Longrightarrow> reach init step s"
| reach_step: "reach init step s \<Longrightarrow> step s t \<Longrightarrow> reach init step t"

locale step_system =
  fixes init :: "'s \<Rightarrow> bool"
    and step :: "'s \<Rightarrow> 's \<Rightarrow> bool"
    and inv :: "'s \<Rightarrow> bool"
  assumes inv_init: "init s \<Longrightarrow> inv s"
    and inv_step: "inv s \<Longrightarrow> step s t \<Longrightarrow> inv t"
begin

lemma reach_inv: "reach init step s \<Longrightarrow> inv s"
  by (induction rule: reach.induct) (auto intro: inv_init inv_step)

lemma run_inv: "inv s \<Longrightarrow> step\<^sup>*\<^sup>* s t \<Longrightarrow> inv t"
  by (rotate_tac, induction rule: rtranclp_induct) (auto intro: inv_step)

end


section \<open>Simulation of a sequence of fallible operations\<close>

primrec run_ops :: "('c \<Rightarrow> 'o \<Rightarrow> 'c option) \<Rightarrow> 'c \<Rightarrow> 'o list \<Rightarrow> 'c option" where
  "run_ops step c [] = Some c"
| "run_ops step c (x # xs) = (case step c x of None \<Rightarrow> None | Some d \<Rightarrow> run_ops step d xs)"

lemma run_ops_append:
  "run_ops step c (xs @ ys) = (case run_ops step c xs of None \<Rightarrow> None | Some d \<Rightarrow> run_ops step d ys)"
  by (induction xs arbitrary: c) (auto split: option.splits)

text \<open>A fallible implementation \<open>step\<close> of the total operations \<open>spec\<close>: on a represented state
  the implementation does not fail and represents the result.\<close>

locale simulation =
  fixes rep :: "'c \<Rightarrow> 'a \<Rightarrow> bool" and step :: "'c \<Rightarrow> 'o \<Rightarrow> 'c option" and spec :: "'a \<Rightarrow> 'o \<Rightarrow> 'a"
  assumes step_sim: "rep c a \<Longrightarrow> \<exists>d. step c x = Some d \<and> rep d (spec a x)"
begin

lemma run_sim: "rep c a \<Longrightarrow> \<exists>d. run_ops step c xs = Some d \<and> rep d (foldl spec a xs)"
proof (induction xs arbitrary: c a)
  case (Cons x xs)
  from step_sim [OF Cons.prems, of x] obtain d where "step c x = Some d" "rep d (spec a x)" by blast
  with Cons.IH show ?case by simp
qed simp

lemma run_rep:
  assumes "rep c a" "run_ops step c xs = Some d"
  shows "rep d (foldl spec a xs)"
  using run_sim [OF assms(1), of xs] assms(2) by simp

end

end
