(* ===== verification/Range_Chunk_Cache.thy ===== *)
theory Range_Chunk_Cache
  imports BK_Prelude "HOL-Library.Monad_Syntax"
begin

text \<open>
  \<open>RangeChunkCache\<close> (crates/common/src/range_chunk_cache.rs): an LRU cache whose recency list
  is doubly linked through the slots of an arena.  Every \<open>unwrap\<close> on an empty slot and every
  out-of-range index is a panic; the model returns \<open>None\<close> there, and \<open>None\<close> is also what
  the eviction loop returns if it does not stop.  The theorems show that from a well-formed cache
  no operation ends in \<open>None\<close> and that each refines the obvious operation on the list of
  entries ordered from most to least recently used.
\<close>

section \<open>The code\<close>

record ('k, 'v) slot =
  sl_key :: 'k
  sl_value :: 'v
  sl_prev :: "nat option"
  sl_next :: "nat option"

record ('k, 'v) range_chunk_cache =
  slots :: "('k, 'v) slot option list"
  free_slots :: "nat list"
  index :: "('k, nat) hashmap"
  most_recent :: "nat option"
  least_recent :: "nat option"
  max_chunks :: nat

definition slot_at :: "('k, 'v) slot option list \<Rightarrow> nat \<Rightarrow> ('k, 'v) slot option" where
  "slot_at ss i = (if i < length ss then ss ! i else None)"

definition upd_slot ::
  "('k, 'v) range_chunk_cache \<Rightarrow> nat \<Rightarrow> (('k, 'v) slot \<Rightarrow> ('k, 'v) slot)
     \<Rightarrow> ('k, 'v) range_chunk_cache option" where
  "upd_slot c i f =
     (case slot_at (slots c) i of
        None \<Rightarrow> None
      | Some s \<Rightarrow> Some (c\<lparr>slots := (slots c)[i := Some (f s)]\<rparr>))"

definition new_cache :: "nat \<Rightarrow> ('k, 'v) range_chunk_cache" where
  "new_cache m = \<lparr>slots = [], free_slots = [], index = [], most_recent = None,
     least_recent = None, max_chunks = m\<rparr>"

definition unlink ::
  "('k, 'v) range_chunk_cache \<Rightarrow> nat \<Rightarrow> ('k, 'v) range_chunk_cache option" where
  "unlink c idx = do {
     s \<leftarrow> slot_at (slots c) idx;
     c1 \<leftarrow> (case sl_prev s of
              Some p \<Rightarrow> upd_slot c p (\<lambda>t. t\<lparr>sl_next := sl_next s\<rparr>)
            | None \<Rightarrow> Some (c\<lparr>most_recent := sl_next s\<rparr>));
     (case sl_next s of
        Some n \<Rightarrow> upd_slot c1 n (\<lambda>t. t\<lparr>sl_prev := sl_prev s\<rparr>)
      | None \<Rightarrow> Some (c1\<lparr>least_recent := sl_prev s\<rparr>))
   }"

definition push_front ::
  "('k, 'v) range_chunk_cache \<Rightarrow> nat \<Rightarrow> ('k, 'v) range_chunk_cache option" where
  "push_front c idx = do {
     c1 \<leftarrow> upd_slot c idx (\<lambda>s. s\<lparr>sl_prev := None, sl_next := most_recent c\<rparr>);
     c2 \<leftarrow> (case most_recent c of
              Some h \<Rightarrow> upd_slot c1 h (\<lambda>s. s\<lparr>sl_prev := Some idx\<rparr>)
            | None \<Rightarrow> Some c1);
     let c3 = c2\<lparr>most_recent := Some idx\<rparr> in
     Some (if least_recent c3 = None then c3\<lparr>least_recent := Some idx\<rparr> else c3)
   }"

definition move_to_front ::
  "('k, 'v) range_chunk_cache \<Rightarrow> nat \<Rightarrow> ('k, 'v) range_chunk_cache option" where
  "move_to_front c idx =
     (if most_recent c = Some idx then Some c
      else do { c1 \<leftarrow> unlink c idx; push_front c1 idx })"

definition alloc_slot ::
  "('k, 'v) range_chunk_cache \<Rightarrow> 'k \<Rightarrow> 'v \<Rightarrow> (nat \<times> ('k, 'v) range_chunk_cache) option" where
  "alloc_slot c k v =
     (let s = Some \<lparr>sl_key = k, sl_value = v, sl_prev = None, sl_next = None\<rparr> in
      if free_slots c = [] then Some (length (slots c), c\<lparr>slots := slots c @ [s]\<rparr>)
      else (let idx = last (free_slots c) in
            if idx < length (slots c)
            then Some (idx, c\<lparr>free_slots := butlast (free_slots c), slots := (slots c)[idx := s]\<rparr>)
            else None))"

definition detach ::
  "('k, 'v) range_chunk_cache \<Rightarrow> nat
     \<Rightarrow> (('k, 'v) slot \<times> ('k, 'v) range_chunk_cache) option" where
  "detach c idx = do {
     c1 \<leftarrow> unlink c idx;
     s \<leftarrow> slot_at (slots c1) idx;
     Some (s, c1\<lparr>slots := (slots c1)[idx := None], free_slots := free_slots c1 @ [idx]\<rparr>)
   }"

definition evict_least_recent ::
  "('k, 'v) range_chunk_cache \<Rightarrow> ('k, 'v) range_chunk_cache option" where
  "evict_least_recent c =
     (case least_recent c of
        None \<Rightarrow> Some c
      | Some idx \<Rightarrow> do {
          (s, c1) \<leftarrow> detach c idx;
          Some (c1\<lparr>index := hm_remove (sl_key s) (index c1)\<rparr>)
        })"

partial_function (option) evict_loop ::
  "('k, 'v) range_chunk_cache \<Rightarrow> ('k, 'v) range_chunk_cache option" where
  "evict_loop c =
     (if max_chunks c < length (index c)
      then (case evict_least_recent c of None \<Rightarrow> None | Some c1 \<Rightarrow> evict_loop c1)
      else Some c)"

definition cache_get ::
  "('k, 'v) range_chunk_cache \<Rightarrow> 'k \<Rightarrow> ('v option \<times> ('k, 'v) range_chunk_cache) option" where
  "cache_get c k =
     (case map_of (index c) k of
        None \<Rightarrow> Some (None, c)
      | Some idx \<Rightarrow> do {
          c1 \<leftarrow> move_to_front c idx;
          s \<leftarrow> slot_at (slots c1) idx;
          Some (Some (sl_value s), c1)
        })"

definition cache_insert ::
  "('k, 'v) range_chunk_cache \<Rightarrow> 'k \<Rightarrow> 'v \<Rightarrow> ('v \<times> ('k, 'v) range_chunk_cache) option" where
  "cache_insert c k v =
     (case map_of (index c) k of
        Some idx \<Rightarrow> do {
          c1 \<leftarrow> upd_slot c idx (\<lambda>s. s\<lparr>sl_value := v\<rparr>);
          c2 \<leftarrow> move_to_front c1 idx;
          Some (v, c2)
        }
      | None \<Rightarrow> do {
          (idx, c1) \<leftarrow> alloc_slot c k v;
          c3 \<leftarrow> push_front (c1\<lparr>index := hm_insert k idx (index c1)\<rparr>) idx;
          c4 \<leftarrow> evict_loop c3;
          Some (v, c4)
        })"

definition cache_remove ::
  "('k, 'v) range_chunk_cache \<Rightarrow> 'k \<Rightarrow> ('v option \<times> ('k, 'v) range_chunk_cache) option" where
  "cache_remove c k =
     (case map_of (index c) k of
        None \<Rightarrow> Some (None, c)
      | Some idx \<Rightarrow> do {
          (s, c1) \<leftarrow> detach (c\<lparr>index := hm_remove k (index c)\<rparr>) idx;
          Some (Some (sl_value s), c1)
        })"

definition cache_len :: "('k, 'v) range_chunk_cache \<Rightarrow> nat" where
  "cache_len c = length (index c)"

section \<open>The linked list\<close>

text \<open>\<open>seg ss p is n\<close>: the slots \<open>is\<close> are linked in this order, the first back to
  \<open>p\<close> and the last on to \<open>n\<close>.\<close>

fun seg :: "('k, 'v) slot option list \<Rightarrow> nat option \<Rightarrow> nat list \<Rightarrow> nat option \<Rightarrow> bool" where
  "seg ss p [] n = True"
| "seg ss p (i # is) n =
     (case slot_at ss i of
        None \<Rightarrow> False
      | Some s \<Rightarrow> sl_prev s = p \<and> sl_next s = or_else (first_opt is) n \<and> seg ss (Some i) is n)"

definition tail_of :: "nat list \<Rightarrow> nat option \<Rightarrow> nat option" where
  "tail_of is p = or_else (last_opt is) p"

lemma last_opt_simps [simp]:
  "last_opt [] = None" "last_opt (xs @ [x]) = Some x" "last_opt [x] = Some x"
  "last_opt (x # y # ys) = last_opt (y # ys)"
  by (auto simp: last_opt_def)

lemma last_opt_None [simp]: "last_opt xs = None \<longleftrightarrow> xs = []"
  by (simp add: last_opt_def)

lemma tail_of_simps [simp]:
  "tail_of [] p = p" "tail_of (is @ [i]) p = Some i" "tail_of (i # is) p = tail_of is (Some i)"
  by (auto simp: tail_of_def last_opt_def)

lemma first_opt_append [simp]: "first_opt (xs @ ys) = or_else (first_opt xs) (first_opt ys)"
  by (cases xs) auto

lemma or_else_assoc [simp]: "or_else (or_else a b) c = or_else a (or_else b c)"
  by (cases a) auto

lemma seg_append:
  "seg ss p (as @ bs) n \<longleftrightarrow>
     seg ss p as (or_else (first_opt bs) n) \<and> seg ss (tail_of as p) bs n"
  by (induction as arbitrary: p) (auto split: option.splits)

lemma slot_at_update:
  "slot_at (ss[i := x]) j = (if i = j \<and> i < length ss then x else slot_at ss j)"
  by (auto simp: slot_at_def)

lemma seg_frame: "i \<notin> set is \<Longrightarrow> seg (ss[i := x]) p is n = seg ss p is n"
  by (induction "is" arbitrary: p) (auto simp: slot_at_update split: option.splits)

lemma seg_slot: "seg ss p is n \<Longrightarrow> i \<in> set is \<Longrightarrow> \<exists>s. slot_at ss i = Some s"
  by (induction "is" arbitrary: p) (auto split: option.splits)

lemma seg_set_next:
  assumes "seg ss p (is @ [i]) n" "distinct (is @ [i])" "slot_at ss i = Some s"
  shows "seg (ss[i := Some (s\<lparr>sl_next := m\<rparr>)]) p (is @ [i]) m"
  using assms by (simp add: seg_append seg_frame) (simp add: slot_at_def split: if_splits)

lemma seg_set_prev:
  assumes "seg ss p (i # is) n" "distinct (i # is)" "slot_at ss i = Some s"
  shows "seg (ss[i := Some (s\<lparr>sl_prev := q\<rparr>)]) q (i # is) n"
  using assms by (auto simp: slot_at_update seg_frame) (simp add: slot_at_def split: if_splits)+

lemma seg_set_value:
  assumes "seg ss p is n" "slot_at ss i = Some s"
  shows "seg (ss[i := Some (s\<lparr>sl_value := v\<rparr>)]) p is n"
  using assms by (induction "is" arbitrary: p) (auto simp: slot_at_update split: option.splits)


section \<open>Refinement of the recency list\<close>

definition content :: "('k, 'v) range_chunk_cache \<Rightarrow> nat \<Rightarrow> ('k \<times> 'v) option" where
  "content c i = map_option (\<lambda>s. (sl_key s, sl_value s)) (slot_at (slots c) i)"

text \<open>Two caches that differ in links only.\<close>

definition same_data :: "('k, 'v) range_chunk_cache \<Rightarrow> ('k, 'v) range_chunk_cache \<Rightarrow> bool" where
  "same_data c d \<longleftrightarrow> content d = content c \<and> length (slots d) = length (slots c) \<and>
     index d = index c \<and> free_slots d = free_slots c \<and> max_chunks d = max_chunks c"

definition linked :: "('k, 'v) range_chunk_cache \<Rightarrow> nat list \<Rightarrow> bool" where
  "linked c ord \<longleftrightarrow> seg (slots c) None ord None \<and> distinct ord \<and>
     most_recent c = first_opt ord \<and> least_recent c = last_opt ord"

lemma content_simps [simp]:
  "content (c\<lparr>most_recent := x\<rparr>) = content c" "content (c\<lparr>least_recent := x\<rparr>) = content c"
  "content (c\<lparr>index := y\<rparr>) = content c" "content (c\<lparr>free_slots := z\<rparr>) = content c"
  by (simp_all add: content_def fun_eq_iff)

lemma same_data_refl [simp]: "same_data c c"
  by (simp add: same_data_def)

lemma same_data_trans: "same_data a b \<Longrightarrow> same_data b c \<Longrightarrow> same_data a c"
  by (simp add: same_data_def)

lemma slot_at_Some_lt: "slot_at ss i = Some s \<Longrightarrow> i < length ss"
  by (simp add: slot_at_def split: if_splits)

lemma upd_slot_links:
  assumes "slot_at (slots c) i = Some s" "\<And>t. sl_key (f t) = sl_key t" "\<And>t. sl_value (f t) = sl_value t"
  shows "upd_slot c i f = Some (c\<lparr>slots := (slots c)[i := Some (f s)]\<rparr>)"
    and "same_data c (c\<lparr>slots := (slots c)[i := Some (f s)]\<rparr>)"
  using assms by (auto simp: upd_slot_def same_data_def content_def slot_at_update fun_eq_iff)

definition relink_next where
  "relink_next c q n =
     (case q of Some p \<Rightarrow> upd_slot c p (\<lambda>t. t\<lparr>sl_next := n\<rparr>) | None \<Rightarrow> Some (c\<lparr>most_recent := n\<rparr>))"

definition relink_prev where
  "relink_prev c q n =
     (case n of Some m \<Rightarrow> upd_slot c m (\<lambda>t. t\<lparr>sl_prev := q\<rparr>) | None \<Rightarrow> Some (c\<lparr>least_recent := q\<rparr>))"

lemma unlink_relink:
  "unlink c i = do {
     s \<leftarrow> slot_at (slots c) i;
     c1 \<leftarrow> relink_next c (sl_prev s) (sl_next s);
     relink_prev c1 (sl_prev s) (sl_next s) }"
  by (simp add: unlink_def relink_next_def relink_prev_def)

lemma relink_next_ok:
  assumes "seg (slots c) None as m" "distinct as"
  shows "\<exists>d. relink_next c (last_opt as) n = Some d \<and> seg (slots d) None as n \<and> same_data c d \<and>
     most_recent d = (if as = [] then n else most_recent c) \<and> least_recent d = least_recent c \<and>
     (\<forall>j. j \<notin> set as \<longrightarrow> slot_at (slots d) j = slot_at (slots c) j) \<and>
     (\<forall>is p q. set is \<inter> set as = {} \<longrightarrow> seg (slots d) p is q = seg (slots c) p is q)"
proof (cases as rule: rev_cases)
  case Nil
  then show ?thesis by (simp add: relink_next_def same_data_def)
next
  case (snoc as' a)
  then obtain s where s: "slot_at (slots c) a = Some s" using assms(1) seg_slot by fastforce
  have "seg ((slots c)[a := Some (s\<lparr>sl_next := n\<rparr>)]) None as n"
    using seg_set_next [of "slots c" None as' a m s n] assms s snoc by simp
  then show ?thesis
    using snoc upd_slot_links [OF s, of "\<lambda>t. t\<lparr>sl_next := n\<rparr>"]
    by (auto simp: relink_next_def slot_at_update seg_frame)
qed

lemma relink_prev_ok:
  assumes "seg (slots c) p bs None" "distinct bs"
  shows "\<exists>d. relink_prev c q (first_opt bs) = Some d \<and> seg (slots d) q bs None \<and> same_data c d \<and>
     most_recent d = most_recent c \<and> least_recent d = (if bs = [] then q else least_recent c) \<and>
     (\<forall>j. j \<notin> set bs \<longrightarrow> slot_at (slots d) j = slot_at (slots c) j) \<and>
     (\<forall>is p q. set is \<inter> set bs = {} \<longrightarrow> seg (slots d) p is q = seg (slots c) p is q)"
proof (cases bs)
  case Nil
  then show ?thesis by (simp add: relink_prev_def same_data_def)
next
  case (Cons b bs')
  then obtain s where s: "slot_at (slots c) b = Some s" using assms(1) seg_slot by fastforce
  have "seg ((slots c)[b := Some (s\<lparr>sl_prev := q\<rparr>)]) q bs None"
    using seg_set_prev [of "slots c" p b bs' None s q] assms s Cons by simp
  then show ?thesis
    using Cons upd_slot_links [OF s, of "\<lambda>t. t\<lparr>sl_prev := q\<rparr>"] slot_at_Some_lt [OF s]
    by (auto simp: relink_prev_def slot_at_update seg_frame)
qed

lemma unlink_ok:
  assumes "linked c (as @ i # bs)"
  shows "\<exists>d. unlink c i = Some d \<and> linked d (as @ bs) \<and> same_data c d"
proof -
  from assms have dist: "distinct (as @ i # bs)"
    and segs: "seg (slots c) None as (Some i)" "seg (slots c) (last_opt as) (i # bs) None"
    and ends: "most_recent c = first_opt (as @ [i])" "least_recent c = last_opt (as @ i # bs)"
    by (auto simp: linked_def seg_append tail_of_def)
  then obtain s where s: "slot_at (slots c) i = Some s" "sl_prev s = last_opt as"
      "sl_next s = first_opt bs" "seg (slots c) (Some i) bs None"
    by (auto split: option.splits)
  obtain d1 where d1: "relink_next c (last_opt as) (first_opt bs) = Some d1"
      "seg (slots d1) None as (first_opt bs)" "same_data c d1"
      "most_recent d1 = (if as = [] then first_opt bs else most_recent c)"
      "least_recent d1 = least_recent c"
      "\<forall>is p q. set is \<inter> set as = {} \<longrightarrow> seg (slots d1) p is q = seg (slots c) p is q"
    using relink_next_ok [OF segs(1), of "first_opt bs"] dist by auto
  have "seg (slots d1) (Some i) bs None" using d1(6) s(4) dist by auto
  from relink_prev_ok [OF this, of "last_opt as"] dist
  obtain d2 where d2: "relink_prev d1 (last_opt as) (first_opt bs) = Some d2"
      "seg (slots d2) (last_opt as) bs None" "same_data d1 d2"
      "most_recent d2 = most_recent d1"
      "least_recent d2 = (if bs = [] then last_opt as else least_recent d1)"
      "\<forall>is p q. set is \<inter> set bs = {} \<longrightarrow> seg (slots d2) p is q = seg (slots d1) p is q"
    by auto
  have "seg (slots d2) None as (first_opt bs)" using d2(6) d1(2) dist by auto
  then have "seg (slots d2) None (as @ bs) None"
    using d2(2) by (simp add: seg_append tail_of_def)
  moreover have "most_recent d2 = first_opt (as @ bs)"
    using d2(4) d1(4) ends(1) by (cases as) auto
  moreover have "least_recent d2 = last_opt (as @ bs)"
    using d2(5) d1(5) ends(2) by (auto simp: last_opt_def)
  moreover have "unlink c i = Some d2" using s d1(1) d2(1) by (simp add: unlink_relink)
  ultimately show ?thesis
    using dist same_data_trans [OF d1(3) d2(3)] by (auto simp: linked_def)
qed

lemma push_front_ok:
  assumes "linked c ord" "i \<notin> set ord" "slot_at (slots c) i = Some s"
  shows "\<exists>d. push_front c i = Some d \<and> linked d (i # ord) \<and> same_data c d"
proof -
  let ?f = "\<lambda>s. s\<lparr>sl_prev := None, sl_next := most_recent c\<rparr>"
  let ?c1 = "c\<lparr>slots := (slots c)[i := Some (?f s)]\<rparr>"
  have c1: "upd_slot c i ?f = Some ?c1" "same_data c ?c1"
    by (rule upd_slot_links [OF assms(3)], simp_all)+
  have seg1: "seg (slots ?c1) None ord None"
    using assms(1,2) by (simp add: linked_def seg_frame)
  have at1: "slot_at (slots ?c1) i = Some (?f s)"
    using slot_at_Some_lt [OF assms(3)] by (simp add: slot_at_update)
  show ?thesis
  proof (cases ord)
    case Nil
    then show ?thesis
      using assms(1) c1 at1 by (auto simp: push_front_def linked_def same_data_def)
  next
    case (Cons h t)
    from relink_prev_ok [OF seg1, of "Some i"] assms(1) obtain d where
      d: "relink_prev ?c1 (Some i) (first_opt ord) = Some d" "seg (slots d) (Some i) ord None"
        "same_data ?c1 d" "least_recent d = least_recent ?c1"
        "slot_at (slots d) i = slot_at (slots ?c1) i"
      using assms(2) Cons by (auto simp: linked_def)
    have "upd_slot ?c1 h (\<lambda>s. s\<lparr>sl_prev := Some i\<rparr>) = Some d"
      using d(1) Cons by (simp add: relink_prev_def)
    moreover have "least_recent c \<noteq> None" "most_recent c = Some h"
      using assms(1) Cons by (auto simp: linked_def)
    ultimately have "push_front c i = Some (d\<lparr>most_recent := Some i\<rparr>)"
      using c1(1) d(4) by (auto simp: push_front_def)
    moreover have "linked (d\<lparr>most_recent := Some i\<rparr>) (i # ord)"
      using d at1 assms(1,2) Cons by (auto simp: linked_def last_opt_def)
    moreover have "same_data c (d\<lparr>most_recent := Some i\<rparr>)"
      using same_data_trans [OF c1(2) d(3)] by (simp add: same_data_def)
    ultimately show ?thesis by blast
  qed
qed


text \<open>The map and the arena agree with the linked slots \<open>ord\<close> (order irrelevant here).\<close>

definition data_ok :: "('k, 'v) range_chunk_cache \<Rightarrow> nat set \<Rightarrow> bool" where
  "data_ok c A \<longleftrightarrow>
     hm_ok (index c) \<and>
     (\<forall>k i. map_of (index c) k = Some i \<longleftrightarrow> i \<in> A \<and> (\<exists>v. content c i = Some (k, v))) \<and>
     (\<forall>i < length (slots c). content c i = None \<longleftrightarrow> i \<in> set (free_slots c)) \<and>
     distinct (free_slots c) \<and> (\<forall>i \<in> set (free_slots c). i < length (slots c)) \<and>
     (\<forall>i. content c i \<noteq> None \<longleftrightarrow> i \<in> A)"

definition cache_inv :: "('k, 'v) range_chunk_cache \<Rightarrow> nat list \<Rightarrow> bool" where
  "cache_inv c ord \<longleftrightarrow> linked c ord \<and> data_ok c (set ord)"

definition entries :: "('k, 'v) range_chunk_cache \<Rightarrow> nat list \<Rightarrow> ('k \<times> 'v) list" where
  "entries c ord = map (the \<circ> content c) ord"

definition cache_rep :: "('k, 'v) range_chunk_cache \<Rightarrow> ('k \<times> 'v) list \<Rightarrow> bool" where
  "cache_rep c xs \<longleftrightarrow>
     (\<exists>ord. cache_inv c ord \<and> xs = entries c ord) \<and> length xs \<le> max_chunks c"

lemma data_ok_same: "same_data c d \<Longrightarrow> data_ok c A \<Longrightarrow> data_ok d A"
  unfolding data_ok_def same_data_def by simp

lemma entries_same: "same_data c d \<Longrightarrow> entries d ord = entries c ord"
  by (simp add: entries_def same_data_def)

lemma index_at:
  assumes "data_ok c A" "map_of (index c) k = Some i"
  obtains v where "i \<in> A" "content c i = Some (k, v)"
  using assms unfolding data_ok_def by auto

lemma content_index:
  "data_ok c A \<Longrightarrow> content c i = Some (k, v) \<Longrightarrow> map_of (index c) k = Some i"
  unfolding data_ok_def by auto

lemma content_None: "data_ok c A \<Longrightarrow> content c i = None \<Longrightarrow> i \<notin> A"
  unfolding data_ok_def by metis

lemma content_slot: "content c i = Some (k, v) \<Longrightarrow> \<exists>s. slot_at (slots c) i = Some s \<and> sl_key s = k \<and> sl_value s = v"
  by (auto simp: content_def)

lemma index_length:
  assumes "data_ok c (set ord)" "distinct ord"
  shows "length (index c) = length ord"
proof -
  have ok: "hm_ok (index c)" using assms(1) by (simp add: data_ok_def)
  have mem: "(k, i) \<in> set (index c) \<longleftrightarrow> i \<in> set ord \<and> (\<exists>v. content c i = Some (k, v))" for k i
    using assms(1) by (simp add: hm.mem_iff [OF ok] data_ok_def)
  have "bij_betw snd (set (index c)) (set ord)"
  proof (rule bij_betw_imageI)
    show "inj_on snd (set (index c))" by (auto simp: inj_on_def mem)
    have "\<exists>k. (k, i) \<in> set (index c)" if "i \<in> set ord" for i
      using that assms(1) mem by (fastforce simp: data_ok_def)
    then show "snd ` set (index c) = set ord" using mem by force
  qed
  then have "card (set (index c)) = card (set ord)" by (rule bij_betw_same_card)
  moreover have "distinct (index c)" using ok by (simp add: hm_ok_def distinct_map)
  ultimately show ?thesis using assms(2) by (simp add: distinct_card)
qed

lemma entries_keys:
  assumes "data_ok c (set ord)"
  shows "map_of (entries c ord) k =
    (case map_of (index c) k of None \<Rightarrow> None | Some i \<Rightarrow> map_option snd (content c i))"
proof -
  have aux: "set is \<subseteq> set ord \<Longrightarrow> map_of (entries c is) k =
      (case map_of (index c) k of None \<Rightarrow> None
       | Some i \<Rightarrow> if i \<in> set is then map_option snd (content c i) else None)" for "is"
  proof (induction "is")
    case Nil
    then show ?case by (simp add: entries_def split: option.splits)
  next
    case (Cons j "is")
    then obtain kj vj where j: "content c j = Some (kj, vj)"
      using assms by (force simp: data_ok_def)
    have kj: "map_of (index c) kj = Some j" using content_index [OF assms j] .
    have eq: "map_of (index c) k = Some j \<longleftrightarrow> k = kj"
      using j kj index_at [OF assms, of k j] by (metis option.inject prod.inject)
    have "map_of (entries c (j # is)) k = (if k = kj then Some vj else map_of (entries c is) k)"
      using j by (simp add: entries_def)
    moreover have "set is \<subseteq> set ord" using Cons.prems by simp
    ultimately show ?case using Cons.IH j eq by (auto split: option.splits)
  qed
  show ?thesis
    using aux [of ord] by (auto elim!: index_at [OF assms] split: option.splits)
qed

lemma entries_delete:
  assumes "data_ok c (set (as @ i # bs))" "distinct (as @ i # bs)" "content c i = Some (k, v)"
  shows "AList.delete k (entries c (as @ i # bs)) = entries c (as @ bs)"
proof -
  have "fst (the (content c j)) \<noteq> k" if "j \<in> set (as @ bs)" for j
  proof
    assume eq: "fst (the (content c j)) = k"
    from that assms(1) obtain k' v' where j: "content c j = Some (k', v')"
      by (force simp: data_ok_def)
    with eq have "map_of (index c) k = Some j" using content_index [OF assms(1) j] by simp
    moreover have "map_of (index c) k = Some i" using content_index [OF assms(1,3)] .
    ultimately show False using that assms(2) by auto
  qed
  then have "filter (\<lambda>p. k \<noteq> fst p) (entries c is) = entries c is" if "set is \<subseteq> set (as @ bs)" for "is"
    using that by (simp add: entries_def filter_id_conv) (metis Un_iff set_append subsetD)
  then have "filter (\<lambda>p. k \<noteq> fst p) (entries c as) = entries c as"
      "filter (\<lambda>p. k \<noteq> fst p) (entries c bs) = entries c bs"
    by simp_all
  moreover have "entries c (as @ i # bs) = entries c as @ (k, v) # entries c bs"
    using assms(3) by (simp add: entries_def)
  moreover have "entries c (as @ bs) = entries c as @ entries c bs" by (simp add: entries_def)
  ultimately show ?thesis by (simp add: AList.delete_eq case_prod_unfold)
qed

lemma move_to_front_ok:
  assumes "cache_inv c (as @ i # bs)"
  shows "\<exists>d. move_to_front c i = Some d \<and> cache_inv d (i # as @ bs) \<and> same_data c d"
proof (cases "most_recent c = Some i")
  case True
  with assms have "as = []" by (cases as) (auto simp: cache_inv_def linked_def)
  then show ?thesis using True assms by (simp add: move_to_front_def)
next
  case False
  from assms have l: "linked c (as @ i # bs)" and data: "data_ok c (set (as @ i # bs))"
    by (auto simp: cache_inv_def)
  from unlink_ok [OF l] obtain d1 where
    d1: "unlink c i = Some d1" "linked d1 (as @ bs)" "same_data c d1" by blast
  from data have "content c i \<noteq> None" by (auto simp: data_ok_def)
  then obtain s where s: "slot_at (slots d1) i = Some s"
    using d1(3) by (metis content_def map_option_is_None not_None_eq same_data_def)
  have "i \<notin> set (as @ bs)" using l by (auto simp: linked_def)
  from push_front_ok [OF d1(2) this s] obtain d where
    d: "push_front d1 i = Some d" "linked d (i # as @ bs)" "same_data d1 d" by blast
  have "same_data c d" using d1(3) d(3) by (rule same_data_trans)
  moreover from this have "data_ok d (set (i # as @ bs))"
    using data data_ok_same by fastforce
  ultimately show ?thesis using False d1(1) d by (simp add: move_to_front_def cache_inv_def)
qed


section \<open>The operations refine the abstract LRU list\<close>

definition lru_touch :: "'k \<Rightarrow> ('k \<times> 'v) list \<Rightarrow> ('k \<times> 'v) list" where
  "lru_touch k xs = (case map_of xs k of None \<Rightarrow> xs | Some v \<Rightarrow> (k, v) # AList.delete k xs)"

definition lru_insert :: "nat \<Rightarrow> 'k \<Rightarrow> 'v \<Rightarrow> ('k \<times> 'v) list \<Rightarrow> ('k \<times> 'v) list" where
  "lru_insert cap k v xs = take cap ((k, v) # AList.delete k xs)"

lemma indexed_split:
  assumes "cache_inv c ord" "map_of (index c) k = Some i"
  obtains as bs v s where "ord = as @ i # bs" "content c i = Some (k, v)"
    "slot_at (slots c) i = Some s" "sl_key s = k" "sl_value s = v"
    "map_of (entries c ord) k = Some v" "AList.delete k (entries c ord) = entries c (as @ bs)"
proof -
  have data: "data_ok c (set ord)" and "distinct ord"
    using assms(1) by (auto simp: cache_inv_def linked_def)
  obtain v where i: "i \<in> set ord" "content c i = Some (k, v)" by (rule index_at [OF data assms(2)])
  then obtain as bs where ord: "ord = as @ i # bs" by (meson split_list)
  from content_slot [OF i(2)] obtain s where
    s: "slot_at (slots c) i = Some s" "sl_key s = k" "sl_value s = v" by blast
  have "map_of (entries c ord) k = Some v" using entries_keys [OF data] assms(2) i(2) by simp
  moreover have "AList.delete k (entries c ord) = entries c (as @ bs)"
    unfolding ord by (rule entries_delete) (use data ord i(2) \<open>distinct ord\<close> in auto)
  ultimately show ?thesis using that ord i(2) s by blast
qed

lemma cache_get_refines:
  assumes "cache_rep c xs"
  shows "\<exists>d. cache_get c k = Some (map_of xs k, d) \<and> cache_rep d (lru_touch k xs) \<and>
    max_chunks d = max_chunks c"
proof -
  from assms obtain ord where inv: "cache_inv c ord" and xs: "xs = entries c ord"
    and len: "length xs \<le> max_chunks c" by (auto simp: cache_rep_def)
  from inv have data: "data_ok c (set ord)" by (simp add: cache_inv_def)
  show ?thesis
  proof (cases "map_of (index c) k")
    case None
    then have "map_of xs k = None" using entries_keys [OF data, of k] xs by simp
    then show ?thesis using None assms by (simp add: cache_get_def lru_touch_def)
  next
    case (Some i)
    then obtain as bs v s where ord: "ord = as @ i # bs" and cont: "content c i = Some (k, v)"
      and look: "map_of xs k = Some v" and del: "AList.delete k xs = entries c (as @ bs)"
      unfolding xs by (rule indexed_split [OF inv])
    from move_to_front_ok [of c as i bs] inv ord obtain d where
      d: "move_to_front c i = Some d" "cache_inv d (i # as @ bs)" "same_data c d" by auto
    have "content d i = Some (k, v)" using cont d(3) by (simp add: same_data_def)
    then obtain s where s: "slot_at (slots d) i = Some s" "sl_value s = v"
      by (auto dest: content_slot)
    have "entries d (i # as @ bs) = lru_touch k xs"
      using look del cont by (simp add: lru_touch_def entries_same [OF d(3)]) (simp add: entries_def)
    moreover have "length (entries d (i # as @ bs)) = length xs"
      by (simp add: xs ord entries_def)
    ultimately have "cache_rep d (lru_touch k xs)"
      using d(2,3) len by (auto simp: cache_rep_def same_data_def intro!: exI [of _ "i # as @ bs"])
    then show ?thesis using Some d(1,3) s look by (simp add: cache_get_def same_data_def)
  qed
qed


lemma detach_ok:
  assumes "linked c (as @ i # bs)" "content c i = Some (k, v)"
  shows "\<exists>s d. detach c i = Some (s, d) \<and> sl_key s = k \<and> sl_value s = v \<and> linked d (as @ bs) \<and>
    content d = (content c)(i := None) \<and> length (slots d) = length (slots c) \<and>
    index d = index c \<and> free_slots d = free_slots c @ [i] \<and> max_chunks d = max_chunks c"
proof -
  from unlink_ok [OF assms(1)] obtain d1 where
    d1: "unlink c i = Some d1" "linked d1 (as @ bs)" "same_data c d1" by blast
  have "content d1 i = Some (k, v)" using assms(2) d1(3) by (simp add: same_data_def)
  then obtain s where s: "slot_at (slots d1) i = Some s" "sl_key s = k" "sl_value s = v"
    by (auto dest: content_slot)
  let ?d = "d1\<lparr>slots := (slots d1)[i := None], free_slots := free_slots d1 @ [i]\<rparr>"
  have "i \<notin> set (as @ bs)" using assms(1) by (auto simp: linked_def)
  then have "linked ?d (as @ bs)" using d1(2) by (simp add: linked_def seg_frame)
  moreover have "content ?d = (content d1)(i := None)"
    using slot_at_Some_lt [OF s(1)] by (auto simp: content_def slot_at_update fun_eq_iff)
  moreover have "detach c i = Some (s, ?d)" using d1(1) s(1) by (simp add: detach_def)
  ultimately show ?thesis using d1(3) s by (simp add: same_data_def)
qed

lemma data_ok_drop:
  assumes "data_ok c (insert i A)" "i \<notin> A" "content c i = Some (k, v)"
    "content d = (content c)(i := None)" "length (slots d) = length (slots c)"
    "index d = hm_remove k (index c)" "free_slots d = free_slots c @ [i]"
  shows "data_ok d A"
proof -
  have ok: "hm_ok (index c)" using assms(1) by (simp add: data_ok_def)
  have uniq: "j = i" if "content c j = Some (k, w)" for j w
    using content_index [OF assms(1) that] content_index [OF assms(1,3)] by simp
  have i: "i < length (slots c)"
    using assms(3) by (auto simp: content_def dest: slot_at_Some_lt)
  have free: "content c j = None \<longleftrightarrow> j \<in> set (free_slots c)" if "j < length (slots c)" for j
    using assms(1) that by (simp add: data_ok_def)
  have idx: "map_of (index c) k' = Some j \<longleftrightarrow> j \<in> insert i A \<and> (\<exists>v. content c j = Some (k', v))" for k' j
    using assms(1) by (simp add: data_ok_def)
  have dom: "content c j \<noteq> None \<longleftrightarrow> j \<in> insert i A" for j
    using assms(1) by (simp add: data_ok_def)
  show ?thesis
    unfolding data_ok_def
  proof (intro conjI allI ballI impI)
    show "hm_ok (index d)" using hm.ok_del [OF ok, of k] assms(6) by simp
    show "map_of (index d) k' = Some j \<longleftrightarrow> j \<in> A \<and> (\<exists>v. content d j = Some (k', v))" for k' j
    proof (cases "k' = k")
      case True
      have "\<not> (j \<in> A \<and> (\<exists>v. content d j = Some (k, v)))"
        using uniq [of j] assms(2) by (metis assms(4) fun_upd_apply)
      then show ?thesis using True by (simp add: assms(6) delete_conv')
    next
      case False
      then show ?thesis using idx [of k' j] assms(2,3) by (auto simp: assms(4,6) delete_conv')
    qed
    show "content d j = None \<longleftrightarrow> j \<in> set (free_slots d)" if "j < length (slots d)" for j
      using that free [of j] by (simp add: assms(4,5,7))
    show "distinct (free_slots d)"
      using assms(1) free [OF i] by (simp add: assms(3,7) data_ok_def)
    show "j < length (slots d)" if "j \<in> set (free_slots d)" for j
      using that assms(1) i by (auto simp: assms(5,7) data_ok_def)
    show "content d j \<noteq> None \<longleftrightarrow> j \<in> A" for j
      using dom [of j] assms(2) by (simp add: assms(4))
  qed
qed

lemma cache_remove_refines:
  assumes "cache_rep c xs"
  shows "\<exists>d. cache_remove c k = Some (map_of xs k, d) \<and> cache_rep d (AList.delete k xs) \<and>
    max_chunks d = max_chunks c"
proof -
  from assms obtain ord where inv: "cache_inv c ord" and xs: "xs = entries c ord"
    and len: "length xs \<le> max_chunks c" by (auto simp: cache_rep_def)
  from inv have data: "data_ok c (set ord)" by (simp add: cache_inv_def)
  show ?thesis
  proof (cases "map_of (index c) k")
    case None
    then have "map_of xs k = None" using entries_keys [OF data, of k] xs by simp
    moreover from this have "AList.delete k xs = xs"
      by (simp add: map_of_eq_None_iff)
    ultimately show ?thesis using None assms by (simp add: cache_remove_def)
  next
    case (Some i)
    let ?c = "c\<lparr>index := hm_remove k (index c)\<rparr>"
    from Some obtain as bs v where ord: "ord = as @ i # bs" and cont: "content c i = Some (k, v)"
      and look: "map_of xs k = Some v" and del: "AList.delete k xs = entries c (as @ bs)"
      unfolding xs by (rule indexed_split [OF inv])
    have "linked ?c (as @ i # bs)" using inv ord by (simp add: cache_inv_def linked_def)
    from detach_ok [OF this, of k v] cont obtain s d where
      d: "detach ?c i = Some (s, d)" "sl_value s = v" "linked d (as @ bs)"
        "content d = (content c)(i := None)" "length (slots d) = length (slots c)"
        "index d = hm_remove k (index c)" "free_slots d = free_slots c @ [i]"
        "max_chunks d = max_chunks c"
      by auto
    have i: "i \<notin> set (as @ bs)" using inv ord by (auto simp: cache_inv_def linked_def)
    have "data_ok d (set (as @ bs))"
      by (rule data_ok_drop [OF _ i cont d(4,5,6,7)]) (use data ord in simp)
    moreover have "entries d (as @ bs) = entries c (as @ bs)"
      using i d(4) by (auto simp: entries_def)
    ultimately have "cache_rep d (AList.delete k xs)"
      using d(3,8) len del length_delete_le [of k xs]
      by (auto simp: cache_rep_def cache_inv_def intro!: exI [of _ "as @ bs"])
    then show ?thesis using Some d look by (simp add: cache_remove_def)
  qed
qed


lemma evict_least_recent_ok:
  assumes "cache_inv c (ord @ [i])"
  shows "\<exists>d. evict_least_recent c = Some d \<and> cache_inv d ord \<and> entries d ord = entries c ord \<and>
    max_chunks d = max_chunks c"
proof -
  have l: "linked c (ord @ i # [])" and data: "data_ok c (set (ord @ [i]))"
    using assms by (auto simp: cache_inv_def)
  obtain k v where cont: "content c i = Some (k, v)" using data by (force simp: data_ok_def)
  from detach_ok [OF l cont] obtain s d where
    d: "detach c i = Some (s, d)" "sl_key s = k" "linked d ord"
      "content d = (content c)(i := None)" "length (slots d) = length (slots c)"
      "index d = index c" "free_slots d = free_slots c @ [i]" "max_chunks d = max_chunks c"
    by auto
  let ?d = "d\<lparr>index := hm_remove k (index d)\<rparr>"
  have i: "i \<notin> set ord" using l by (auto simp: linked_def)
  have "data_ok ?d (set ord)"
    by (rule data_ok_drop [OF _ i cont]) (use data d in simp_all)
  moreover have "entries ?d ord = entries c ord" using i d(4) by (auto simp: entries_def)
  moreover have "linked ?d ord" using d(3) by (simp add: linked_def)
  moreover have "evict_least_recent c = Some ?d"
    using l d(1,2) by (simp add: evict_least_recent_def linked_def)
  ultimately show ?thesis using d(8) by (simp add: cache_inv_def)
qed

lemma evict_loop_ok:
  "cache_inv c ord \<Longrightarrow> \<exists>d. evict_loop c = Some d \<and> cache_rep d (take (max_chunks c) (entries c ord)) \<and>
     max_chunks d = max_chunks c"
proof (induction ord arbitrary: c rule: rev_induct)
  case Nil
  then have "length (index c) = 0" using index_length [of c "[]"] by (simp add: cache_inv_def)
  then show ?case using Nil by (subst evict_loop.simps) (auto simp: cache_rep_def entries_def)
next
  case (snoc i ord)
  have len: "length (index c) = length (ord @ [i])"
    using index_length [of c "ord @ [i]"] snoc.prems by (simp add: cache_inv_def linked_def)
  show ?case
  proof (cases "max_chunks c < length (ord @ [i])")
    case False
    then show ?thesis
      using snoc.prems len by (subst evict_loop.simps) (auto simp: cache_rep_def entries_def)
  next
    case True
    from evict_least_recent_ok [OF snoc.prems] obtain d where
      d: "evict_least_recent c = Some d" "cache_inv d ord" "entries d ord = entries c ord"
        "max_chunks d = max_chunks c" by blast
    have "take (max_chunks c) (entries c (ord @ [i])) = take (max_chunks c) (entries c ord)"
      using True by (simp add: entries_def)
    then show ?thesis
      using snoc.IH [OF d(2)] d True len by (subst evict_loop.simps) simp
  qed
qed

lemma set_value_ok:
  assumes "cache_inv c ord" "content c i = Some (k, u)"
  shows "\<exists>d. upd_slot c i (\<lambda>s. s\<lparr>sl_value := v\<rparr>) = Some d \<and> cache_inv d ord \<and>
    content d = (content c)(i \<mapsto> (k, v)) \<and> index d = index c \<and> max_chunks d = max_chunks c"
proof -
  from content_slot [OF assms(2)] obtain s where
    s: "slot_at (slots c) i = Some s" "sl_key s = k" by blast
  let ?d = "c\<lparr>slots := (slots c)[i := Some (s\<lparr>sl_value := v\<rparr>)]\<rparr>"
  have lt: "i < length (slots c)" using s(1) by (rule slot_at_Some_lt)
  have cont: "content ?d = (content c)(i \<mapsto> (k, v))"
    using lt s by (auto simp: content_def slot_at_update fun_eq_iff)
  have "linked ?d ord" using assms(1) s(1) by (auto simp: cache_inv_def linked_def seg_set_value)
  moreover have "data_ok ?d (set ord)"
  proof -
    have "(\<exists>w. content ?d j = Some (k', w)) \<longleftrightarrow> (\<exists>w. content c j = Some (k', w))"
      "content ?d j = None \<longleftrightarrow> content c j = None" for j k'
      using assms(2) by (auto simp: cont)
    then show ?thesis using assms(1) by (simp add: data_ok_def cache_inv_def)
  qed
  ultimately show ?thesis using s(1) cont by (simp add: upd_slot_def cache_inv_def)
qed

lemma seg_push:
  "seg ss p is n \<Longrightarrow> seg (ss @ [x]) p is n"
  by (induction "is" arbitrary: p) (auto simp: slot_at_def nth_append split: option.splits if_splits)

lemma alloc_slot_ok:
  assumes "cache_inv c ord"
  shows "\<exists>i d. alloc_slot c k v = Some (i, d) \<and> linked d ord \<and> i \<notin> set ord \<and>
    content d = (content c)(i \<mapsto> (k, v)) \<and> index d = index c \<and> max_chunks d = max_chunks c \<and>
    distinct (free_slots d) \<and> length (slots c) \<le> length (slots d) \<and> i < length (slots d) \<and>
    set (free_slots d) = set (free_slots c) - {i} \<and>
    (\<forall>j < length (slots d). j < length (slots c) \<or> j = i)"
proof -
  have l: "linked c ord" and data: "data_ok c (set ord)" using assms by (auto simp: cache_inv_def)
  show ?thesis
  proof (cases "free_slots c = []")
    case True
    have "content c (length (slots c)) = None" by (simp add: content_def slot_at_def)
    then have "length (slots c) \<notin> set ord" by (rule content_None [OF data])
    moreover have "content (c\<lparr>slots := slots c @ [Some s]\<rparr>) =
        (content c)(length (slots c) \<mapsto> (sl_key s, sl_value s))" for s
      by (auto simp: content_def slot_at_def nth_append fun_eq_iff)
    ultimately show ?thesis
      using True l by (auto simp: alloc_slot_def linked_def seg_push less_Suc_eq)
  next
    case False
    then have i: "last (free_slots c) \<in> set (free_slots c)" by simp
    then have lt: "last (free_slots c) < length (slots c)" using data by (auto simp: data_ok_def)
    then have "content c (last (free_slots c)) = None" using data i by (auto simp: data_ok_def)
    then have "last (free_slots c) \<notin> set ord" by (rule content_None [OF data])
    moreover have "content (c\<lparr>free_slots := f, slots := (slots c)[last (free_slots c) := Some s]\<rparr>) =
        (content c)(last (free_slots c) \<mapsto> (sl_key s, sl_value s))" for s f
      using lt by (auto simp: content_def slot_at_update fun_eq_iff)
    moreover have "distinct (butlast (free_slots c) @ [last (free_slots c)])"
      using False data by (simp add: data_ok_def)
    moreover from this have "set (butlast (free_slots c)) = set (free_slots c) - {last (free_slots c)}"
      using False by (metis Diff_insert_absorb append_butlast_last_id distinct_append empty_set
          insert_disjoint(2) list.simps(15) rotate1.simps(2) set_rotate1 Int_commute)
    ultimately show ?thesis using False l lt by (simp add: alloc_slot_def linked_def seg_frame Let_def distinct_butlast)
  qed
qed


lemma data_ok_add:
  assumes "data_ok c A" "map_of (index c) k = None" "i \<notin> A"
    "content d = (content c)(i \<mapsto> (k, v))" "index d = hm_insert k i (index c)"
    "distinct (free_slots d)" "length (slots c) \<le> length (slots d)" "i < length (slots d)"
    "set (free_slots d) = set (free_slots c) - {i}"
    "\<forall>j < length (slots d). j < length (slots c) \<or> j = i"
  shows "data_ok d (insert i A)"
proof -
  have ok: "hm_ok (index c)" using assms(1) by (simp add: data_ok_def)
  have free: "content c j = None \<longleftrightarrow> j \<in> set (free_slots c)" if "j < length (slots c)" for j
    using assms(1) that by (simp add: data_ok_def)
  have idx: "map_of (index c) k' = Some j \<longleftrightarrow> j \<in> A \<and> (\<exists>v. content c j = Some (k', v))" for k' j
    using assms(1) by (simp add: data_ok_def)
  have dom: "content c j \<noteq> None \<longleftrightarrow> j \<in> A" for j
    using assms(1) by (simp add: data_ok_def)
  show ?thesis
    unfolding data_ok_def
  proof (intro conjI allI ballI impI)
    show "hm_ok (index d)" using hm.ok_ins [OF ok, of k i] assms(5) by simp
    show "map_of (index d) k' = Some j \<longleftrightarrow> j \<in> insert i A \<and> (\<exists>v. content d j = Some (k', v))" for k' j
    proof (cases "k' = k")
      case True
      have "\<not> (j \<in> A \<and> (\<exists>w. content c j = Some (k, w)))" using idx [of k j] assms(2) by auto
      then show ?thesis using True by (auto simp: assms(4,5) update_conv')
    next
      case False
      then show ?thesis using idx [of k' j] assms(3) by (auto simp: assms(4,5) update_conv')
    qed
    show "content d j = None \<longleftrightarrow> j \<in> set (free_slots d)" if "j < length (slots d)" for j
      using that free [of j] assms(10) by (auto simp: assms(4,9))
    show "distinct (free_slots d)" by (rule assms(6))
    show "j < length (slots d)" if "j \<in> set (free_slots d)" for j
      using that assms(1,7) by (auto simp: assms(9) data_ok_def)
    show "content d j \<noteq> None \<longleftrightarrow> j \<in> insert i A" for j
      using dom [of j] assms(2) by (simp add: assms(4))
  qed
qed

lemma insert_new_ok:
  assumes "cache_inv c ord" "map_of (index c) k = None"
  shows "\<exists>i c1 d. alloc_slot c k v = Some (i, c1) \<and>
    push_front (c1\<lparr>index := hm_insert k i (index c1)\<rparr>) i = Some d \<and> cache_inv d (i # ord) \<and>
    entries d (i # ord) = (k, v) # entries c ord \<and> max_chunks d = max_chunks c"
proof -
  from alloc_slot_ok [OF assms(1), of k v] obtain i c1 where
    c1: "alloc_slot c k v = Some (i, c1)" "linked c1 ord" "i \<notin> set ord"
      "content c1 = (content c)(i \<mapsto> (k, v))" "index c1 = index c" "max_chunks c1 = max_chunks c"
      "distinct (free_slots c1)" "length (slots c) \<le> length (slots c1)" "i < length (slots c1)"
      "set (free_slots c1) = set (free_slots c) - {i}"
      "\<forall>j < length (slots c1). j < length (slots c) \<or> j = i"
    by blast
  let ?c2 = "c1\<lparr>index := hm_insert k i (index c1)\<rparr>"
  have data: "data_ok c (set ord)" using assms(1) by (simp add: cache_inv_def)
  have d2: "data_ok ?c2 (insert i (set ord))"
    by (rule data_ok_add [OF data assms(2) c1(3)]) (use c1 in simp_all)
  have "content ?c2 i = Some (k, v)" by (simp add: c1(4))
  then obtain s where s: "slot_at (slots ?c2) i = Some s" by (blast dest: content_slot)
  have "linked ?c2 ord" using c1(2) by (simp add: linked_def)
  from push_front_ok [OF this c1(3) s] obtain d where
    d: "push_front ?c2 i = Some d" "linked d (i # ord)" "same_data ?c2 d" by blast
  have "cache_inv d (i # ord)" using d(2) data_ok_same [OF d(3) d2] by (simp add: cache_inv_def)
  moreover have "content d = (content c)(i \<mapsto> (k, v))" using d(3) by (simp add: same_data_def c1(4))
  then have "entries d (i # ord) = (k, v) # entries c ord"
    using c1(3) by (auto simp: entries_def)
  moreover have "max_chunks d = max_chunks c" using d(3) c1(6) by (simp add: same_data_def)
  ultimately show ?thesis using c1(1) d(1) by blast
qed

lemma cache_insert_refines:
  assumes "cache_rep c xs"
  shows "\<exists>d. cache_insert c k v = Some (v, d) \<and> cache_rep d (lru_insert (max_chunks c) k v xs) \<and>
    max_chunks d = max_chunks c"
proof -
  from assms obtain ord where inv: "cache_inv c ord" and xs: "xs = entries c ord"
    and len: "length xs \<le> max_chunks c" by (auto simp: cache_rep_def)
  from inv have data: "data_ok c (set ord)" by (simp add: cache_inv_def)
  show ?thesis
  proof (cases "map_of (index c) k")
    case None
    then have "map_of xs k = None" using entries_keys [OF data, of k] xs by simp
    then have del: "AList.delete k xs = xs" by (simp add: map_of_eq_None_iff)
    from insert_new_ok [OF inv None, of v] obtain i c1 d where
      d: "alloc_slot c k v = Some (i, c1)"
        "push_front (c1\<lparr>index := hm_insert k i (index c1)\<rparr>) i = Some d" "cache_inv d (i # ord)"
        "entries d (i # ord) = (k, v) # entries c ord" "max_chunks d = max_chunks c" by blast
    from evict_loop_ok [OF d(3)] show ?thesis
      using None d xs del by (auto simp: cache_insert_def lru_insert_def)
  next
    case (Some i)
    then obtain as bs u where ord: "ord = as @ i # bs" and cont: "content c i = Some (k, u)"
      and del: "AList.delete k xs = entries c (as @ bs)"
      unfolding xs by (rule indexed_split [OF inv])
    from set_value_ok [OF inv cont, of v] obtain c1 where
      c1: "upd_slot c i (\<lambda>s. s\<lparr>sl_value := v\<rparr>) = Some c1" "cache_inv c1 (as @ i # bs)"
        "content c1 = (content c)(i \<mapsto> (k, v))" "max_chunks c1 = max_chunks c" using ord by blast
    from move_to_front_ok [OF c1(2)] obtain d where
      d: "move_to_front c1 i = Some d" "cache_inv d (i # as @ bs)" "same_data c1 d" by blast
    have "i \<notin> set (as @ bs)" using inv ord by (auto simp: cache_inv_def linked_def)
    then have ent: "entries d (i # as @ bs) = (k, v) # AList.delete k xs"
      unfolding del entries_same [OF d(3)] by (auto simp: entries_def c1(3))
    have "length ((k, v) # AList.delete k xs) \<le> max_chunks c"
      using len del xs ord by (simp add: entries_def)
    then have "cache_rep d (lru_insert (max_chunks c) k v xs)"
      using d(2,3) c1(4) ent
      by (auto simp: cache_rep_def lru_insert_def same_data_def intro!: exI [of _ "i # as @ bs"])
    then show ?thesis using Some c1 d by (simp add: cache_insert_def same_data_def)
  qed
qed


section \<open>Runs of the cache\<close>

datatype ('k, 'v) cache_op = Get 'k | Insert 'k 'v | Remove 'k

fun cache_step ::
  "('k, 'v) range_chunk_cache \<Rightarrow> ('k, 'v) cache_op \<Rightarrow> ('k, 'v) range_chunk_cache option" where
  "cache_step c (Get k) = map_option snd (cache_get c k)"
| "cache_step c (Insert k v) = map_option snd (cache_insert c k v)"
| "cache_step c (Remove k) = map_option snd (cache_remove c k)"

fun lru_step :: "nat \<Rightarrow> ('k \<times> 'v) list \<Rightarrow> ('k, 'v) cache_op \<Rightarrow> ('k \<times> 'v) list" where
  "lru_step m xs (Get k) = lru_touch k xs"
| "lru_step m xs (Insert k v) = lru_insert m k v xs"
| "lru_step m xs (Remove k) = AList.delete k xs"

definition cache_repm where
  "cache_repm m c xs \<longleftrightarrow> cache_rep c xs \<and> max_chunks c = m"

interpretation lru: simulation "cache_repm m" cache_step "lru_step m" for m
proof
  fix c :: "('a, 'b) range_chunk_cache" and xs x
  assume "cache_repm m c xs"
  then show "\<exists>d. cache_step c x = Some d \<and> cache_repm m d (lru_step m xs x)"
    using cache_get_refines [of c xs] cache_insert_refines [of c xs] cache_remove_refines [of c xs]
    by (cases x) (fastforce simp: cache_repm_def)+
qed

lemma new_cache_rep: "cache_repm m (new_cache m) []"
proof -
  have "cache_inv (new_cache m) []"
    by (auto simp: cache_inv_def linked_def data_ok_def new_cache_def content_def slot_at_def hm_ok_def)
  then show ?thesis
    by (auto simp: cache_repm_def cache_rep_def entries_def new_cache_def intro!: exI [of _ "[]"])
qed

lemma cache_rep_len: "cache_rep c xs \<Longrightarrow> cache_len c = length xs \<and> length xs \<le> max_chunks c"
  by (auto simp: cache_rep_def cache_inv_def linked_def cache_len_def entries_def dest: index_length)

lemma cache_rep_distinct:
  assumes "cache_rep c xs"
  shows "distinct (map fst xs)"
proof -
  from assms obtain ord where inv: "cache_inv c ord" and xs: "xs = entries c ord"
    by (auto simp: cache_rep_def)
  have data: "data_ok c (set ord)" and dist: "distinct ord"
    using inv by (auto simp: cache_inv_def linked_def)
  have "inj_on (\<lambda>i. fst (the (content c i))) (set ord)"
  proof (rule inj_onI)
    fix i j assume ij: "i \<in> set ord" "j \<in> set ord" "fst (the (content c i)) = fst (the (content c j))"
    obtain k v l w where kl: "content c i = Some (k, v)" "content c j = Some (l, w)"
      using data ij(1,2) unfolding data_ok_def by (metis not_None_eq surj_pair)
    then show "i = j"
      using ij(3) content_index [OF data kl(1)] content_index [OF data kl(2)] by simp
  qed
  then show ?thesis using dist by (simp add: xs entries_def distinct_map comp_def)
qed

subsection \<open>What the least-recently-used policy keeps\<close>

fun op_key :: "('k, 'v) cache_op \<Rightarrow> 'k" where
  "op_key (Get k) = k" | "op_key (Insert k v) = k" | "op_key (Remove k) = k"

definition keeps :: "'k \<Rightarrow> 'v \<Rightarrow> 'k set \<Rightarrow> ('k \<times> 'v) list \<Rightarrow> bool" where
  "keeps k v T xs \<longleftrightarrow> distinct (map fst xs) \<and>
     (\<exists>ys zs. xs = ys @ (k, v) # zs \<and> fst ` set ys \<subseteq> T)"

lemma delete_append: "AList.delete a (xs @ ys) = AList.delete a xs @ AList.delete a ys"
  by (simp add: AList.delete_eq)

lemma keeps_map_of: "keeps k v T xs \<Longrightarrow> map_of xs k = Some v"
  by (auto simp: keeps_def map_of_is_SomeI)

lemma keeps_mono: "keeps k v T xs \<Longrightarrow> T \<subseteq> U \<Longrightarrow> keeps k v U xs"
  unfolding keeps_def by blast

lemma keeps_delete:
  assumes "keeps k v T xs" "a \<noteq> k"
  shows "keeps k v T (AList.delete a xs)"
proof -
  from assms(1) obtain ys zs where xs: "xs = ys @ (k, v) # zs" "fst ` set ys \<subseteq> T"
    and dist: "distinct (map fst xs)" by (auto simp: keeps_def)
  have "AList.delete a xs = AList.delete a ys @ (k, v) # AList.delete a zs"
    using assms(2) by (simp add: xs(1) delete_append)
  moreover have "fst ` set (AList.delete a ys) \<subseteq> T"
    using xs(2) by (auto simp: AList.delete_eq)
  ultimately show ?thesis using distinct_delete [OF dist, of a] unfolding keeps_def by blast
qed

lemma keeps_cons:
  assumes "keeps k v T xs" "a \<notin> fst ` set xs"
  shows "keeps k v (insert a T) ((a, w) # xs)"
proof -
  from assms(1) obtain ys zs where xs: "xs = ys @ (k, v) # zs" "fst ` set ys \<subseteq> T"
    by (auto simp: keeps_def)
  then have "(a, w) # xs = ((a, w) # ys) @ (k, v) # zs" "fst ` set ((a, w) # ys) \<subseteq> insert a T" by auto
  moreover have "distinct (map fst ((a, w) # xs))" using assms by (auto simp: keeps_def)
  ultimately show ?thesis unfolding keeps_def by blast
qed

lemma keeps_take:
  assumes "keeps k v T xs" "finite T" "card T < m"
  shows "keeps k v T (take m xs)"
proof -
  from assms(1) obtain ys zs where xs: "xs = ys @ (k, v) # zs" "fst ` set ys \<subseteq> T"
    and dist: "distinct (map fst xs)" by (auto simp: keeps_def)
  have "length ys = card (fst ` set ys)"
    using dist distinct_card [of "map fst ys"] by (simp add: xs(1))
  also have "\<dots> \<le> card T" using assms(2) xs(2) by (rule card_mono)
  finally have "take m xs = ys @ (k, v) # take (m - length ys - 1) zs"
    using assms(3) by (simp add: xs(1) take_Cons')
  moreover have "distinct (map fst (take m xs))" using dist by (metis distinct_take take_map)
  ultimately show ?thesis using xs(2) unfolding keeps_def by blast
qed

lemma keeps_step:
  assumes "keeps k v T xs" "finite T" "card (insert (op_key x) T) < m"
    "\<And>w. x \<noteq> Insert k w" "x \<noteq> Remove k" "op_key x \<noteq> k"
  shows "keeps k v (insert (op_key x) T) (lru_step m xs x)"
proof -
  let ?a = "op_key x"
  have del: "keeps k v T (AList.delete ?a xs)" using assms(1,6) by (rule keeps_delete)
  have "?a \<notin> fst ` set (AList.delete ?a xs)" by (auto simp: AList.delete_eq)
  from keeps_cons [OF del this]
  have cons: "keeps k v (insert ?a T) ((?a, w) # AList.delete ?a xs)" for w .
  from keeps_take [OF this] assms(2,3)
  have "keeps k v (insert ?a T) (take m ((?a, w) # AList.delete ?a xs))" for w by simp
  then show ?thesis
    using cons keeps_mono [OF assms(1) subset_insertI] keeps_mono [OF del subset_insertI]
    by (cases x) (auto simp: lru_touch_def lru_insert_def split: option.splits)
qed

lemma keeps_get_self: "keeps k v T xs \<Longrightarrow> keeps k v U (lru_touch k xs)"
proof -
  assume xs: "keeps k v T xs"
  then have "lru_touch k xs = [] @ (k, v) # AList.delete k xs"
    using keeps_map_of [OF xs] by (simp add: lru_touch_def)
  moreover have "distinct (map fst (lru_touch k xs))"
    using xs distinct_delete [of xs k] keeps_map_of [OF xs]
    by (auto simp: keeps_def lru_touch_def AList.delete_eq)
  moreover have "fst ` set [] \<subseteq> U" by simp
  ultimately show ?thesis unfolding keeps_def by blast
qed

lemma keeps_run:
  assumes "keeps k v T xs" "finite T" "\<And>w. Insert k w \<notin> set ops" "Remove k \<notin> set ops"
    "card (T \<union> (op_key ` set ops - {k})) < m"
  shows "keeps k v (T \<union> (op_key ` set ops - {k})) (foldl (lru_step m) xs ops)"
  using assms
proof (induction ops arbitrary: T xs)
  case (Cons x ops)
  let ?a = "op_key x"
  have fin: "finite (T \<union> (op_key ` set (x # ops) - {k}))" using Cons.prems(2) by simp
  show ?case
  proof (cases "?a = k")
    case True
    then have x: "x = Get k" using Cons.prems(3,4) by (cases x) auto
    have "keeps k v T (lru_step m xs x)" using keeps_get_self [OF Cons.prems(1)] x by simp
    from Cons.IH [OF this] Cons.prems show ?thesis by (simp add: x insert_Diff_if)
  next
    case False
    have sub: "insert ?a T \<union> (op_key ` set ops - {k}) = T \<union> (op_key ` set (x # ops) - {k})"
      using False by auto
    have "card (insert ?a T) \<le> card (T \<union> (op_key ` set (x # ops) - {k}))"
      using fin by (rule card_mono) (use False in auto)
    then have "card (insert ?a T) < m" using Cons.prems(5) by simp
    from keeps_step [OF Cons.prems(1,2) this] have
      "keeps k v (insert ?a T) (lru_step m xs x)" using False Cons.prems(3,4) by fastforce
    from Cons.IH [OF this] Cons.prems show ?thesis unfolding sub by simp
  qed
qed simp

lemma keeps_insert:
  assumes "distinct (map fst xs)" "0 < m"
  shows "keeps k v {} (lru_insert m k v xs)"
proof -
  have "keeps k v {} ((k, v) # AList.delete k xs)"
    using distinct_delete [OF assms(1), of k] by (auto simp: keeps_def AList.delete_eq)
  from keeps_take [OF this] assms(2) show ?thesis by (simp add: lru_insert_def)
qed


section \<open>Properties\<close>

text \<open>C30: Whatever sequence of \<open>get\<close>, \<open>insert\<close> and \<open>remove\<close> calls a new cache receives, no call
  panics (no \<open>unwrap\<close> of an empty slot, no index out of range), the eviction loop of every
  \<open>insert\<close> terminates, the cache never holds more than \<open>max_chunks\<close> entries, and the next
  \<open>get\<close> answers exactly what the abstract least-recently-used list answers.\<close>

theorem cache_run_refines_lru:
  "\<exists>c. run_ops cache_step (new_cache m) ops = Some c \<and> cache_len c \<le> m \<and>
     (\<forall>k. map_option fst (cache_get c k) = Some (map_of (foldl (lru_step m) [] ops) k))"
proof -
  from lru.run_sim [OF new_cache_rep, where xs = ops] obtain c where
    c: "run_ops cache_step (new_cache m) ops = Some c" "cache_repm m c (foldl (lru_step m) [] ops)"
    by blast
  then have rep: "cache_rep c (foldl (lru_step m) [] ops)" "max_chunks c = m"
    by (auto simp: cache_repm_def)
  have "map_option fst (cache_get c k) = Some (map_of (foldl (lru_step m) [] ops) k)" for k
    using cache_get_refines [OF rep(1), of k] by auto
  then show ?thesis using c(1) cache_rep_len [OF rep(1)] rep(2) by auto
qed

text \<open>C31: A cached chunk survives as long as fewer than \<open>max_chunks\<close> distinct other keys are used
  after its insertion: from any state the cache can be in, inserting \<open>k\<close> and then running any
  operations that neither overwrite nor remove \<open>k\<close> and that use fewer than \<open>max_chunks\<close> other
  keys leaves a cache whose \<open>get\<close> still returns the inserted value.\<close>

theorem cache_keeps_recent:
  assumes "run_ops cache_step (new_cache m) ops0 = Some c0"
    and "\<forall>x \<in> set ops. (\<forall>w. x \<noteq> Insert k w) \<and> x \<noteq> Remove k"
    and "card (op_key ` set ops - {k}) < m"
  shows "\<exists>c. run_ops cache_step c0 (Insert k v # ops) = Some c \<and>
    map_option fst (cache_get c k) = Some (Some v)"
proof -
  let ?xs = "foldl (lru_step m) [] ops0"
  have rep0: "cache_repm m c0 ?xs" using lru.run_rep [OF new_cache_rep assms(1)] .
  from lru.run_sim [OF this, where xs = "Insert k v # ops"] obtain c where
    c: "run_ops cache_step c0 (Insert k v # ops) = Some c"
      "cache_rep c (foldl (lru_step m) (lru_insert m k v ?xs) ops)"
    by (auto simp: cache_repm_def)
  have dist: "distinct (map fst ?xs)" using rep0 cache_rep_distinct by (auto simp: cache_repm_def)
  have "keeps k v ({} \<union> (op_key ` set ops - {k})) (foldl (lru_step m) (lru_insert m k v ?xs) ops)"
    by (rule keeps_run [OF keeps_insert [OF dist]]) (use assms(2,3) in auto)
  from keeps_map_of [OF this] cache_get_refines [OF c(2), of k] c(1) show ?thesis by auto
qed

theorem cache_keeps_recent_witness:
  "\<exists>c0 c. run_ops cache_step (new_cache 2) [Insert ''a'' (1::nat), Insert ''b'' 2] = Some c0 \<and>
     run_ops cache_step c0 [Insert ''k'' 9, Get ''b'', Get ''k'', Insert ''b'' 5] = Some c \<and>
     map_option fst (cache_get c ''k'') = Some (Some 9)"
proof -
  obtain c0 where c0: "run_ops cache_step (new_cache 2) [Insert ''a'' (1::nat), Insert ''b'' 2] = Some c0"
    using lru.run_sim [OF new_cache_rep] by blast
  have "op_key ` set [Get ''b'', Get ''k'', Insert ''b'' (5::nat)] - {''k''} = {''b''}" by auto
  then have "card (op_key ` set [Get ''b'', Get ''k'', Insert ''b'' (5::nat)] - {''k''}) < 2" by simp
  from cache_keeps_recent [OF c0 _ this] c0 show ?thesis by auto
qed

end
