(* ===== verification/Rust_Strings.thy ===== *)
theory Rust_Strings
  imports BK_Prelude
begin

text \<open>
  The \<open>str\<close> methods the sources use, on UTF-8 byte lists.  Every pattern the code searches
  for is itself a whole number of characters, and no UTF-8 sequence occurs inside another, so
  matching bytes gives the same positions as matching characters.  \<open>trim\<close> removes the
  \<open>White_Space\<close> characters of Unicode, listed here by their encodings.
\<close>

section \<open>Trimming\<close>

definition white_space :: "string list" where
  "white_space =
     [[CHR 0x09], [CHR 0x0A], [CHR 0x0B], [CHR 0x0C], [CHR 0x0D], [CHR 0x20],
      [CHR 0xC2, CHR 0x85], [CHR 0xC2, CHR 0xA0], [CHR 0xE1, CHR 0x9A, CHR 0x80],
      [CHR 0xE2, CHR 0x80, CHR 0x80], [CHR 0xE2, CHR 0x80, CHR 0x81],
      [CHR 0xE2, CHR 0x80, CHR 0x82], [CHR 0xE2, CHR 0x80, CHR 0x83],
      [CHR 0xE2, CHR 0x80, CHR 0x84], [CHR 0xE2, CHR 0x80, CHR 0x85],
      [CHR 0xE2, CHR 0x80, CHR 0x86], [CHR 0xE2, CHR 0x80, CHR 0x87],
      [CHR 0xE2, CHR 0x80, CHR 0x88], [CHR 0xE2, CHR 0x80, CHR 0x89],
      [CHR 0xE2, CHR 0x80, CHR 0x8A], [CHR 0xE2, CHR 0x80, CHR 0xA8],
      [CHR 0xE2, CHR 0x80, CHR 0xA9], [CHR 0xE2, CHR 0x80, CHR 0xAF],
      [CHR 0xE2, CHR 0x81, CHR 0x9F], [CHR 0xE3, CHR 0x80, CHR 0x80]]"

function strip_seqs :: "string list \<Rightarrow> string \<Rightarrow> string" where
  "strip_seqs ws s =
     (case find (\<lambda>w. w \<noteq> [] \<and> prefix w s) ws of
        None \<Rightarrow> s
      | Some w \<Rightarrow> strip_seqs ws (drop (length w) s))"
  by pat_completeness auto
termination
  by (relation "measure (\<lambda>(ws, s). length s)")
    (auto dest!: find_SomeD dest: prefix_length_le simp: prefix_def)

declare strip_seqs.simps [simp del]

definition trim_start :: "string \<Rightarrow> string" where
  "trim_start s = strip_seqs white_space s"

definition trim_end :: "string \<Rightarrow> string" where
  "trim_end s = rev (strip_seqs (map rev white_space) (rev s))"

definition trim :: "string \<Rightarrow> string" where
  "trim s = trim_end (trim_start s)"

abbreviation is_blank :: "string \<Rightarrow> bool" where
  "is_blank s \<equiv> trim s = []"

definition unstripped :: "string list \<Rightarrow> string \<Rightarrow> bool" where
  "unstripped ws s \<longleftrightarrow> (\<forall>w \<in> set ws. w \<noteq> [] \<longrightarrow> \<not> prefix w s)"

lemma unstripped_find: "unstripped ws s \<longleftrightarrow> find (\<lambda>w. w \<noteq> [] \<and> prefix w s) ws = None"
  by (auto simp: unstripped_def find_None_iff)

lemma strip_seqs_id: "unstripped ws s \<Longrightarrow> strip_seqs ws s = s"
  by (subst strip_seqs.simps) (simp add: unstripped_find)

lemma strip_seqs_unstripped: "unstripped ws (strip_seqs ws s)"
proof (induction ws s rule: strip_seqs.induct)
  case (1 ws s)
  then show ?case
    by (cases "find (\<lambda>w. w \<noteq> [] \<and> prefix w s) ws")
      (simp_all add: strip_seqs.simps [of ws s] unstripped_find)
qed

lemma strip_seqs_idem: "strip_seqs ws (strip_seqs ws s) = strip_seqs ws s"
  by (rule strip_seqs_id) (rule strip_seqs_unstripped)

lemma strip_seqs_suffix: "suffix (strip_seqs ws s) s"
proof (induction ws s rule: strip_seqs.induct)
  case (1 ws s)
  show ?case
  proof (cases "find (\<lambda>w. w \<noteq> [] \<and> prefix w s) ws")
    case None
    then show ?thesis by (simp add: strip_seqs.simps [of ws s])
  next
    case (Some w)
    with "1.IH" have "suffix (strip_seqs ws (drop (length w) s)) (drop (length w) s)" by simp
    then show ?thesis
      using Some suffix_drop suffix_order.trans by (fastforce simp: strip_seqs.simps [of ws s])
  qed
qed

lemma unstripped_prefix: "unstripped ws t \<Longrightarrow> prefix s t \<Longrightarrow> unstripped ws s"
  by (auto simp: unstripped_def dest: prefix_order.trans)

lemma trim_end_prefix: "prefix (trim_end s) s"
  using strip_seqs_suffix [of "map rev white_space" "rev s"]
  by (simp add: trim_end_def suffix_to_prefix)

lemma trim_idem [simp]: "trim (trim s) = trim s"
proof -
  let ?t = "trim_start s"
  have "unstripped white_space ?t" by (simp add: trim_start_def strip_seqs_unstripped)
  then have "unstripped white_space (trim_end ?t)" by (rule unstripped_prefix) (rule trim_end_prefix)
  then have "trim_start (trim_end ?t) = trim_end ?t" by (simp add: trim_start_def strip_seqs_id)
  moreover have "trim_end (trim_end ?t) = trim_end ?t" by (simp add: trim_end_def strip_seqs_idem)
  ultimately show ?thesis by (simp add: trim_def)
qed

lemma length_trim_le: "length (trim s) \<le> length s"
proof -
  have "length (trim s) \<le> length (trim_start s)"
    unfolding trim_def by (rule prefix_length_le) (rule trim_end_prefix)
  also have "\<dots> \<le> length s"
    unfolding trim_start_def by (rule suffix_length_le) (rule strip_seqs_suffix)
  finally show ?thesis .
qed

lemma trim_Nil [simp]: "trim [] = []"
  using length_trim_le [of "[]"] by simp

lemma set_trim_subset: "set (trim s) \<subseteq> set s"
  using set_mono_prefix [OF trim_end_prefix [of "trim_start s"]]
    set_mono_suffix [OF strip_seqs_suffix [of white_space s]]
  by (auto simp: trim_def trim_start_def)

text \<open>A string whose first and last bytes are neither ASCII white space nor part of a longer
  sequence is left alone.\<close>

lemma strip_seqs_keeps:
  "c \<in> set s \<Longrightarrow> \<forall>w \<in> set ws. c \<notin> set w \<Longrightarrow> c \<in> set (strip_seqs ws s)"
proof (induction ws s rule: strip_seqs.induct)
  case (1 ws s)
  show ?case
  proof (cases "find (\<lambda>w. w \<noteq> [] \<and> prefix w s) ws")
    case None
    then show ?thesis using "1.prems" by (subst strip_seqs.simps) simp
  next
    case (Some w)
    then have w: "w \<in> set ws" "prefix w s" using find_SomeD [OF Some] by auto
    then obtain t where t: "s = w @ t" by (auto simp: prefix_def)
    with "1.prems" w have "c \<in> set t" by auto
    then show ?thesis using "1.IH" [OF Some] "1.prems"(2) Some t by (subst strip_seqs.simps) simp
  qed
qed

lemma trim_keeps:
  assumes "c \<in> set s" "\<forall>w \<in> set white_space. c \<notin> set w"
  shows "c \<in> set (trim s)"
  using strip_seqs_keeps [of c "rev (strip_seqs white_space s)" "map rev white_space"]
    strip_seqs_keeps [of c s white_space] assms
  by (simp add: trim_def trim_start_def trim_end_def)

definition ws_firsts :: "char list" where
  "ws_firsts = map hd white_space"

definition ws_lasts :: "char list" where
  "ws_lasts = map last white_space"

lemma white_space_nonempty: "w \<in> set white_space \<Longrightarrow> w \<noteq> []"
  by (auto simp: white_space_def)

lemma trim_id:
  assumes "s \<noteq> []" "hd s \<notin> set ws_firsts" "last s \<notin> set ws_lasts"
  shows "trim s = s"
proof -
  have "unstripped white_space s"
    using assms(1,2) by (auto simp: unstripped_def ws_firsts_def prefix_def hd_append)
  moreover have "unstripped (map rev white_space) (rev s)"
  proof -
    have "\<not> prefix (rev w) (rev s)" if w: "w \<in> set white_space" for w
    proof
      assume "prefix (rev w) (rev s)"
      then have "suffix w s" by (simp add: suffix_to_prefix)
      then have "last s = last w" using white_space_nonempty [OF w] by (auto simp: suffix_def)
      with w assms(3) show False by (auto simp: ws_lasts_def)
    qed
    then show ?thesis by (auto simp: unstripped_def)
  qed
  ultimately show ?thesis by (simp add: trim_def trim_start_def trim_end_def strip_seqs_id)
qed

section \<open>Prefixes, splitting and joining\<close>

definition starts_with :: "string \<Rightarrow> string \<Rightarrow> bool" where
  "starts_with s p = prefix p s"

definition ends_with :: "string \<Rightarrow> string \<Rightarrow> bool" where
  "ends_with s p = suffix p s"

definition strip_prefix :: "string \<Rightarrow> string \<Rightarrow> string option" where
  "strip_prefix s p = (if prefix p s then Some (drop (length p) s) else None)"

definition strip_suffix :: "string \<Rightarrow> string \<Rightarrow> string option" where
  "strip_suffix s p = (if suffix p s then Some (take (length s - length p) s) else None)"

lemma strip_prefix_Some: "strip_prefix s p = Some r \<longleftrightarrow> s = p @ r"
  by (auto simp: strip_prefix_def prefix_def)

lemma strip_prefix_append [simp]: "strip_prefix (p @ r) p = Some r"
  by (simp add: strip_prefix_Some)

definition trim_start_matches :: "char \<Rightarrow> string \<Rightarrow> string" where
  "trim_start_matches c s = dropWhile (\<lambda>x. x = c) s"

definition trim_end_matches :: "char \<Rightarrow> string \<Rightarrow> string" where
  "trim_end_matches c s = rev (dropWhile (\<lambda>x. x = c) (rev s))"

definition trim_matches :: "char \<Rightarrow> string \<Rightarrow> string" where
  "trim_matches c s = trim_end_matches c (trim_start_matches c s)"

definition replace_char :: "char \<Rightarrow> char \<Rightarrow> string \<Rightarrow> string" where
  "replace_char a b s = map (\<lambda>x. if x = a then b else x) s"

fun split_char :: "char \<Rightarrow> string \<Rightarrow> string list" where
  "split_char c [] = [[]]"
| "split_char c (x # xs) =
     (if x = c then [] # split_char c xs
      else (case split_char c xs of [] \<Rightarrow> [[x]] | y # ys \<Rightarrow> (x # y) # ys))"

fun join :: "string \<Rightarrow> string list \<Rightarrow> string" where
  "join sep [] = []"
| "join sep [x] = x"
| "join sep (x # y # ys) = x @ sep @ join sep (y # ys)"

text \<open>\<open>split_once\<close> cuts at the first occurrence of the pattern.\<close>

fun split_once :: "string \<Rightarrow> string \<Rightarrow> (string \<times> string) option" where
  "split_once p [] = (if p = [] then Some ([], []) else None)"
| "split_once p (x # xs) =
     (if prefix p (x # xs) then Some ([], drop (length p) (x # xs))
      else map_option (\<lambda>(a, b). (x # a, b)) (split_once p xs))"

definition str_contains :: "string \<Rightarrow> string \<Rightarrow> bool" where
  "str_contains s p = (split_once p s \<noteq> None)"

lemma split_char_nonempty [simp]: "split_char c s \<noteq> []"
  by (induction s) (auto split: list.splits)

lemma split_char_free: "seg \<in> set (split_char c s) \<Longrightarrow> c \<notin> set seg"
  by (induction s arbitrary: seg) (auto split: if_splits list.splits)

lemma split_char_notin: "c \<notin> set s \<Longrightarrow> split_char c s = [s]"
  by (induction s) auto

lemma split_char_append:
  "c \<notin> set a \<Longrightarrow> split_char c (a @ c # b) = a # split_char c b"
  by (induction a) auto

lemma join_split_char: "join [c] (split_char c s) = s"
proof (induction s)
  case Nil
  then show ?case by simp
next
  case (Cons x xs)
  obtain y ys where y: "split_char c xs = y # ys" by (cases "split_char c xs") auto
  then show ?case using Cons by (cases ys) auto
qed

lemma split_char_join:
  "segs \<noteq> [] \<Longrightarrow> \<forall>seg \<in> set segs. c \<notin> set seg \<Longrightarrow> split_char c (join [c] segs) = segs"
  by (induction "[c]" segs rule: join.induct) (auto simp: split_char_notin split_char_append)

lemma set_split_char_subset: "seg \<in> set (split_char c s) \<Longrightarrow> set seg \<subseteq> set s"
  by (induction s arbitrary: seg) (fastforce split: if_splits list.splits)+

lemma split_once_Some: "split_once p s = Some (a, b) \<Longrightarrow> s = a @ p @ b"
  by (induction p s arbitrary: a rule: split_once.induct)
    (auto split: if_splits simp: prefix_def)

lemma split_once_None: "split_once p s = None \<longleftrightarrow> \<not> sublist p s"
proof (induction p s rule: split_once.induct)
  case (1 p)
  then show ?case by simp
next
  case (2 p x xs)
  then show ?case by (simp add: sublist_Cons_right)
qed

lemma split_once_first:
  assumes "split_once p s = Some (a, b)" "p \<noteq> []" "s = a' @ p @ b'"
  shows "length a \<le> length a'"
  using assms
proof (induction p s arbitrary: a a' rule: split_once.induct)
  case (1 p)
  then show ?case by simp
next
  case (2 p x xs)
  show ?case
  proof (cases "prefix p (x # xs)")
    case True
    with "2.prems"(1) have "a = []" by simp
    then show ?thesis by simp
  next
    case False
    then obtain a1 where a1: "split_once p xs = Some (a1, b)" "a = x # a1"
      using "2.prems"(1) by auto
    from False "2.prems"(3) obtain y as where a': "a' = y # as" by (cases a') auto
    then have "xs = as @ p @ b'" using "2.prems"(3) by simp
    with "2.IH" False a1 "2.prems"(2) have "length a1 \<le> length as" by blast
    then show ?thesis using a1 a' by simp
  qed
qed


section \<open>\<open>str::parse\<close> at an unsigned integer type\<close>

definition digit_value :: "char \<Rightarrow> nat option" where
  "digit_value c =
     (let n = of_char c :: nat in if 48 \<le> n \<and> n \<le> 57 then Some (n - 48) else None)"

fun parse_digits :: "nat \<Rightarrow> nat \<Rightarrow> string \<Rightarrow> nat option" where
  "parse_digits limit acc [] = Some acc"
| "parse_digits limit acc (c # cs) =
     (case digit_value c of
        None \<Rightarrow> None
      | Some d \<Rightarrow> if 10 * acc + d \<le> limit then parse_digits limit (10 * acc + d) cs else None)"

text \<open>A leading plus sign is accepted, an empty digit string and overflow are errors.\<close>

definition parse_uint :: "nat \<Rightarrow> string \<Rightarrow> nat option" where
  "parse_uint limit s =
     (let ds = (case s of [] \<Rightarrow> [] | c # cs \<Rightarrow> if c = CHR ''+'' then cs else s)
      in if ds = [] then None else parse_digits limit 0 ds)"

lemma parse_digits_le: "parse_digits limit acc s = Some n \<Longrightarrow> acc \<le> limit \<Longrightarrow> n \<le> limit"
  by (induction limit acc s rule: parse_digits.induct) (auto split: option.splits if_splits)

lemma parse_uint_le: "parse_uint limit s = Some n \<Longrightarrow> n \<le> limit"
  unfolding parse_uint_def Let_def
  by (auto simp del: parse_digits.simps split: if_splits dest!: parse_digits_le)

end
