(* ===== verification/Content_Store.thy ===== *)
theory Content_Store
  imports Rust_Strings
begin

text \<open>
  The content-addressed part of the store (crates/server-node-sdk/src/storage/mod.rs): payloads cut
  into chunks, chunks and manifests written under their hash, and a payload reassembled from a
  manifest with every size and hash checked.  The hash function (\<open>blake3\<close>) and the JSON codec of a
  manifest (\<open>serde_json\<close>) are the fields of a \<open>content_env\<close> that every operation takes.  The
  pool of directories is one map per content kind; which directory holds a file is not modelled,
  and neither are I/O errors.
\<close>

type_synonym bytes = string

record chunk_ref =
  cr_hash :: string
  cr_size_bytes :: usize

record object_manifest =
  om_key :: string
  om_total_size_bytes :: usize
  om_chunks :: "chunk_ref list"

record content_env =
  ce_hash_hex :: "bytes \<Rightarrow> string"
  ce_to_json :: "object_manifest \<Rightarrow> bytes"
  ce_from_json :: "bytes \<Rightarrow> object_manifest option"

record content_store =
  cs_chunks :: "(string, bytes) hashmap"
  cs_manifests :: "(string, bytes) hashmap"

datatype store_read_error = NotFound | Corrupt | Internal

definition TOMBSTONE_MANIFEST_HASH :: string where
  "TOMBSTONE_MANIFEST_HASH = ''__tombstone__''"

definition CHUNK_SIZE :: nat where
  "CHUNK_SIZE = 1024 * 1024"

section \<open>Where content is written\<close>

definition is_ascii_hexdigit :: "char \<Rightarrow> bool" where
  "is_ascii_hexdigit c =
     (let n = of_char c :: nat in
      (48 \<le> n \<and> n \<le> 57) \<or> (65 \<le> n \<and> n \<le> 70) \<or> (97 \<le> n \<and> n \<le> 102))"

text \<open>\<open>chunk_path_for_hash\<close> succeeds exactly on these hashes.\<close>

definition chunk_hash_ok :: "string \<Rightarrow> bool" where
  "chunk_hash_ok h \<longleftrightarrow> length h = 64 \<and> list_all is_ascii_hexdigit h"

definition manifest_hash_looks_safe_filename :: "string \<Rightarrow> bool" where
  "manifest_hash_looks_safe_filename h \<longleftrightarrow> length h = 64 \<and> list_all is_ascii_hexdigit h"

text \<open>What \<open>persist_storage_content\<close> reports (\<open>stored\<close>, \<open>replaced_existing_path\<close>) and the new
  content of the directory: a file whose content has the wanted hash is kept, any other file is
  overwritten.\<close>

definition persist_storage_content ::
  "content_env \<Rightarrow> string \<Rightarrow> bytes \<Rightarrow> (string, bytes) hashmap
     \<Rightarrow> bool \<times> bool \<times> (string, bytes) hashmap" where
  "persist_storage_content env h payload files =
     (case map_of files h of
        Some existing \<Rightarrow>
          if ce_hash_hex env existing = h then (False, False, files)
          else (True, True, hm_insert h payload files)
      | None \<Rightarrow> (True, False, hm_insert h payload files))"

section \<open>Writing a payload\<close>

function chunks :: "nat \<Rightarrow> 'a list \<Rightarrow> 'a list list" where
  "chunks n xs = (if xs = [] \<or> n = 0 then [] else take n xs # chunks n (drop n xs))"
  by pat_completeness auto
termination
  by (relation "measure (\<lambda>(n, xs). length xs)") auto

declare chunks.simps [simp del]

record chunk_put =
  cp_refs :: "chunk_ref list"
  cp_new_chunks :: nat
  cp_dedup_reused_chunks :: nat
  cp_files :: "(string, bytes) hashmap"

definition put_chunk :: "content_env \<Rightarrow> bytes \<Rightarrow> chunk_put \<Rightarrow> chunk_put option" where
  "put_chunk env chunk acc =
     (let h = ce_hash_hex env chunk in
      if chunk_hash_ok h then
        (case persist_storage_content env h chunk (cp_files acc) of
           (stored, replaced, files) \<Rightarrow>
             Some \<lparr>cp_refs = cp_refs acc @ [\<lparr>cr_hash = h, cr_size_bytes = length chunk\<rparr>],
                   cp_new_chunks = cp_new_chunks acc + (if stored then 1 else 0),
                   cp_dedup_reused_chunks = cp_dedup_reused_chunks acc + (if stored then 0 else 1),
                   cp_files = files\<rparr>)
      else None)"

fun put_chunks :: "content_env \<Rightarrow> bytes list \<Rightarrow> chunk_put \<Rightarrow> chunk_put option" where
  "put_chunks env [] acc = Some acc"
| "put_chunks env (c # cs) acc =
     (case put_chunk env c acc of None \<Rightarrow> None | Some acc1 \<Rightarrow> put_chunks env cs acc1)"

definition persist_manifest ::
  "content_env \<Rightarrow> object_manifest \<Rightarrow> content_store \<Rightarrow> (string \<times> content_store) option" where
  "persist_manifest env m cs =
     (let payload = ce_to_json env m; h = ce_hash_hex env payload in
      if manifest_hash_looks_safe_filename h then
        (case persist_storage_content env h payload (cs_manifests cs) of
           (_, _, files) \<Rightarrow> Some (h, cs\<lparr>cs_manifests := files\<rparr>))
      else None)"

text \<open>The content part of \<open>put_object_versioned\<close>: the manifest hash, the chunk counters and the
  new content.\<close>

definition put_payload ::
  "content_env \<Rightarrow> string \<Rightarrow> bytes \<Rightarrow> content_store \<Rightarrow> (string \<times> nat \<times> nat \<times> content_store) option" where
  "put_payload env key payload cs =
     (case put_chunks env (chunks CHUNK_SIZE payload)
             \<lparr>cp_refs = [], cp_new_chunks = 0, cp_dedup_reused_chunks = 0, cp_files = cs_chunks cs\<rparr> of
        None \<Rightarrow> None
      | Some acc \<Rightarrow>
          (case persist_manifest env
                  \<lparr>om_key = key, om_total_size_bytes = length payload, om_chunks = cp_refs acc\<rparr>
                  (cs\<lparr>cs_chunks := cp_files acc\<rparr>) of
             None \<Rightarrow> None
           | Some (h, cs1) \<Rightarrow> Some (h, cp_new_chunks acc, cp_dedup_reused_chunks acc, cs1)))"

section \<open>Uploads assembled from chunks already stored\<close>

datatype chunk_integrity = Valid | Missing | SizeMismatch nat | HashMismatch string

definition validate_chunk_integrity ::
  "content_env \<Rightarrow> (string, bytes) hashmap \<Rightarrow> chunk_ref \<Rightarrow> chunk_integrity" where
  "validate_chunk_integrity env files c =
     (case map_of files (cr_hash c) of
        None \<Rightarrow> Missing
      | Some payload \<Rightarrow>
          if length payload \<noteq> cr_size_bytes c then SizeMismatch (length payload)
          else if ce_hash_hex env payload \<noteq> cr_hash c then HashMismatch (ce_hash_hex env payload)
          else Valid)"

datatype upload_error =
    ChunkSizeOverflow | TotalSizeMismatch | InvalidChunkHash | MissingChunk
  | ChunkSizeMismatch | ChunkHashMismatch | InvalidManifestHash

fun checked_total :: "chunk_ref list \<Rightarrow> nat \<Rightarrow> nat option" where
  "checked_total [] acc = Some acc"
| "checked_total (c # cs) acc =
     (if acc + cr_size_bytes c \<le> u64_max then checked_total cs (acc + cr_size_bytes c) else None)"

fun validate_upload_chunks ::
  "content_env \<Rightarrow> (string, bytes) hashmap \<Rightarrow> chunk_ref list \<Rightarrow> upload_error option" where
  "validate_upload_chunks env files [] = None"
| "validate_upload_chunks env files (c # cs) =
     (if \<not> chunk_hash_ok (cr_hash c) then Some InvalidChunkHash
      else (case validate_chunk_integrity env files c of
              Valid \<Rightarrow> validate_upload_chunks env files cs
            | Missing \<Rightarrow> Some MissingChunk
            | SizeMismatch _ \<Rightarrow> Some ChunkSizeMismatch
            | HashMismatch _ \<Rightarrow> Some ChunkHashMismatch))"

definition put_from_chunks ::
  "content_env \<Rightarrow> string \<Rightarrow> usize \<Rightarrow> chunk_ref list \<Rightarrow> content_store
     \<Rightarrow> upload_error + (string \<times> content_store)" where
  "put_from_chunks env key total_size refs cs =
     (case checked_total refs 0 of
        None \<Rightarrow> Inl ChunkSizeOverflow
      | Some n \<Rightarrow>
          if n \<noteq> total_size then Inl TotalSizeMismatch
          else (case validate_upload_chunks env (cs_chunks cs) refs of
                  Some e \<Rightarrow> Inl e
                | None \<Rightarrow>
                    (case persist_manifest env
                            \<lparr>om_key = key, om_total_size_bytes = total_size, om_chunks = refs\<rparr> cs of
                       None \<Rightarrow> Inl InvalidManifestHash
                     | Some r \<Rightarrow> Inr r)))"

section \<open>Reading\<close>

definition load_manifest_by_hash ::
  "content_env \<Rightarrow> content_store \<Rightarrow> string \<Rightarrow> unit + object_manifest option" where
  "load_manifest_by_hash env cs h =
     (if h = TOMBSTONE_MANIFEST_HASH then Inr None
      else if \<not> manifest_hash_looks_safe_filename h then Inl ()
      else (case map_of (cs_manifests cs) h of
              None \<Rightarrow> Inr None
            | Some payload \<Rightarrow>
                (case ce_from_json env payload of None \<Rightarrow> Inl () | Some m \<Rightarrow> Inr (Some m))))"

fun assemble ::
  "content_env \<Rightarrow> (string, bytes) hashmap \<Rightarrow> chunk_ref list \<Rightarrow> bytes \<Rightarrow> store_read_error + bytes" where
  "assemble env files [] acc = Inr acc"
| "assemble env files (c # cs) acc =
     (if \<not> chunk_hash_ok (cr_hash c) then Inl Internal
      else (case map_of files (cr_hash c) of
              None \<Rightarrow> Inl Corrupt
            | Some payload \<Rightarrow>
                if length payload \<noteq> cr_size_bytes c then Inl Corrupt
                else if ce_hash_hex env payload \<noteq> cr_hash c then Inl Corrupt
                else assemble env files cs (acc @ payload)))"

definition read_object_by_manifest_hash ::
  "content_env \<Rightarrow> content_store \<Rightarrow> string \<Rightarrow> store_read_error + bytes" where
  "read_object_by_manifest_hash env cs h =
     (case load_manifest_by_hash env cs h of
        Inl _ \<Rightarrow> Inl Internal
      | Inr None \<Rightarrow> Inl Corrupt
      | Inr (Some m) \<Rightarrow>
          (case assemble env (cs_chunks cs) (om_chunks m) [] of
             Inl e \<Rightarrow> Inl e
           | Inr data \<Rightarrow> if length data \<noteq> om_total_size_bytes m then Inl Corrupt else Inr data))"

definition clone_manifest_for_key ::
  "content_env \<Rightarrow> string \<Rightarrow> string \<Rightarrow> content_store \<Rightarrow> (string \<times> content_store) option" where
  "clone_manifest_for_key env h key cs =
     (case load_manifest_by_hash env cs h of
        Inr (Some m) \<Rightarrow> persist_manifest env (m\<lparr>om_key := key\<rparr>) cs
      | _ \<Rightarrow> None)"


section \<open>Content addressing\<close>

text \<open>What the code relies on: a hash is 64 hex digits, and decoding inverts encoding.\<close>

definition env_ok :: "content_env \<Rightarrow> bool" where
  "env_ok env \<longleftrightarrow> (\<forall>b. chunk_hash_ok (ce_hash_hex env b)) \<and>
     (\<forall>m. ce_from_json env (ce_to_json env m) = Some m)"

text \<open>No two of the given payloads collide.\<close>

definition collision_free :: "content_env \<Rightarrow> bytes set \<Rightarrow> bool" where
  "collision_free env A \<longleftrightarrow> inj_on (ce_hash_hex env) A"

text \<open>A file is intact when its content has the hash it is stored under.\<close>

definition intact :: "content_env \<Rightarrow> (string, bytes) hashmap \<Rightarrow> string \<Rightarrow> bytes \<Rightarrow> bool" where
  "intact env files h p \<longleftrightarrow> map_of files h = Some p \<and> ce_hash_hex env p = h"

abbreviation file_contents :: "(string, bytes) hashmap \<Rightarrow> bytes set" where
  "file_contents files \<equiv> snd ` set files"

lemma persist_keeps_intact:
  "persist_storage_content env h payload files = (stored, replaced, files') \<Longrightarrow>
   intact env files h' p \<Longrightarrow> intact env files' h' p"
  by (auto simp: persist_storage_content_def intact_def update_conv' split: option.splits if_splits)

lemma set_update_values: "file_contents (AList.update k v m) \<subseteq> insert v (file_contents m)"
  by (induction m) auto

lemma persist_content:
  assumes "persist_storage_content env h payload files = (stored, replaced, files')"
    "h = ce_hash_hex env payload" "collision_free env A" "file_contents files \<subseteq> A" "payload \<in> A"
  shows "intact env files' h payload" "file_contents files' \<subseteq> A"
proof -
  show "intact env files' h payload"
  proof (cases "map_of files h")
    case None
    then show ?thesis
      using assms(1,2) by (auto simp: persist_storage_content_def intact_def update_conv')
  next
    case (Some e)
    then have "e \<in> A" using assms(4) by (force dest: map_of_SomeD)
    then show ?thesis
      using Some assms(1,2,3,5)
      by (auto simp: persist_storage_content_def intact_def update_conv' collision_free_def
          split: if_splits dest: inj_onD)
  qed
  have "file_contents (hm_insert h payload files) \<subseteq> A"
    using assms(4,5) set_update_values [of h payload files] by blast
  then show "file_contents files' \<subseteq> A"
    using assms(1,4) by (simp add: persist_storage_content_def split: option.splits if_splits)
qed

definition ref_of :: "content_env \<Rightarrow> bytes \<Rightarrow> chunk_ref" where
  "ref_of env c = \<lparr>cr_hash = ce_hash_hex env c, cr_size_bytes = length c\<rparr>"

lemma put_chunks_correct:
  assumes "env_ok env" "collision_free env A"
  shows "file_contents (cp_files acc) \<subseteq> A \<Longrightarrow> set cs \<subseteq> A \<Longrightarrow>
    \<exists>acc'. put_chunks env cs acc = Some acc' \<and> cp_refs acc' = cp_refs acc @ map (ref_of env) cs \<and>
      cp_new_chunks acc' + cp_dedup_reused_chunks acc'
        = cp_new_chunks acc + cp_dedup_reused_chunks acc + length cs \<and>
      (\<forall>c \<in> set cs. intact env (cp_files acc') (ce_hash_hex env c) c) \<and>
      (\<forall>h p. intact env (cp_files acc) h p \<longrightarrow> intact env (cp_files acc') h p)"
proof (induction cs arbitrary: acc)
  case (Cons c cs)
  let ?h = "ce_hash_hex env c"
  obtain stored replaced files where
    p: "persist_storage_content env ?h c (cp_files acc) = (stored, replaced, files)"
    by (cases "persist_storage_content env ?h c (cp_files acc)") auto
  note f = persist_content [OF p refl assms(2) Cons.prems(1)]
  have "chunk_hash_ok ?h" using assms(1) by (simp add: env_ok_def)
  then obtain acc1 where acc1: "put_chunk env c acc = Some acc1" "cp_files acc1 = files"
      "cp_refs acc1 = cp_refs acc @ [ref_of env c]"
      "cp_new_chunks acc1 + cp_dedup_reused_chunks acc1 = Suc (cp_new_chunks acc + cp_dedup_reused_chunks acc)"
    using p by (auto simp: put_chunk_def ref_of_def)
  have "file_contents (cp_files acc1) \<subseteq> A" "set cs \<subseteq> A" using f(2) acc1(2) Cons.prems(2) by auto
  from Cons.IH [OF this] obtain acc' where acc': "put_chunks env cs acc1 = Some acc'"
      "cp_refs acc' = cp_refs acc1 @ map (ref_of env) cs"
      "cp_new_chunks acc' + cp_dedup_reused_chunks acc'
        = cp_new_chunks acc1 + cp_dedup_reused_chunks acc1 + length cs"
      "\<forall>c \<in> set cs. intact env (cp_files acc') (ce_hash_hex env c) c"
      "\<forall>h p. intact env files h p \<longrightarrow> intact env (cp_files acc') h p"
    using acc1(2) by auto
  have "intact env files ?h c" using f(1) Cons.prems(2) by simp
  then show ?case
    using acc1 acc' persist_keeps_intact [OF p] by (intro exI [of _ acc']) auto
qed simp

lemma concat_chunks: "0 < n \<Longrightarrow> concat (chunks n xs) = xs"
proof (induction n xs rule: chunks.induct)
  case (1 n xs)
  then show ?case by (subst chunks.simps) auto
qed

lemma assemble_intact:
  assumes "\<forall>b. chunk_hash_ok (ce_hash_hex env b)" "\<forall>c \<in> set cs. intact env files (ce_hash_hex env c) c"
  shows "assemble env files (map (ref_of env) cs) acc = Inr (acc @ concat cs)"
  using assms(2)
  by (induction cs arbitrary: acc) (auto simp: ref_of_def intact_def assms(1))

lemma assemble_sound:
  "assemble env files refs acc = Inr data \<Longrightarrow>
   \<exists>ps. data = acc @ concat ps \<and>
     list_all2 (\<lambda>c p. intact env files (cr_hash c) p \<and> length p = cr_size_bytes c) refs ps"
proof (induction env files refs acc rule: assemble.induct)
  case (2 env files c cs acc)
  from "2.prems" obtain p where p: "chunk_hash_ok (cr_hash c)" "map_of files (cr_hash c) = Some p"
      "length p = cr_size_bytes c" "ce_hash_hex env p = cr_hash c"
      "assemble env files cs (acc @ p) = Inr data"
    by (auto split: option.splits if_splits)
  then obtain ps where "data = (acc @ p) @ concat ps"
      "list_all2 (\<lambda>c p. intact env files (cr_hash c) p \<and> length p = cr_size_bytes c) cs ps"
    using "2.IH" by auto
  then show ?case using p by (intro exI [of _ "p # ps"]) (simp add: intact_def)
qed simp

lemma assemble_mono:
  "(\<And>h p. intact env files h p \<Longrightarrow> intact env files' h p) \<Longrightarrow>
   assemble env files refs acc = Inr data \<Longrightarrow> assemble env files' refs acc = Inr data"
proof (induction env files refs acc rule: assemble.induct)
  case (2 env files c cs acc)
  from "2.prems" obtain p where p: "chunk_hash_ok (cr_hash c)" "intact env files (cr_hash c) p"
      "length p = cr_size_bytes c" "assemble env files cs (acc @ p) = Inr data"
    by (auto simp: intact_def split: option.splits if_splits)
  then have "assemble env files' cs (acc @ p) = Inr data"
    using "2.IH" "2.prems"(1) by (auto simp: intact_def)
  then show ?case using p "2.prems"(1) [OF p(2)] by (simp add: intact_def)
qed simp


lemma persist_manifest_reads_back:
  assumes "env_ok env" "collision_free env (insert (ce_to_json env m) (file_contents (cs_manifests cs)))"
  shows "\<exists>h cs'. persist_manifest env m cs = Some (h, cs') \<and> load_manifest_by_hash env cs' h = Inr (Some m) \<and>
    cs_chunks cs' = cs_chunks cs \<and> h = ce_hash_hex env (ce_to_json env m) \<and>
    (\<forall>h' p. intact env (cs_manifests cs) h' p \<longrightarrow> intact env (cs_manifests cs') h' p)"
proof -
  let ?p = "ce_to_json env m" and ?h = "ce_hash_hex env (ce_to_json env m)"
  obtain stored replaced files where
    p: "persist_storage_content env ?h ?p (cs_manifests cs) = (stored, replaced, files)"
    by (cases "persist_storage_content env ?h ?p (cs_manifests cs)") auto
  have i: "intact env files ?h ?p"
    by (rule persist_content(1) [OF p refl assms(2)]) auto
  have ok: "manifest_hash_looks_safe_filename ?h"
    using assms(1) by (simp add: env_ok_def manifest_hash_looks_safe_filename_def chunk_hash_ok_def)
  have "?h \<noteq> TOMBSTONE_MANIFEST_HASH"
    using ok by (auto simp: manifest_hash_looks_safe_filename_def TOMBSTONE_MANIFEST_HASH_def)
  then have "load_manifest_by_hash env (cs\<lparr>cs_manifests := files\<rparr>) ?h = Inr (Some m)"
    using ok i assms(1) by (simp add: load_manifest_by_hash_def intact_def env_ok_def)
  moreover have "persist_manifest env m cs = Some (?h, cs\<lparr>cs_manifests := files\<rparr>)"
    using ok p by (simp add: persist_manifest_def Let_def)
  ultimately show ?thesis using persist_keeps_intact [OF p] by auto
qed

text \<open>The chunks and the manifest a put leaves behind; intact files stay intact.\<close>

definition payload_manifest :: "content_env \<Rightarrow> string \<Rightarrow> bytes \<Rightarrow> object_manifest" where
  "payload_manifest env key payload = \<lparr>om_key = key, om_total_size_bytes = length payload,
     om_chunks = map (ref_of env) (chunks CHUNK_SIZE payload)\<rparr>"

lemma put_payload_ok:
  assumes "env_ok env"
    and "collision_free env (file_contents (cs_chunks cs) \<union> set (chunks CHUNK_SIZE payload))"
    and "collision_free env (insert (ce_to_json env (payload_manifest env key payload)) (file_contents (cs_manifests cs)))"
  shows "\<exists>n d cs'. put_payload env key payload cs =
      Some (ce_hash_hex env (ce_to_json env (payload_manifest env key payload)), n, d, cs') \<and>
    n + d = length (chunks CHUNK_SIZE payload) \<and>
    read_object_by_manifest_hash env cs' (ce_hash_hex env (ce_to_json env (payload_manifest env key payload))) = Inr payload \<and>
    (\<forall>h p. intact env (cs_chunks cs) h p \<longrightarrow> intact env (cs_chunks cs') h p) \<and>
    (\<forall>h p. intact env (cs_manifests cs) h p \<longrightarrow> intact env (cs_manifests cs') h p)"
proof -
  let ?cs = "chunks CHUNK_SIZE payload"
  let ?acc = "\<lparr>cp_refs = [], cp_new_chunks = 0, cp_dedup_reused_chunks = 0, cp_files = cs_chunks cs\<rparr>"
  have "file_contents (cp_files ?acc) \<subseteq> file_contents (cs_chunks cs) \<union> set ?cs"
    "set ?cs \<subseteq> file_contents (cs_chunks cs) \<union> set ?cs" by simp_all
  from put_chunks_correct [OF assms(1,2) this] obtain acc where acc: "put_chunks env ?cs ?acc = Some acc"
      "cp_refs acc = map (ref_of env) ?cs" "cp_new_chunks acc + cp_dedup_reused_chunks acc = length ?cs"
      "\<forall>c \<in> set ?cs. intact env (cp_files acc) (ce_hash_hex env c) c"
      "\<forall>h p. intact env (cs_chunks cs) h p \<longrightarrow> intact env (cp_files acc) h p"
    unfolding chunk_put.simps append_Nil add_0 by blast
  let ?m = "payload_manifest env key payload"
  have m_eq: "\<lparr>om_key = key, om_total_size_bytes = length payload, om_chunks = cp_refs acc\<rparr> = ?m"
    by (simp add: payload_manifest_def acc(2))
  have "collision_free env (insert (ce_to_json env ?m)
      (file_contents (cs_manifests (cs\<lparr>cs_chunks := cp_files acc\<rparr>))))"
    using assms(3) by simp
  from persist_manifest_reads_back [OF assms(1) this]
  obtain h cs' where m: "persist_manifest env ?m (cs\<lparr>cs_chunks := cp_files acc\<rparr>) = Some (h, cs')"
      "load_manifest_by_hash env cs' h = Inr (Some ?m)" "h = ce_hash_hex env (ce_to_json env ?m)"
      "cs_chunks cs' = cp_files acc"
      "\<forall>h' p. intact env (cs_manifests cs) h' p \<longrightarrow> intact env (cs_manifests cs') h' p" by auto
  have "concat ?cs = payload" by (rule concat_chunks) (simp add: CHUNK_SIZE_def)
  then have "assemble env (cs_chunks cs') (om_chunks ?m) [] = Inr payload"
    using assemble_intact [of env ?cs "cp_files acc" "[]"] acc m(4) assms(1)
    by (simp add: env_ok_def payload_manifest_def)
  then have "read_object_by_manifest_hash env cs' h = Inr payload"
    using m(2) by (simp add: read_object_by_manifest_hash_def) (simp add: payload_manifest_def)
  moreover have "put_payload env key payload cs = Some (h, cp_new_chunks acc, cp_dedup_reused_chunks acc, cs')"
    using acc(1) m(1) by (simp add: put_payload_def m_eq)
  ultimately show ?thesis using acc(3,5) m(3-5) by metis
qed

text \<open>Content that reads back keeps reading back while intact files are kept.\<close>

lemma read_object_keeps:
  assumes "read_object_by_manifest_hash env cs h = Inr data"
    "\<And>h p. intact env (cs_chunks cs) h p \<Longrightarrow> intact env (cs_chunks cs') h p"
    "map_of (cs_manifests cs') h = map_of (cs_manifests cs) h"
  shows "read_object_by_manifest_hash env cs' h = Inr data"
proof -
  have load: "load_manifest_by_hash env cs' h = load_manifest_by_hash env cs h"
    by (simp add: load_manifest_by_hash_def assms(3))
  from assms(1) obtain m where m: "load_manifest_by_hash env cs h = Inr (Some m)"
      "assemble env (cs_chunks cs) (om_chunks m) [] = Inr data" "length data = om_total_size_bytes m"
    by (auto simp: read_object_by_manifest_hash_def split: sum.splits option.splits if_splits)
  have "assemble env (cs_chunks cs') (om_chunks m) [] = Inr data"
    by (rule assemble_mono [OF assms(2) m(2)])
  then show ?thesis using m load by (simp add: read_object_by_manifest_hash_def)
qed

section \<open>A concrete environment for the witnesses\<close>

definition enc_nat :: "nat \<Rightarrow> string" where
  "enc_nat n = replicate n CHR ''1'' @ ''.''"

definition dec_nat :: "string \<Rightarrow> nat \<times> string" where
  "dec_nat s = (length (takeWhile (\<lambda>c. c = CHR ''1'') s), tl (dropWhile (\<lambda>c. c = CHR ''1'') s))"

definition enc_str :: "string \<Rightarrow> string" where
  "enc_str s = enc_nat (length s) @ s"

definition dec_str :: "string \<Rightarrow> string \<times> string" where
  "dec_str s = (case dec_nat s of (n, r) \<Rightarrow> (take n r, drop n r))"

lemma dec_enc_nat [simp]: "dec_nat (enc_nat n @ r) = (n, r)"
proof -
  have "takeWhile (\<lambda>c. c = CHR ''1'') (replicate n CHR ''1'' @ ''.'' @ r) = replicate n CHR ''1''"
    "dropWhile (\<lambda>c. c = CHR ''1'') (replicate n CHR ''1'' @ ''.'' @ r) = ''.'' @ r"
    by (induction n) auto
  then show ?thesis by (simp add: dec_nat_def enc_nat_def)
qed

lemma dec_enc_str [simp]: "dec_str (enc_str s @ r) = (s, r)"
  by (simp add: dec_str_def enc_str_def)

fun enc_refs :: "chunk_ref list \<Rightarrow> string" where
  "enc_refs [] = []"
| "enc_refs (c # cs) = enc_str (cr_hash c) @ enc_nat (cr_size_bytes c) @ enc_refs cs"

fun dec_refs :: "nat \<Rightarrow> string \<Rightarrow> chunk_ref list" where
  "dec_refs 0 s = []"
| "dec_refs (Suc n) s =
     (case dec_str s of (h, r) \<Rightarrow> case dec_nat r of (k, r') \<Rightarrow> \<lparr>cr_hash = h, cr_size_bytes = k\<rparr> # dec_refs n r')"

lemma dec_enc_refs: "dec_refs (length cs) (enc_refs cs) = cs"
  by (induction cs) simp_all

definition sample_hash :: "bytes \<Rightarrow> string" where
  "sample_hash b = replicate 63 CHR ''0'' @ (if even (length b div 2) then ''0'' else ''a'')"

definition sample_env :: content_env where
  "sample_env = \<lparr>ce_hash_hex = sample_hash,
     ce_to_json = (\<lambda>m. enc_str (om_key m) @ enc_nat (om_total_size_bytes m) @
        enc_nat (length (om_chunks m)) @ enc_refs (om_chunks m)),
     ce_from_json = (\<lambda>b. case dec_str b of (k, r) \<Rightarrow> case dec_nat r of (t, r') \<Rightarrow>
        case dec_nat r' of (n, r'') \<Rightarrow>
        Some \<lparr>om_key = k, om_total_size_bytes = t, om_chunks = dec_refs n r''\<rparr>)\<rparr>"

lemma sample_env_ok: "env_ok sample_env"
  by (simp add: env_ok_def sample_env_def sample_hash_def chunk_hash_ok_def is_ascii_hexdigit_def
      dec_enc_refs list_all_iff Let_def)

lemma chunks_short: "xs \<noteq> [] \<Longrightarrow> length xs \<le> n \<Longrightarrow> chunks n xs = [xs]"
  by (subst chunks.simps, subst chunks.simps) (cases xs; simp)

lemma hello_length: "length ''hello'' = 5"
  by simp

lemma sample_chunks: "chunks CHUNK_SIZE ''hello'' = [''hello'']"
proof (rule chunks_short)
  show "length ''hello'' \<le> CHUNK_SIZE" unfolding hello_length CHUNK_SIZE_def by simp
qed simp

lemma sample_chunk_count: "length (chunks CHUNK_SIZE ''hello'') = 1"
  unfolding sample_chunks by simp

lemma sample_free:
  "collision_free sample_env (file_contents (cs_chunks \<lparr>cs_chunks = [], cs_manifests = []\<rparr>) \<union>
     set (chunks CHUNK_SIZE ''hello''))"
  "collision_free sample_env (insert b (file_contents (cs_manifests \<lparr>cs_chunks = [], cs_manifests = []\<rparr>)))"
  unfolding sample_chunks by (simp_all add: collision_free_def)

section \<open>Properties\<close>

text \<open>C35: Reading an object never returns altered data: a successful read is the concatenation of
  chunk files each of which has the hash and the size its manifest names, and it has the size the
  manifest names; everything else is reported as an error.\<close>

theorem read_object_integrity:
  assumes "read_object_by_manifest_hash env cs h = Inr data"
  shows "\<exists>m ps. load_manifest_by_hash env cs h = Inr (Some m) \<and> data = concat ps \<and>
    length data = om_total_size_bytes m \<and>
    list_all2 (\<lambda>c p. map_of (cs_chunks cs) (cr_hash c) = Some p \<and> ce_hash_hex env p = cr_hash c \<and>
      length p = cr_size_bytes c) (om_chunks m) ps"
proof -
  from assms obtain m where m: "load_manifest_by_hash env cs h = Inr (Some m)"
      "assemble env (cs_chunks cs) (om_chunks m) [] = Inr data" "length data = om_total_size_bytes m"
    by (auto simp: read_object_by_manifest_hash_def split: sum.splits option.splits if_splits)
  from assemble_sound [OF m(2)] m show ?thesis by (auto simp: intact_def)
qed

theorem read_object_integrity_witness:
  "\<exists>m. load_manifest_by_hash sample_env \<lparr>cs_chunks = [], cs_manifests =
       [(sample_hash ''m'', ce_to_json sample_env \<lparr>om_key = ''k'', om_total_size_bytes = 0, om_chunks = []\<rparr>)]\<rparr>
       (sample_hash ''m'') = Inr (Some m) \<and> om_total_size_bytes m = 0"
proof -
  let ?m = "\<lparr>om_key = ''k'', om_total_size_bytes = 0, om_chunks = []\<rparr>"
  let ?cs = "\<lparr>cs_chunks = [], cs_manifests = [(sample_hash ''m'', ce_to_json sample_env ?m)]\<rparr>"
  have "manifest_hash_looks_safe_filename (sample_hash ''m'')" "sample_hash ''m'' \<noteq> TOMBSTONE_MANIFEST_HASH"
    by (simp_all add: manifest_hash_looks_safe_filename_def sample_hash_def is_ascii_hexdigit_def
        list_all_iff Let_def TOMBSTONE_MANIFEST_HASH_def numeral_eq_Suc)
  then have "load_manifest_by_hash sample_env ?cs (sample_hash ''m'') = Inr (Some ?m)"
    using sample_env_ok by (simp add: load_manifest_by_hash_def env_ok_def)
  then have "read_object_by_manifest_hash sample_env ?cs (sample_hash ''m'') = Inr []"
    by (simp add: read_object_by_manifest_hash_def)
  from read_object_integrity [OF this] show ?thesis by auto
qed



end
