(* ===== verification/Content_Range.thy ===== *)
theory Content_Range
  imports Content_Store
begin

text \<open>
  Reading a part of an object (crates/server-node-sdk/src/storage/mod.rs): the bytes of a range, the
  plan by which a range is streamed, the chunks a node still has to fetch for a range, and the chunks
  a range touches.  The four operations walk over the chunks of the manifest in the same way, which
  is \<open>range_loop\<close>; offsets are added with saturation, as in the code.
\<close>

section \<open>The walk over the chunks of a manifest\<close>

fun range_loop ::
  "nat \<Rightarrow> nat \<Rightarrow> (nat \<Rightarrow> chunk_ref \<Rightarrow> 'a \<Rightarrow> store_read_error + 'a) \<Rightarrow> nat \<Rightarrow> chunk_ref list \<Rightarrow> 'a \<Rightarrow> store_read_error + 'a" where
  "range_loop start end_exclusive step offset [] acc = Inr acc"
| "range_loop start end_exclusive step offset (c # cs) acc =
     (let chunk_end = sat_add_u64 offset (cr_size_bytes c) in
      if chunk_end \<le> start then range_loop start end_exclusive step chunk_end cs acc
      else if end_exclusive \<le> offset then Inr acc
      else (case step offset c acc of
              Inl e \<Rightarrow> Inl e
            | Inr acc1 \<Rightarrow> range_loop start end_exclusive step chunk_end cs acc1))"

text \<open>The checks at the beginning of the four operations.\<close>

definition range_manifest ::
  "content_env \<Rightarrow> content_store \<Rightarrow> string \<Rightarrow> nat \<Rightarrow> nat \<Rightarrow> store_read_error + object_manifest" where
  "range_manifest env cs h start end_exclusive =
     (if end_exclusive < start then Inl Internal
      else (case load_manifest_by_hash env cs h of
              Inl _ \<Rightarrow> Inl Internal
            | Inr None \<Rightarrow> Inl Corrupt
            | Inr (Some m) \<Rightarrow> if om_total_size_bytes m < end_exclusive then Inl Internal else Inr m))"

section \<open>Reading a range\<close>

definition read_range_chunk ::
  "content_env \<Rightarrow> (string, bytes) hashmap \<Rightarrow> nat \<Rightarrow> nat \<Rightarrow> nat \<Rightarrow> chunk_ref \<Rightarrow> bytes \<Rightarrow> store_read_error + bytes" where
  "read_range_chunk env files start end_exclusive offset c assembled =
     (if \<not> chunk_hash_ok (cr_hash c) then Inl Internal
      else (case map_of files (cr_hash c) of
              None \<Rightarrow> Inl Corrupt
            | Some payload \<Rightarrow>
                if length payload \<noteq> cr_size_bytes c then Inl Corrupt
                else if ce_hash_hex env payload \<noteq> cr_hash c then Inl Corrupt
                else let slice_start = start - offset; slice_end = min (length payload) (end_exclusive - offset)
                     in Inr (if slice_start < slice_end
                             then assembled @ take (slice_end - slice_start) (drop slice_start payload) else assembled)))"

definition read_object_range_by_manifest_hash ::
  "content_env \<Rightarrow> content_store \<Rightarrow> string \<Rightarrow> nat \<Rightarrow> nat \<Rightarrow> store_read_error + bytes" where
  "read_object_range_by_manifest_hash env cs h start end_exclusive =
     (case range_manifest env cs h start end_exclusive of
        Inl e \<Rightarrow> Inl e
      | Inr m \<Rightarrow>
          if start = end_exclusive then Inr []
          else (case range_loop start end_exclusive (read_range_chunk env (cs_chunks cs) start end_exclusive) 0 (om_chunks m) [] of
                  Inl e \<Rightarrow> Inl e
                | Inr assembled \<Rightarrow>
                    if length assembled \<noteq> end_exclusive - start then Inl Corrupt else Inr assembled))"

section \<open>Planning a stream\<close>

text \<open>The path of a planned chunk is that of its hash.\<close>

record object_stream_chunk_plan =
  oc_hash :: string
  oc_start :: usize
  oc_len :: usize

definition local_chunk_matches_ref :: "content_env \<Rightarrow> (string, bytes) hashmap \<Rightarrow> chunk_ref \<Rightarrow> bool" where
  "local_chunk_matches_ref env files c \<longleftrightarrow> validate_chunk_integrity env files c = Valid"

definition plan_range_chunk ::
  "content_env \<Rightarrow> (string, bytes) hashmap \<Rightarrow> nat \<Rightarrow> nat \<Rightarrow> nat \<Rightarrow> chunk_ref \<Rightarrow> object_stream_chunk_plan list \<times> nat
     \<Rightarrow> store_read_error + object_stream_chunk_plan list \<times> nat" where
  "plan_range_chunk env files start end_exclusive offset c acc =
     (case acc of (planned, planned_size) \<Rightarrow>
        if \<not> chunk_hash_ok (cr_hash c) then Inl Internal
        else (case map_of files (cr_hash c) of
                None \<Rightarrow> Inl Corrupt
              | Some payload \<Rightarrow>
                  if length payload \<noteq> cr_size_bytes c then Inl Corrupt
                  else if \<not> local_chunk_matches_ref env files c then Inl Corrupt
                  else let slice_start = start - offset; slice_end = min (cr_size_bytes c) (end_exclusive - offset)
                       in Inr (if slice_start < slice_end
                               then (planned @ [\<lparr>oc_hash = cr_hash c, oc_start = slice_start, oc_len = slice_end - slice_start\<rparr>],
                                     sat_add_u64 planned_size (slice_end - slice_start))
                               else acc)))"

definition plan_object_range_by_manifest_hash ::
  "content_env \<Rightarrow> content_store \<Rightarrow> string \<Rightarrow> nat \<Rightarrow> nat \<Rightarrow> store_read_error + object_stream_chunk_plan list" where
  "plan_object_range_by_manifest_hash env cs h start end_exclusive =
     (case range_manifest env cs h start end_exclusive of
        Inl e \<Rightarrow> Inl e
      | Inr m \<Rightarrow>
          (case range_loop start end_exclusive (plan_range_chunk env (cs_chunks cs) start end_exclusive) 0 (om_chunks m) ([], 0) of
             Inl e \<Rightarrow> Inl e
           | Inr (planned, planned_size) \<Rightarrow>
               if planned_size \<noteq> end_exclusive - start then Inl Corrupt else Inr planned))"

section \<open>Chunks of a range\<close>

definition missing_range_chunk ::
  "content_env \<Rightarrow> (string, bytes) hashmap \<Rightarrow> nat \<Rightarrow> chunk_ref \<Rightarrow> chunk_ref list \<Rightarrow> store_read_error + chunk_ref list" where
  "missing_range_chunk env files offset c missing =
     (if \<not> chunk_hash_ok (cr_hash c) then Inl Internal
      else let is_missing = (case map_of files (cr_hash c) of
                               Some payload \<Rightarrow> if length payload = cr_size_bytes c then \<not> local_chunk_matches_ref env files c else True
                             | None \<Rightarrow> True)
           in Inr (if is_missing then missing @ [c] else missing))"

definition missing_chunks_for_manifest_range ::
  "content_env \<Rightarrow> content_store \<Rightarrow> string \<Rightarrow> nat \<Rightarrow> nat \<Rightarrow> store_read_error + chunk_ref list" where
  "missing_chunks_for_manifest_range env cs h start end_exclusive =
     (case range_manifest env cs h start end_exclusive of
        Inl e \<Rightarrow> Inl e
      | Inr m \<Rightarrow> range_loop start end_exclusive (missing_range_chunk env (cs_chunks cs)) 0 (om_chunks m) [])"

definition chunk_hashes_for_manifest_range ::
  "content_env \<Rightarrow> content_store \<Rightarrow> string \<Rightarrow> nat \<Rightarrow> nat \<Rightarrow> store_read_error + string list" where
  "chunk_hashes_for_manifest_range env cs h start end_exclusive =
     (case range_manifest env cs h start end_exclusive of
        Inl e \<Rightarrow> Inl e
      | Inr m \<Rightarrow> range_loop start end_exclusive (\<lambda>offset c hashes. Inr (hashes @ [cr_hash c])) 0 (om_chunks m) [])"

section \<open>Receiving chunks\<close>

text \<open>The running total of stored bytes is left out.\<close>

definition ingest_verified_chunk :: "content_env \<Rightarrow> string \<Rightarrow> bytes \<Rightarrow> (string, bytes) hashmap \<Rightarrow> (bool \<times> (string, bytes) hashmap) option" where
  "ingest_verified_chunk env h payload files =
     (if \<not> chunk_hash_ok h then None
      else (case persist_storage_content env h payload files of (stored, replaced, files1) \<Rightarrow> Some (stored, files1)))"

definition ingest_chunk :: "content_env \<Rightarrow> string \<Rightarrow> bytes \<Rightarrow> (string, bytes) hashmap \<Rightarrow> (bool \<times> (string, bytes) hashmap) option" where
  "ingest_chunk env h payload files =
     (if ce_hash_hex env payload \<noteq> h then None else ingest_verified_chunk env h payload files)"

definition ingest_chunk_auto :: "content_env \<Rightarrow> bytes \<Rightarrow> (string, bytes) hashmap \<Rightarrow> ((string \<times> bool) \<times> (string, bytes) hashmap) option" where
  "ingest_chunk_auto env payload files =
     (let h = ce_hash_hex env payload in
      case ingest_chunk env h payload files of None \<Rightarrow> None | Some (stored, files1) \<Rightarrow> Some ((h, stored), files1))"

definition available_upload_chunk_refs ::
  "content_env \<Rightarrow> (string, bytes) hashmap \<Rightarrow> chunk_ref list \<Rightarrow> chunk_ref option list option" where
  "available_upload_chunk_refs env files refs =
     (if list_all (\<lambda>c. chunk_hash_ok (cr_hash c)) refs
      then Some (map (\<lambda>c. if validate_chunk_integrity env files c = Valid then Some c else None) refs) else None)"

section \<open>The chunks that overlap a range\<close>

fun overlapping :: "nat \<Rightarrow> nat \<Rightarrow> nat \<Rightarrow> chunk_ref list \<Rightarrow> (nat \<times> chunk_ref) list" where
  "overlapping s e off [] = []"
| "overlapping s e off (c # cs) =
     (if off + cr_size_bytes c \<le> s then overlapping s e (off + cr_size_bytes c) cs
      else if e \<le> off then []
      else (off, c) # overlapping s e (off + cr_size_bytes c) cs)"

fun try_fold :: "('x \<Rightarrow> 'a \<Rightarrow> 'e + 'a) \<Rightarrow> 'x list \<Rightarrow> 'a \<Rightarrow> 'e + 'a" where
  "try_fold f [] acc = Inr acc"
| "try_fold f (x # xs) acc = (case f x acc of Inl e \<Rightarrow> Inl e | Inr a \<Rightarrow> try_fold f xs a)"

abbreviation total_size :: "chunk_ref list \<Rightarrow> nat" where
  "total_size refs \<equiv> sum_list (map cr_size_bytes refs)"

lemma range_loop_overlapping:
  "off + total_size cs \<le> u64_max \<Longrightarrow>
   range_loop s e step off cs acc = try_fold (\<lambda>(off, c). step off c) (overlapping s e off cs) acc"
proof (induction s e off cs arbitrary: acc rule: overlapping.induct)
  case (2 s e off c cs)
  have "sat_add_u64 off (cr_size_bytes c) = off + cr_size_bytes c" using "2.prems" by (simp add: sat_add_u64_def)
  then show ?case using "2.IH" "2.prems" by (auto split: sum.splits)
qed simp

section \<open>What the steps do\<close>

text \<open>A reference stands for a payload: the sizes agree, and a local file that passes the check is
  that payload.\<close>

definition describes :: "content_env \<Rightarrow> (string, bytes) hashmap \<Rightarrow> chunk_ref \<Rightarrow> bytes \<Rightarrow> bool" where
  "describes env files c p \<longleftrightarrow> length p = cr_size_bytes c \<and> chunk_hash_ok (cr_hash c) \<and>
     (local_chunk_matches_ref env files c \<longrightarrow> map_of files (cr_hash c) = Some p)"

lemma matches_iff:
  "local_chunk_matches_ref env files c \<longleftrightarrow>
     (\<exists>q. map_of files (cr_hash c) = Some q \<and> length q = cr_size_bytes c \<and> ce_hash_hex env q = cr_hash c)"
  by (auto simp: local_chunk_matches_ref_def validate_chunk_integrity_def split: option.splits)

lemma read_step:
  assumes "describes env files c p"
  shows "read_range_chunk env files s e off c acc =
    (if local_chunk_matches_ref env files c
     then Inr (acc @ take (min (cr_size_bytes c) (e - off) - (s - off)) (drop (s - off) p)) else Inl Corrupt)"
proof (cases "local_chunk_matches_ref env files c")
  case True
  then have p: "map_of files (cr_hash c) = Some p" using assms by (simp add: describes_def)
  then have "ce_hash_hex env p = cr_hash c" using True by (auto simp: matches_iff)
  then show ?thesis using True assms p by (auto simp: read_range_chunk_def describes_def Let_def min_def)
next
  case False
  then show ?thesis using assms unfolding read_range_chunk_def
    by (auto simp: describes_def matches_iff split: option.split)
qed

lemma plan_step:
  assumes "describes env files c p"
  shows "plan_range_chunk env files s e off c (planned, n) =
    (let k = min (cr_size_bytes c) (e - off) - (s - off) in
     if \<not> local_chunk_matches_ref env files c then Inl Corrupt
     else Inr (if k = 0 then (planned, n)
               else (planned @ [\<lparr>oc_hash = cr_hash c, oc_start = s - off, oc_len = k\<rparr>], sat_add_u64 n k)))"
proof (cases "local_chunk_matches_ref env files c")
  case True
  then have "map_of files (cr_hash c) = Some p" using assms by (simp add: describes_def)
  then show ?thesis using True assms by (auto simp: plan_range_chunk_def describes_def Let_def)
next
  case False
  then show ?thesis using assms unfolding plan_range_chunk_def
    by (auto simp: describes_def Let_def split: option.split)
qed

lemma missing_step:
  "chunk_hash_ok (cr_hash c) \<Longrightarrow>
   missing_range_chunk env files off c missing = Inr (missing @ (if local_chunk_matches_ref env files c then [] else [c]))"
  by (auto simp: missing_range_chunk_def matches_iff split: option.split)

text \<open>The part of the payloads from offset \<open>off\<close> on that lies in the range.\<close>

definition rest_of_range :: "nat \<Rightarrow> nat \<Rightarrow> nat \<Rightarrow> bytes \<Rightarrow> bytes" where
  "rest_of_range s e off data = take (e - max s off) (drop (s - off) data)"

lemma rest_of_range_skip: "off + length p \<le> s \<Longrightarrow> rest_of_range s e off (p @ data) = rest_of_range s e (off + length p) data"
  by (cases "s = off") (auto simp: rest_of_range_def max_def)

lemma rest_of_range_cut:
  assumes "s < off + length p" "off < e"
  shows "rest_of_range s e off (p @ data) =
    take (min (length p) (e - off) - (s - off)) (drop (s - off) p) @ rest_of_range s e (off + length p) data"
proof -
  have "e - max s off = (e - off) - (s - off)" by (simp add: max_def)
  moreover have "take (e - off - (s - off)) (drop (s - off) p) = take (min (length p) (e - off) - (s - off)) (drop (s - off) p)"
    by (cases "length p \<le> e - off") (simp_all add: min_def)
  moreover have "e - off - (s - off) - (length p - (s - off)) = e - (off + length p)" using assms by linarith
  ultimately show ?thesis using assms by (simp add: rest_of_range_def max_def)
qed

lemma read_fold:
  assumes "list_all2 (describes env files) cs ps"
  shows "try_fold (\<lambda>(off, c). read_range_chunk env files s e off c) (overlapping s e off cs) acc =
    (if \<forall>x \<in> set (overlapping s e off cs). local_chunk_matches_ref env files (snd x)
     then Inr (acc @ rest_of_range s e off (concat ps)) else Inl Corrupt)"
  using assms
proof (induction cs ps arbitrary: off acc rule: list_all2_induct)
  case (Cons c cs p ps)
  have len: "cr_size_bytes c = length p" using Cons.hyps(1) by (simp add: describes_def)
  consider "off + length p \<le> s" | "s < off + length p" "e \<le> off" | "s < off + length p" "off < e" by linarith
  then show ?case
  proof cases
    case 1
    then show ?thesis using Cons.IH len by (simp add: rest_of_range_skip)
  next
    case 2
    then show ?thesis using len by (simp add: rest_of_range_def max_def)
  next
    case 3
    then show ?thesis using Cons.IH [of "off + length p"] len read_step [OF Cons.hyps(1)]
      by (simp add: rest_of_range_cut)
  qed
qed (simp add: rest_of_range_def)

lemma missing_fold:
  "\<forall>c \<in> set cs. chunk_hash_ok (cr_hash c) \<Longrightarrow>
   try_fold (\<lambda>(off, c). missing_range_chunk env files off c) (overlapping s e off cs) acc =
     Inr (acc @ filter (\<lambda>c. \<not> local_chunk_matches_ref env files c) (map snd (overlapping s e off cs)))"
  by (induction s e off cs arbitrary: acc rule: overlapping.induct) (auto simp: missing_step)

lemma hashes_fold:
  "try_fold (\<lambda>(off, c) hashes. Inr (hashes @ [cr_hash c])) xs acc = Inr (acc @ map (cr_hash \<circ> snd) xs)"
  by (induction xs arbitrary: acc) auto

text \<open>What a stream that follows a plan delivers.\<close>

definition stream_plan :: "(string, bytes) hashmap \<Rightarrow> object_stream_chunk_plan list \<Rightarrow> bytes" where
  "stream_plan files plan =
     concat (map (\<lambda>p. take (oc_len p) (drop (oc_start p) (unwrap_or [] (map_of files (oc_hash p))))) plan)"

lemma stream_plan_simps [simp]:
  "stream_plan files [] = []"
  "stream_plan files (xs @ ys) = stream_plan files xs @ stream_plan files ys"
  by (simp_all add: stream_plan_def)

lemma length_rest_of_range: "length (rest_of_range s e off data) \<le> length data"
  by (simp add: rest_of_range_def)

lemma plan_fold:
  assumes "list_all2 (describes env files) cs ps" "n + length (concat ps) \<le> u64_max"
    "\<forall>x \<in> set (overlapping s e off cs). local_chunk_matches_ref env files (snd x)"
  shows "\<exists>new. try_fold (\<lambda>(off, c). plan_range_chunk env files s e off c) (overlapping s e off cs) (planned, n) =
      Inr (planned @ new, n + length (rest_of_range s e off (concat ps))) \<and>
    stream_plan files new = rest_of_range s e off (concat ps)"
  using assms
proof (induction cs ps arbitrary: off planned n rule: list_all2_induct)
  case (Cons c cs p ps)
  have len: "cr_size_bytes c = length p" using Cons.hyps(1) by (simp add: describes_def)
  consider "off + length p \<le> s" | "s < off + length p" "e \<le> off" | "s < off + length p" "off < e" by linarith
  then show ?case
  proof cases
    case 1
    then show ?thesis using Cons.IH [of n "off + length p" planned] Cons.prems len by (simp add: rest_of_range_skip)
  next
    case 2
    then show ?thesis using len by (simp add: rest_of_range_def max_def)
  next
    case 3
    let ?k = "min (length p) (e - off) - (s - off)"
    let ?step = "if ?k = 0 then [] else [\<lparr>oc_hash = cr_hash c, oc_start = s - off, oc_len = ?k\<rparr>]"
    have ok: "local_chunk_matches_ref env files c" using Cons.prems(2) 3 len by simp
    then have stored: "map_of files (cr_hash c) = Some p" using Cons.hyps(1) by (simp add: describes_def)
    have k: "?k \<le> length p" by simp
    have first: "plan_range_chunk env files s e off c (planned, n) = Inr (planned @ ?step, n + ?k)"
      using plan_step [OF Cons.hyps(1), of s e off planned n] ok len Cons.prems(1) k by (simp add: Let_def sat_add_u64_def)
    have cut: "length (take ?k (drop (s - off) p)) = ?k" by simp
    obtain new where new: "try_fold (\<lambda>(off, c). plan_range_chunk env files s e off c) (overlapping s e (off + length p) cs)
        (planned @ ?step, n + ?k) = Inr ((planned @ ?step) @ new, n + ?k + length (rest_of_range s e (off + length p) (concat ps)))"
      "stream_plan files new = rest_of_range s e (off + length p) (concat ps)"
      using Cons.IH [of "n + ?k" "off + length p" "planned @ ?step"] Cons.prems 3 len k by auto
    have "stream_plan files (?step @ new) = rest_of_range s e off (concat (p # ps))"
      using 3 new(2) stored by (simp add: rest_of_range_cut stream_plan_def)
    then show ?thesis
      using 3 new(1) first len cut by (intro exI [of _ "?step @ new"]) (simp add: rest_of_range_cut)
  qed
qed (simp add: rest_of_range_def)

lemma sizes_concat: "list_all2 (describes env files) cs ps \<Longrightarrow> total_size cs = length (concat ps)"
  by (induction rule: list_all2_induct) (auto simp: describes_def)

lemma hashes_ok: "list_all2 (describes env files) cs ps \<Longrightarrow> \<forall>c \<in> set cs. chunk_hash_ok (cr_hash c)"
  by (induction rule: list_all2_induct) (auto simp: describes_def)

text \<open>The chunks of a range that a node lacks.\<close>

abbreviation lacking :: "content_env \<Rightarrow> content_store \<Rightarrow> object_manifest \<Rightarrow> nat \<Rightarrow> nat \<Rightarrow> chunk_ref list" where
  "lacking env cs m s e \<equiv>
     filter (\<lambda>c. \<not> local_chunk_matches_ref env (cs_chunks cs) c) (map snd (overlapping s e 0 (om_chunks m)))"

lemma range_operations:
  assumes m: "load_manifest_by_hash env cs h = Inr (Some m)" and "s \<le> e" "e \<le> om_total_size_bytes m"
    and ps: "list_all2 (describes env (cs_chunks cs)) (om_chunks m) ps" "om_total_size_bytes m = length (concat ps)"
    and bound: "om_total_size_bytes m \<le> u64_max"
  shows "missing_chunks_for_manifest_range env cs h s e = Inr (lacking env cs m s e)"
    "lacking env cs m s e = [] \<Longrightarrow> read_object_range_by_manifest_hash env cs h s e = Inr (take (e - s) (drop s (concat ps)))"
    "lacking env cs m s e = [] \<Longrightarrow> \<exists>plan. plan_object_range_by_manifest_hash env cs h s e = Inr plan \<and>
       stream_plan (cs_chunks cs) plan = take (e - s) (drop s (concat ps))"
    "lacking env cs m s e \<noteq> [] \<Longrightarrow> s < e \<Longrightarrow> read_object_range_by_manifest_hash env cs h s e = Inl Corrupt"
    "chunk_hashes_for_manifest_range env cs h s e = Inr (map (cr_hash \<circ> snd) (overlapping s e 0 (om_chunks m)))"
proof -
  have small: "0 + total_size (om_chunks m) \<le> u64_max" using sizes_concat [OF ps(1)] ps(2) bound by simp
  note loop = range_loop_overlapping [OF small]
  have rm: "range_manifest env cs h s e = Inr m" using assms(2,3) m by (simp add: range_manifest_def)
  have slice: "rest_of_range s e 0 (concat ps) = take (e - s) (drop s (concat ps))" by (simp add: rest_of_range_def)
  have len: "length (take (e - s) (drop s (concat ps))) = e - s" using assms(2,3) ps(2) by simp
  show "missing_chunks_for_manifest_range env cs h s e = Inr (lacking env cs m s e)"
    using missing_fold [OF hashes_ok [OF ps(1)]] by (simp add: missing_chunks_for_manifest_range_def rm loop)
  show "chunk_hashes_for_manifest_range env cs h s e = Inr (map (cr_hash \<circ> snd) (overlapping s e 0 (om_chunks m)))"
    by (simp add: chunk_hashes_for_manifest_range_def rm loop hashes_fold)
  {
    assume "lacking env cs m s e = []"
    then have all: "\<forall>x \<in> set (overlapping s e 0 (om_chunks m)). local_chunk_matches_ref env (cs_chunks cs) (snd x)"
      by (auto simp: filter_empty_conv)
    show "read_object_range_by_manifest_hash env cs h s e = Inr (take (e - s) (drop s (concat ps)))"
      using read_fold [OF ps(1), of s e 0 "[]"] all len
      by (simp add: read_object_range_by_manifest_hash_def rm loop slice)
    obtain new where "try_fold (\<lambda>(off, c). plan_range_chunk env (cs_chunks cs) s e off c) (overlapping s e 0 (om_chunks m)) ([], 0) =
        Inr (new, e - s)" "stream_plan (cs_chunks cs) new = take (e - s) (drop s (concat ps))"
      using plan_fold [OF ps(1) _ all, of 0 "[]"] ps(2) bound len unfolding slice by auto
    then show "\<exists>plan. plan_object_range_by_manifest_hash env cs h s e = Inr plan \<and>
       stream_plan (cs_chunks cs) plan = take (e - s) (drop s (concat ps))"
      by (simp add: plan_object_range_by_manifest_hash_def rm loop)
  }
  assume "lacking env cs m s e \<noteq> []" "s < e"
  then show "read_object_range_by_manifest_hash env cs h s e = Inl Corrupt"
    using read_fold [OF ps(1), of s e 0 "[]"]
    by (auto simp: read_object_range_by_manifest_hash_def rm loop filter_empty_conv)
qed

section \<open>Fetching what is missing\<close>

fun ingest_all :: "content_env \<Rightarrow> bytes list \<Rightarrow> (string, bytes) hashmap \<Rightarrow> (string, bytes) hashmap option" where
  "ingest_all env [] files = Some files"
| "ingest_all env (p # ps) files =
     (case ingest_chunk_auto env p files of None \<Rightarrow> None | Some (_, files1) \<Rightarrow> ingest_all env ps files1)"

lemma ingest_all_ok:
  assumes "env_ok env" "collision_free env A"
  shows "file_contents files \<subseteq> A \<Longrightarrow> set ps \<subseteq> A \<Longrightarrow>
    \<exists>files'. ingest_all env ps files = Some files' \<and> file_contents files' \<subseteq> A \<and>
      (\<forall>p \<in> set ps. intact env files' (ce_hash_hex env p) p) \<and> (\<forall>h p. intact env files h p \<longrightarrow> intact env files' h p)"
proof (induction ps arbitrary: files)
  case (Cons p ps)
  let ?h = "ce_hash_hex env p"
  obtain stored replaced files1 where p: "persist_storage_content env ?h p files = (stored, replaced, files1)"
    by (cases "persist_storage_content env ?h p files") auto
  note f = persist_content [OF p refl assms(2) Cons.prems(1)]
  have first: "ingest_chunk_auto env p files = Some ((?h, stored), files1)"
    using assms(1) p by (simp add: ingest_chunk_auto_def ingest_chunk_def ingest_verified_chunk_def env_ok_def)
  from Cons.IH [of files1] f Cons.prems obtain files' where "ingest_all env ps files1 = Some files'"
      "file_contents files' \<subseteq> A" "\<forall>p \<in> set ps. intact env files' (ce_hash_hex env p) p"
      "\<forall>h p. intact env files1 h p \<longrightarrow> intact env files' h p" by auto
  then show ?case using first f(1) Cons.prems(2) persist_keeps_intact [OF p] by auto
qed simp

lemma describes_ref:
  assumes "env_ok env" "collision_free env A" "file_contents files \<subseteq> A" "p \<in> A"
  shows "describes env files (ref_of env p) p"
proof -
  have "q = p" if "map_of files (ce_hash_hex env p) = Some q" "ce_hash_hex env q = ce_hash_hex env p" for q
  proof -
    have "q \<in> A" using that(1) assms(3) by (force dest: map_of_SomeD)
    then show ?thesis using that(2) assms(2,4) by (auto simp: collision_free_def dest: inj_onD)
  qed
  then show ?thesis using assms(1) by (auto simp: describes_def ref_of_def env_ok_def matches_iff)
qed

lemma intact_matches: "intact env files (ce_hash_hex env p) p \<Longrightarrow> local_chunk_matches_ref env files (ref_of env p)"
  by (auto simp: matches_iff intact_def ref_of_def)

lemma matches_intact:
  "describes env files (ref_of env p) p \<Longrightarrow> local_chunk_matches_ref env files (ref_of env p) \<Longrightarrow> intact env files (ce_hash_hex env p) p"
  by (auto simp: describes_def intact_def ref_of_def)

lemma overlapping_subset: "snd ` set (overlapping s e off cs) \<subseteq> set cs"
  by (induction s e off cs rule: overlapping.induct) auto

lemma load_manifest_chunks [simp]: "load_manifest_by_hash env (cs\<lparr>cs_chunks := files\<rparr>) h = load_manifest_by_hash env cs h"
  by (simp add: load_manifest_by_hash_def)

lemma assemble_hashes: "assemble env files refs acc = Inr data \<Longrightarrow> \<forall>c \<in> set refs. chunk_hash_ok (cr_hash c)"
  by (induction env files refs acc rule: assemble.induct) (auto split: if_splits option.splits)

section \<open>Properties\<close>

text \<open>C13: Whenever a whole object can be read, every range of it can be read and is that part of the
  object; no chunk of the range counts as missing, and streaming the range by its plan delivers the
  same bytes.\<close>

theorem range_read_is_slice:
  assumes "read_object_by_manifest_hash env cs h = Inr data" "s \<le> e" "e \<le> length data" "length data \<le> u64_max"
  shows "read_object_range_by_manifest_hash env cs h s e = Inr (take (e - s) (drop s data)) \<and>
    missing_chunks_for_manifest_range env cs h s e = Inr [] \<and>
    (\<exists>plan. plan_object_range_by_manifest_hash env cs h s e = Inr plan \<and>
       stream_plan (cs_chunks cs) plan = take (e - s) (drop s data))"
proof -
  obtain m where m: "load_manifest_by_hash env cs h = Inr (Some m)" "assemble env (cs_chunks cs) (om_chunks m) [] = Inr data"
      "om_total_size_bytes m = length data"
    using assms(1) by (auto simp: read_object_by_manifest_hash_def split: sum.splits option.splits if_splits)
  obtain ps where ps: "data = concat ps"
      "list_all2 (\<lambda>c p. intact env (cs_chunks cs) (cr_hash c) p \<and> length p = cr_size_bytes c) (om_chunks m) ps"
    using assemble_sound [OF m(2)] by auto
  have all: "list_all2 (describes env (cs_chunks cs)) (om_chunks m) ps"
    using ps(2) assemble_hashes [OF m(2)] by (auto simp: describes_def intact_def list_all2_conv_all_nth)
  have "\<forall>c \<in> set (om_chunks m). local_chunk_matches_ref env (cs_chunks cs) c"
    using ps(2) by (auto simp: matches_iff intact_def in_set_conv_nth list_all2_conv_all_nth)
  then have none: "lacking env cs m s e = []"
    using overlapping_subset [of s e 0 "om_chunks m"] by (force simp: filter_empty_conv)
  have "e \<le> om_total_size_bytes m" "om_total_size_bytes m = length (concat ps)" "om_total_size_bytes m \<le> u64_max"
    using assms(3,4) m(3) ps(1) by simp_all
  note ops = range_operations [OF m(1) assms(2) this(1) all this(2,3)]
  show ?thesis using ops(1) ops(2,3) [OF none] none ps(1) by simp
qed

text \<open>An object of two chunks, and what a node with some of its chunk files stores.\<close>

definition sample_parts :: "bytes list" where
  "sample_parts = [''hel'', ''o'']"

definition sample_object :: object_manifest where
  "sample_object = \<lparr>om_key = ''k'', om_total_size_bytes = 4, om_chunks = map (ref_of sample_env) sample_parts\<rparr>"

definition sample_holder :: "bytes list \<Rightarrow> content_store" where
  "sample_holder held = \<lparr>cs_chunks = map (\<lambda>p. (sample_hash p, p)) held,
     cs_manifests = [(sample_hash ''m'', ce_to_json sample_env sample_object)]\<rparr>"

lemma sample_holder_manifest: "load_manifest_by_hash sample_env (sample_holder held) (sample_hash ''m'') = Inr (Some sample_object)"
proof -
  have "manifest_hash_looks_safe_filename (sample_hash ''m'')" "sample_hash ''m'' \<noteq> TOMBSTONE_MANIFEST_HASH"
    by (simp_all add: manifest_hash_looks_safe_filename_def sample_hash_def is_ascii_hexdigit_def
        list_all_iff Let_def TOMBSTONE_MANIFEST_HASH_def numeral_eq_Suc)
  then show ?thesis using sample_env_ok by (simp add: load_manifest_by_hash_def env_ok_def sample_holder_def)
qed

lemma sample_hashes: "sample_hash ''hel'' \<noteq> sample_hash ''o''" "ce_hash_hex sample_env = sample_hash" "chunk_hash_ok (sample_hash b)"
  using sample_env_ok by (simp_all add: sample_hash_def sample_env_def env_ok_def)

theorem range_read_is_slice_witness:
  "read_object_range_by_manifest_hash sample_env (sample_holder sample_parts) (sample_hash ''m'') 1 4 = Inr ''elo''"
proof -
  have "read_object_by_manifest_hash sample_env (sample_holder sample_parts) (sample_hash ''m'') = Inr ''helo''"
    unfolding read_object_by_manifest_hash_def sample_holder_manifest
    using sample_hashes by (simp add: sample_object_def sample_holder_def sample_parts_def ref_of_def)
  from range_read_is_slice [OF this, of 1 4] show ?thesis by simp
qed

text \<open>C14: A node that holds only some chunks of an object knows what it lacks for a range: reading the
  range fails as corrupt exactly when a chunk is reported missing, and once the payloads of the missing
  chunks have been received, in any state the other chunk files are in, the range reads as that part
  of the object.\<close>

theorem fetched_range_reads:
  assumes "env_ok env" "collision_free env A" "file_contents (cs_chunks cs) \<subseteq> A" "set ps \<subseteq> A"
    and "load_manifest_by_hash env cs h = Inr (Some m)" "om_chunks m = map (ref_of env) ps"
    and "om_total_size_bytes m = length (concat ps)" "om_total_size_bytes m \<le> u64_max" "s < e" "e \<le> length (concat ps)"
  shows "\<exists>missing. missing_chunks_for_manifest_range env cs h s e = Inr missing \<and>
    (read_object_range_by_manifest_hash env cs h s e = Inl Corrupt \<longleftrightarrow> missing \<noteq> []) \<and>
    (\<forall>qs. set qs \<subseteq> set ps \<and> map (ref_of env) qs = missing \<longrightarrow>
       (\<exists>files. ingest_all env qs (cs_chunks cs) = Some files \<and>
          read_object_range_by_manifest_hash env (cs\<lparr>cs_chunks := files\<rparr>) h s e = Inr (take (e - s) (drop s (concat ps)))))"
proof -
  have desc: "list_all2 (describes env files) (om_chunks m) ps" if "file_contents files \<subseteq> A" for files
    unfolding assms(6) using assms(4) describes_ref [OF assms(1,2) that] by (auto simp: list_all2_conv_all_nth subset_iff)
  have le: "s \<le> e" "e \<le> om_total_size_bytes m" using assms(7,9,10) by simp_all
  note ops = range_operations [OF assms(5) le desc [OF assms(3)] assms(7,8)]
  have fetched: "\<exists>files. ingest_all env qs (cs_chunks cs) = Some files \<and>
      read_object_range_by_manifest_hash env (cs\<lparr>cs_chunks := files\<rparr>) h s e = Inr (take (e - s) (drop s (concat ps)))"
    if qs: "set qs \<subseteq> set ps" "map (ref_of env) qs = lacking env cs m s e" for qs
  proof -
    obtain files where f: "ingest_all env qs (cs_chunks cs) = Some files" "file_contents files \<subseteq> A"
        "\<forall>p \<in> set qs. intact env files (ce_hash_hex env p) p" "\<forall>h p. intact env (cs_chunks cs) h p \<longrightarrow> intact env files h p"
      using ingest_all_ok [OF assms(1,2,3)] qs(1) assms(4) by blast
    have "local_chunk_matches_ref env files c" if c: "c \<in> snd ` set (overlapping s e 0 (om_chunks m))" for c
    proof (cases "local_chunk_matches_ref env (cs_chunks cs) c")
      case True
      obtain p where p: "p \<in> set ps" "c = ref_of env p" using c overlapping_subset [of s e 0 "om_chunks m"] assms(6) by force
      then have "intact env (cs_chunks cs) (ce_hash_hex env p) p"
        using True describes_ref [OF assms(1,2,3)] assms(4) by (blast intro: matches_intact)
      then show ?thesis using f(4) p(2) by (blast intro: intact_matches)
    next
      case False
      then have "c \<in> set (lacking env cs m s e)" using c by simp
      then obtain p where "p \<in> set qs" "c = ref_of env p" unfolding qs(2) [symmetric] by auto
      then show ?thesis using f(3) by (blast intro: intact_matches)
    qed
    then have "lacking env (cs\<lparr>cs_chunks := files\<rparr>) m s e = []" by (force simp: filter_empty_conv)
    then show ?thesis
      using f(1) range_operations(2) [of env "cs\<lparr>cs_chunks := files\<rparr>" h m s e ps] assms(5,7,8) le desc [OF f(2)] by simp
  qed
  show ?thesis
    using ops(1,2,4) fetched assms(9) by (cases "lacking env cs m s e = []") auto
qed

theorem fetched_range_reads_witness:
  "\<exists>files. ingest_all sample_env [''o''] (cs_chunks (sample_holder [''hel''])) = Some files \<and>
    read_object_range_by_manifest_hash sample_env (sample_holder [''hel'']\<lparr>cs_chunks := files\<rparr>) (sample_hash ''m'') 1 4 = Inr ''elo''"
proof -
  let ?cs = "sample_holder [''hel'']" and ?h = "sample_hash ''m''"
  have free: "collision_free sample_env (set sample_parts)" "file_contents (cs_chunks ?cs) \<subseteq> set sample_parts"
    using sample_hashes by (simp_all add: collision_free_def sample_parts_def sample_holder_def)
  have m: "om_chunks sample_object = map (ref_of sample_env) sample_parts"
    "om_total_size_bytes sample_object = length (concat sample_parts)"
    "om_total_size_bytes sample_object \<le> u64_max" "(1::nat) < 4" "4 \<le> length (concat sample_parts)"
    by (simp_all add: sample_object_def sample_parts_def)
  have "missing_chunks_for_manifest_range sample_env ?cs ?h 1 4 = Inr [ref_of sample_env ''o'']"
    unfolding missing_chunks_for_manifest_range_def range_manifest_def sample_holder_manifest
    using sample_hashes
    by (simp add: sample_object_def sample_parts_def sample_holder_def ref_of_def missing_range_chunk_def sat_add_u64_def
        local_chunk_matches_ref_def validate_chunk_integrity_def Let_def)
  moreover have "set [''o''] \<subseteq> set sample_parts" "map (ref_of sample_env) [''o''] = [ref_of sample_env ''o'']"
    by (simp_all add: sample_parts_def)
  ultimately have "\<exists>files. ingest_all sample_env [''o''] (cs_chunks ?cs) = Some files \<and>
      read_object_range_by_manifest_hash sample_env (?cs\<lparr>cs_chunks := files\<rparr>) ?h 1 4 = Inr (take (4 - 1) (drop 1 (concat sample_parts)))"
    using fetched_range_reads [OF sample_env_ok free subset_refl sample_holder_manifest m] by (metis sum.inject(2))
  then show ?thesis by (simp add: sample_parts_def)
qed

end
