(* ===== verification/Storage_Pool.thy ===== *)
theory Storage_Pool
  imports Content_Store
begin

text \<open>
  The pool of directories that hold chunk and manifest files (crates/server-node-sdk/src/storage/mod.rs):
  where a file is read from and written to, the records of the locations in the database, moving files
  out of a draining directory, and what a restart makes of locations that were being written.

  A file is named by the id of its directory, its kind and its hash; validated directories do not
  overlap.  Every operation is a list of effects on the files, the database and the location maps, so that a
  crash is a prefix of that list.  Free space, the rendezvous score of a directory, the clock and
  whether a write succeeds are parameters; a write that fails does so before it replaces the target, as
  the content goes to a temporary file first.
\<close>

section \<open>Configuration\<close>

datatype storage_path_state = Active | Draining | Disabled

record storage_path_config =
  pc_id :: string
  pc_path :: string
  pc_state :: storage_path_state
  pc_weight :: nat
  pc_reserve_bytes :: u64

record storage_pool_config =
  pg_version :: nat
  pg_paths :: "storage_path_config list"

definition STORAGE_POOL_CONFIG_VERSION :: nat where
  "STORAGE_POOL_CONFIG_VERSION = 1"

definition legacy_config :: "string \<Rightarrow> storage_pool_config" where
  "legacy_config root_dir = \<lparr>pg_version = STORAGE_POOL_CONFIG_VERSION,
     pg_paths = [\<lparr>pc_id = ''legacy-primary'', pc_path = root_dir, pc_state = Active, pc_weight = 1, pc_reserve_bytes = 0\<rparr>]\<rparr>"

datatype pool_config_error =
    UnsupportedVersion | NoPaths | InvalidPathId | ZeroWeight | EmptyPath | DuplicatePathId | Unresolvable | OverlappingPaths

definition is_path_id_char :: "char \<Rightarrow> bool" where
  "is_path_id_char c =
     (let n = of_char c :: nat in
      (48 \<le> n \<and> n \<le> 57) \<or> (65 \<le> n \<and> n \<le> 90) \<or> (97 \<le> n \<and> n \<le> 122) \<or> c = CHR ''-'' \<or> c = CHR ''_'')"

definition validate_storage_path_config :: "storage_path_config \<Rightarrow> pool_config_error option" where
  "validate_storage_path_config p =
     (if pc_id p = [] \<or> \<not> list_all is_path_id_char (pc_id p) then Some InvalidPathId
      else if pc_weight p = 0 then Some ZeroWeight
      else if pc_path p = [] then Some EmptyPath
      else None)"

text \<open>The components of the directory a configured path stands for are a parameter (none if it is not
  a directory or cannot be resolved).  One path prefixes another by components.\<close>

fun validate_paths ::
  "(string \<Rightarrow> string list option) \<Rightarrow> storage_path_config list \<Rightarrow> string list \<Rightarrow> string list list \<Rightarrow> pool_config_error option" where
  "validate_paths resolve [] ids seen = None"
| "validate_paths resolve (p # ps) ids seen =
     (case validate_storage_path_config p of
        Some e \<Rightarrow> Some e
      | None \<Rightarrow>
          if pc_id p \<in> set ids then Some DuplicatePathId
          else (case resolve (pc_path p) of
                  None \<Rightarrow> Some Unresolvable
                | Some d \<Rightarrow>
                    if list_ex (\<lambda>x. prefix x d \<or> prefix d x) seen then Some OverlappingPaths
                    else validate_paths resolve ps (pc_id p # ids) (seen @ [d])))"

definition validate_storage_pool_config :: "(string \<Rightarrow> string list option) \<Rightarrow> storage_pool_config \<Rightarrow> pool_config_error option" where
  "validate_storage_pool_config resolve config =
     (if pg_version config \<noteq> STORAGE_POOL_CONFIG_VERSION then Some UnsupportedVersion
      else if pg_paths config = [] then Some NoPaths
      else validate_paths resolve (pg_paths config) [] [])"

section \<open>State\<close>

datatype storage_content_kind = Chunk | Manifest

datatype storage_location_state = Pending | Available

record storage_location =
  lo_kind :: storage_content_kind
  lo_hash :: string
  lo_path_id :: string
  lo_size_bytes :: u64
  lo_state :: storage_location_state

record storage_path_runtime =
  pr_config :: storage_path_config
  pr_available :: bool

record storage_pool =
  pool_paths :: "storage_path_runtime list"
  pool_chunk_locations :: "(string, string) hashmap"
  pool_manifest_locations :: "(string, string) hashmap"

record stored_file =
  sf_payload :: bytes
  sf_modified :: u64

type_synonym file_key = "string \<times> storage_content_kind \<times> string"

record pool_state =
  ps_pool :: storage_pool
  ps_files :: "(file_key, stored_file) hashmap"
  ps_db :: "(storage_content_kind \<times> string, storage_location) hashmap"

text \<open>What the operations get from outside.\<close>

record pool_io =
  io_free :: "string \<Rightarrow> u64 option"
  io_score :: "string \<Rightarrow> string \<Rightarrow> u64"
  io_now :: u64
  io_write_ok :: "file_key \<Rightarrow> bool"

text \<open>Opening the pool: every directory that exists carries a marker with its id and its node.  The
  markers by directory are threaded through, as they are written also when the pool is then refused.\<close>

record storage_path_marker =
  mk_version :: nat
  mk_path_id :: string
  mk_node_id :: "string option"

definition ensure_storage_path_marker ::
  "storage_path_config \<Rightarrow> string option \<Rightarrow> (string, storage_path_marker) hashmap \<Rightarrow> (string, storage_path_marker) hashmap option" where
  "ensure_storage_path_marker config node_id markers =
     (let expected = \<lparr>mk_version = STORAGE_POOL_CONFIG_VERSION, mk_path_id = pc_id config, mk_node_id = node_id\<rparr> in
      case map_of markers (pc_path config) of
        Some marker \<Rightarrow> if marker \<noteq> expected then None else Some markers
      | None \<Rightarrow> Some (hm_insert (pc_path config) expected markers))"

fun open_paths ::
  "(string \<Rightarrow> bool) \<Rightarrow> string option \<Rightarrow> storage_path_config list \<Rightarrow> (string, storage_path_marker) hashmap
     \<Rightarrow> storage_path_runtime list option \<times> (string, storage_path_marker) hashmap" where
  "open_paths exists node_id [] markers = (Some [], markers)"
| "open_paths exists node_id (p # ps) markers =
     (if \<not> exists (pc_path p) then
        (case open_paths exists node_id ps markers of
           (paths, markers') \<Rightarrow> (map_option (Cons \<lparr>pr_config = p, pr_available = False\<rparr>) paths, markers'))
      else (case ensure_storage_path_marker p node_id markers of
              None \<Rightarrow> (None, markers)
            | Some markers1 \<Rightarrow>
                (case open_paths exists node_id ps markers1 of
                   (paths, markers') \<Rightarrow> (map_option (Cons \<lparr>pr_config = p, pr_available = True\<rparr>) paths, markers'))))"

definition pool_from_config ::
  "(string \<Rightarrow> string list option) \<Rightarrow> (string \<Rightarrow> bool) \<Rightarrow> string option \<Rightarrow> storage_pool_config \<Rightarrow> (string, storage_path_marker) hashmap
     \<Rightarrow> storage_pool option \<times> (string, storage_path_marker) hashmap" where
  "pool_from_config resolve exists node_id config markers =
     (if validate_storage_pool_config resolve config \<noteq> None then (None, markers)
      else (case open_paths exists node_id (pg_paths config) markers of
              (None, markers') \<Rightarrow> (None, markers')
            | (Some paths, markers') \<Rightarrow>
                if \<not> list_ex (\<lambda>p. pr_available p \<and> pc_state (pr_config p) = Active) paths then (None, markers')
                else (Some \<lparr>pool_paths = paths, pool_chunk_locations = [], pool_manifest_locations = []\<rparr>, markers')))"

section \<open>Where content is\<close>

definition content_name_ok :: "storage_content_kind \<Rightarrow> string \<Rightarrow> bool" where
  "content_name_ok kind h = (case kind of Chunk \<Rightarrow> chunk_hash_ok h | Manifest \<Rightarrow> manifest_hash_looks_safe_filename h)"

definition pool_path :: "storage_pool \<Rightarrow> string \<Rightarrow> storage_path_runtime option" where
  "pool_path pool i = find (\<lambda>p. pc_id (pr_config p) = i) (pool_paths pool)"

definition legacy_read_path :: "storage_pool \<Rightarrow> storage_path_runtime option" where
  "legacy_read_path pool =
     or_else (find (\<lambda>p. pr_available p \<and> pc_id (pr_config p) = ''legacy-primary'') (pool_paths pool))
             (find pr_available (pool_paths pool))"

fun location_of :: "storage_pool \<Rightarrow> storage_content_kind \<Rightarrow> string \<Rightarrow> string option" where
  "location_of pool Chunk h = map_of (pool_chunk_locations pool) h"
| "location_of pool Manifest h = map_of (pool_manifest_locations pool) h"

fun set_location :: "storage_content_kind \<Rightarrow> string \<Rightarrow> string \<Rightarrow> storage_pool \<Rightarrow> storage_pool" where
  "set_location Chunk h i pool = pool\<lparr>pool_chunk_locations := hm_insert h i (pool_chunk_locations pool)\<rparr>"
| "set_location Manifest h i pool = pool\<lparr>pool_manifest_locations := hm_insert h i (pool_manifest_locations pool)\<rparr>"

fun remove_location :: "storage_content_kind \<Rightarrow> string \<Rightarrow> storage_pool \<Rightarrow> storage_pool" where
  "remove_location Chunk h pool = pool\<lparr>pool_chunk_locations := hm_remove h (pool_chunk_locations pool)\<rparr>"
| "remove_location Manifest h pool = pool\<lparr>pool_manifest_locations := hm_remove h (pool_manifest_locations pool)\<rparr>"

text \<open>The id of the directory content is read from.\<close>

definition content_path :: "storage_pool \<Rightarrow> storage_content_kind \<Rightarrow> string \<Rightarrow> string option" where
  "content_path pool kind h =
     (case or_else (Option.bind (location_of pool kind h) (pool_path pool)) (legacy_read_path pool) of
        None \<Rightarrow> None
      | Some p \<Rightarrow> if content_name_ok kind h then Some (pc_id (pr_config p)) else None)"

definition note_location :: "storage_location \<Rightarrow> storage_pool \<Rightarrow> storage_pool" where
  "note_location l pool =
     (if lo_state l \<noteq> Available then pool else set_location (lo_kind l) (lo_hash l) (lo_path_id l) pool)"

definition load_locations :: "storage_location list \<Rightarrow> storage_pool \<Rightarrow> storage_pool" where
  "load_locations ls pool =
     fold (\<lambda>l pool. if lo_state l \<noteq> Available \<or> pool_path pool (lo_path_id l) = None then pool
                     else set_location (lo_kind l) (lo_hash l) (lo_path_id l) pool) ls pool"

definition forget_location_at_path :: "storage_content_kind \<Rightarrow> string \<Rightarrow> string \<Rightarrow> storage_pool \<Rightarrow> bool \<times> storage_pool" where
  "forget_location_at_path kind h i pool =
     (case Option.bind (location_of pool kind h) (pool_path pool) of
        None \<Rightarrow> (False, pool)
      | Some p \<Rightarrow>
          if content_name_ok kind h \<and> pc_id (pr_config p) = i then (True, remove_location kind h pool) else (False, pool))"

section \<open>Choice of a directory to write to\<close>

definition write_score :: "pool_io \<Rightarrow> string \<Rightarrow> u64 \<Rightarrow> storage_path_runtime \<Rightarrow> nat option" where
  "write_score io h expected_size p =
     (if \<not> pr_available p \<or> pc_state (pr_config p) \<noteq> Active then None
      else (case io_free io (pc_id (pr_config p)) of
              None \<Rightarrow> None
            | Some free_bytes \<Rightarrow>
                let usable = free_bytes - pc_reserve_bytes (pr_config p) in
                if usable < expected_size then None
                else Some (usable * pc_weight (pr_config p) + io_score io h (pc_id (pr_config p)) div 2 ^ 16)))"

fun select_path :: "(storage_path_runtime \<Rightarrow> nat option) \<Rightarrow> storage_path_runtime list
    \<Rightarrow> (storage_path_runtime \<times> nat) option \<Rightarrow> (storage_path_runtime \<times> nat) option" where
  "select_path score [] selected = selected"
| "select_path score (p # ps) selected =
     (case score p of
        None \<Rightarrow> select_path score ps selected
      | Some n \<Rightarrow>
          if (case selected of None \<Rightarrow> True | Some (_, current) \<Rightarrow> current < n)
          then select_path score ps (Some (p, n)) else select_path score ps selected)"

definition select_write_path :: "pool_io \<Rightarrow> storage_pool \<Rightarrow> string \<Rightarrow> u64 \<Rightarrow> storage_path_runtime option" where
  "select_write_path io pool h expected_size =
     map_option fst (select_path (write_score io h expected_size) (pool_paths pool) None)"

text \<open>Capacity and free space, each volume counted once.  The volume of a path and its sizes are
  parameters (none if the call fails).\<close>

fun capacity_loop ::
  "(string \<Rightarrow> nat option) \<Rightarrow> (string \<Rightarrow> u64 option) \<Rightarrow> (string \<Rightarrow> u64 option) \<Rightarrow> storage_path_runtime list
     \<Rightarrow> nat list \<Rightarrow> u64 \<Rightarrow> u64 \<Rightarrow> (u64 \<times> u64) option" where
  "capacity_loop volume_of total_space available_space [] seen capacity free = Some (capacity, free)"
| "capacity_loop volume_of total_space available_space (p # ps) seen capacity free =
     (let path = pc_path (pr_config p) in
      if \<not> pr_available p \<or> pc_state (pr_config p) = Disabled
      then capacity_loop volume_of total_space available_space ps seen capacity free
      else (case volume_of path of
              None \<Rightarrow> None
            | Some v \<Rightarrow>
                if v \<in> set seen then capacity_loop volume_of total_space available_space ps seen capacity free
                else (case (total_space path, available_space path) of
                        (Some path_capacity, Some path_free) \<Rightarrow>
                          capacity_loop volume_of total_space available_space ps (v # seen)
                            (sat_add_u64 capacity path_capacity) (sat_add_u64 free (min path_free path_capacity))
                      | _ \<Rightarrow> None)))"

definition aggregate_capacity ::
  "(string \<Rightarrow> nat option) \<Rightarrow> (string \<Rightarrow> u64 option) \<Rightarrow> (string \<Rightarrow> u64 option) \<Rightarrow> storage_pool \<Rightarrow> (u64 \<times> u64) option" where
  "aggregate_capacity volume_of total_space available_space pool =
     capacity_loop volume_of total_space available_space (pool_paths pool) [] 0 0"

section \<open>Effects\<close>

datatype effect =
    DbPut storage_location
  | DbDelete storage_content_kind string
  | RemoveFile file_key
  | CreateFile file_key stored_file
  | NoteLocation storage_location

fun apply_effect :: "effect \<Rightarrow> pool_state \<Rightarrow> pool_state" where
  "apply_effect (DbPut l) s = s\<lparr>ps_db := hm_insert (lo_kind l, lo_hash l) l (ps_db s)\<rparr>"
| "apply_effect (DbDelete kind h) s = s\<lparr>ps_db := hm_remove (kind, h) (ps_db s)\<rparr>"
| "apply_effect (RemoveFile k) s = s\<lparr>ps_files := hm_remove k (ps_files s)\<rparr>"
| "apply_effect (CreateFile k f) s = s\<lparr>ps_files := hm_insert k f (ps_files s)\<rparr>"
| "apply_effect (NoteLocation l) s = s\<lparr>ps_pool := note_location l (ps_pool s)\<rparr>"

abbreviation run_effects :: "effect list \<Rightarrow> pool_state \<Rightarrow> pool_state" where
  "run_effects es s \<equiv> fold apply_effect es s"

text \<open>\<open>write_atomic_overwrite\<close>: the old file is removed before the temporary one is renamed.\<close>

definition write_atomic_overwrite :: "pool_io \<Rightarrow> file_key \<Rightarrow> bytes \<Rightarrow> pool_state \<Rightarrow> effect list" where
  "write_atomic_overwrite io k payload s =
     (if map_of (ps_files s) k \<noteq> None then [RemoveFile k] else []) @
     [CreateFile k \<lparr>sf_payload = payload, sf_modified = io_now io\<rparr>]"

text \<open>Writing content to a directory, which persisting and relocating share.\<close>

definition store_effects :: "pool_io \<Rightarrow> storage_content_kind \<Rightarrow> string \<Rightarrow> bytes \<Rightarrow> string \<Rightarrow> pool_state \<Rightarrow> effect list" where
  "store_effects io kind h payload target s =
     (let location = \<lparr>lo_kind = kind, lo_hash = h, lo_path_id = target, lo_size_bytes = length payload, lo_state = Pending\<rparr>;
          available = location\<lparr>lo_state := Available\<rparr>
      in DbPut location #
         (if io_write_ok io (target, kind, h)
          then write_atomic_overwrite io (target, kind, h) payload s @ [DbPut available, NoteLocation available]
          else [DbDelete kind h]))"

definition persist_effects ::
  "content_env \<Rightarrow> pool_io \<Rightarrow> storage_content_kind \<Rightarrow> string \<Rightarrow> bytes \<Rightarrow> pool_state \<Rightarrow> (bool \<times> bool) option \<times> effect list" where
  "persist_effects env io kind h payload s =
     (case content_path (ps_pool s) kind h of
        None \<Rightarrow> (None, [])
      | Some i \<Rightarrow>
          let existing = map_of (ps_files s) (i, kind, h) in
          if (case existing of Some f \<Rightarrow> ce_hash_hex env (sf_payload f) = h | None \<Rightarrow> False) then (Some (False, False), [])
          else (case select_write_path io (ps_pool s) h (length payload) of
                  None \<Rightarrow> (None, [])
                | Some target \<Rightarrow>
                    let t = pc_id (pr_config target)
                    in (if io_write_ok io (t, kind, h) then Some (True, existing \<noteq> None) else None,
                        store_effects io kind h payload t s)))"

definition persist_in_pool ::
  "content_env \<Rightarrow> pool_io \<Rightarrow> storage_content_kind \<Rightarrow> string \<Rightarrow> bytes \<Rightarrow> pool_state \<Rightarrow> (bool \<times> bool) option \<times> pool_state" where
  "persist_in_pool env io kind h payload s =
     (case persist_effects env io kind h payload s of (r, es) \<Rightarrow> (r, run_effects es s))"

section \<open>Rebalancing\<close>

definition relocate_effects ::
  "content_env \<Rightarrow> pool_io \<Rightarrow> storage_content_kind \<Rightarrow> string \<Rightarrow> string \<Rightarrow> pool_state \<Rightarrow> bool option \<times> effect list" where
  "relocate_effects env io kind h source s =
     (case map_of (ps_files s) (source, kind, h) of
        None \<Rightarrow> (None, [])
      | Some f \<Rightarrow>
          if ce_hash_hex env (sf_payload f) \<noteq> h then (None, [])
          else (case select_write_path io (ps_pool s) h (length (sf_payload f)) of
                  None \<Rightarrow> (None, [])
                | Some target \<Rightarrow>
                    let t = pc_id (pr_config target) in
                    if t = source then (Some False, [])
                    else if io_write_ok io (t, kind, h)
                    then (Some True, store_effects io kind h (sf_payload f) t s @ [RemoveFile (source, kind, h)])
                    else (None, store_effects io kind h (sf_payload f) t s)))"

definition relocate_storage_content ::
  "content_env \<Rightarrow> pool_io \<Rightarrow> storage_content_kind \<Rightarrow> string \<Rightarrow> string \<Rightarrow> pool_state \<Rightarrow> bool option \<times> pool_state" where
  "relocate_storage_content env io kind h source s =
     (case relocate_effects env io kind h source s of (r, es) \<Rightarrow> (r, run_effects es s))"

text \<open>The files of one kind in a directory, as they are listed.\<close>

definition collect_storage_content_files :: "string \<Rightarrow> storage_content_kind \<Rightarrow> pool_state \<Rightarrow> string list" where
  "collect_storage_content_files i kind s = map (snd \<circ> snd) (filter (\<lambda>(i', kind', h). i' = i \<and> kind' = kind) (hm_keys (ps_files s)))"

text \<open>The loop over the files of a directory: whether it completed, how many were moved and skipped.\<close>

fun relocate_files ::
  "content_env \<Rightarrow> pool_io \<Rightarrow> storage_content_kind \<Rightarrow> string \<Rightarrow> string list \<Rightarrow> usize \<times> usize \<Rightarrow> pool_state
     \<Rightarrow> bool \<times> (usize \<times> usize) \<times> pool_state" where
  "relocate_files env io kind i [] report s = (True, report, s)"
| "relocate_files env io kind i (h # hs) (moved, skipped) s =
     (if \<not> content_name_ok kind h then relocate_files env io kind i hs (moved, skipped + 1) s
      else (case relocate_storage_content env io kind h i s of
              (None, s1) \<Rightarrow> (False, (moved, skipped), s1)
            | (Some b, s1) \<Rightarrow> relocate_files env io kind i hs (if b then moved + 1 else moved, skipped) s1))"

record rebalance_report =
  rr_moved_chunks :: usize
  rr_moved_manifests :: usize
  rr_skipped_invalid_entries :: usize

fun rebalance_paths ::
  "content_env \<Rightarrow> pool_io \<Rightarrow> string list \<Rightarrow> rebalance_report \<Rightarrow> pool_state \<Rightarrow> rebalance_report option \<times> pool_state" where
  "rebalance_paths env io [] report s = (Some report, s)"
| "rebalance_paths env io (i # is) report s =
     (case relocate_files env io Chunk i (collect_storage_content_files i Chunk s)
             (rr_moved_chunks report, rr_skipped_invalid_entries report) s of
        (False, _, s1) \<Rightarrow> (None, s1)
      | (True, (nc, skipped), s1) \<Rightarrow>
          (case relocate_files env io Manifest i (collect_storage_content_files i Manifest s1)
                  (rr_moved_manifests report, skipped) s1 of
             (False, _, s2) \<Rightarrow> (None, s2)
           | (True, (nm, skipped'), s2) \<Rightarrow>
               rebalance_paths env io is
                 \<lparr>rr_moved_chunks = nc, rr_moved_manifests = nm, rr_skipped_invalid_entries = skipped'\<rparr> s2))"

definition draining_paths :: "storage_pool \<Rightarrow> string list" where
  "draining_paths pool =
     map (pc_id \<circ> pr_config) (filter (\<lambda>p. pr_available p \<and> pc_state (pr_config p) = Draining) (pool_paths pool))"

definition rebalance_storage_pool :: "content_env \<Rightarrow> pool_io \<Rightarrow> pool_state \<Rightarrow> rebalance_report option \<times> pool_state" where
  "rebalance_storage_pool env io s =
     rebalance_paths env io (draining_paths (ps_pool s))
       \<lparr>rr_moved_chunks = 0, rr_moved_manifests = 0, rr_skipped_invalid_entries = 0\<rparr> s"

section \<open>Restart\<close>

definition kind_payload_hash_matches :: "content_env \<Rightarrow> (file_key, stored_file) hashmap \<Rightarrow> file_key \<Rightarrow> u64 \<Rightarrow> bool" where
  "kind_payload_hash_matches env files k expected_size =
     (case map_of files k of
        None \<Rightarrow> False
      | Some f \<Rightarrow> length (sf_payload f) = expected_size \<and> ce_hash_hex env (sf_payload f) = snd (snd k))"

definition recover_location :: "content_env \<Rightarrow> storage_location \<Rightarrow> pool_state \<Rightarrow> pool_state" where
  "recover_location env l s =
     (if lo_state l \<noteq> Pending then s
      else if pool_path (ps_pool s) (lo_path_id l) = None \<or> \<not> content_name_ok (lo_kind l) (lo_hash l)
      then apply_effect (DbDelete (lo_kind l) (lo_hash l)) s
      else if kind_payload_hash_matches env (ps_files s) (lo_path_id l, lo_kind l, lo_hash l) (lo_size_bytes l)
      then run_effects [DbPut (l\<lparr>lo_state := Available\<rparr>), NoteLocation (l\<lparr>lo_state := Available\<rparr>)] s
      else apply_effect (DbDelete (lo_kind l) (lo_hash l)) s)"

definition recover_pending_storage_locations :: "content_env \<Rightarrow> storage_location list \<Rightarrow> pool_state \<Rightarrow> pool_state" where
  "recover_pending_storage_locations env ls s = fold (recover_location env) ls s"

text \<open>The part of \<open>init\<close> about locations: the maps are built anew from the database.\<close>

definition restart :: "content_env \<Rightarrow> pool_state \<Rightarrow> pool_state" where
  "restart env s =
     (let ls = hm_values (ps_db s);
          pool = load_locations ls ((ps_pool s)\<lparr>pool_chunk_locations := [], pool_manifest_locations := []\<rparr>)
      in recover_pending_storage_locations env ls (s\<lparr>ps_pool := pool\<rparr>))"

section \<open>The configuration\<close>

lemma validate_paths_ok:
  assumes "validate_paths resolve ps ids seen = None"
  shows "distinct (map pc_id ps) \<and> set (map pc_id ps) \<inter> set ids = {} \<and>
    (\<forall>p\<in>set ps. validate_storage_path_config p = None) \<and>
    (\<exists>ds. map (resolve \<circ> pc_path) ps = map Some ds \<and>
      (\<forall>d\<in>set ds. \<forall>x\<in>set seen. \<not> prefix x d \<and> \<not> prefix d x) \<and>
      sorted_wrt (\<lambda>a b. \<not> prefix a b \<and> \<not> prefix b a) ds)"
  using assms
proof (induction ps arbitrary: ids seen)
  case (Cons p ps)
  then obtain d where v: "validate_storage_path_config p = None" "pc_id p \<notin> set ids" "resolve (pc_path p) = Some d"
    "\<not> list_ex (\<lambda>x. prefix x d \<or> prefix d x) seen" "validate_paths resolve ps (pc_id p # ids) (seen @ [d]) = None"
    by (auto split: option.splits if_splits)
  from Cons.IH [OF v(5)] obtain ds where ds: "map (resolve \<circ> pc_path) ps = map Some ds"
    "\<forall>y\<in>set ds. \<forall>x\<in>set (seen @ [d]). \<not> prefix x y \<and> \<not> prefix y x"
    "sorted_wrt (\<lambda>a b. \<not> prefix a b \<and> \<not> prefix b a) ds"
    and rest: "distinct (map pc_id ps)" "set (map pc_id ps) \<inter> set (pc_id p # ids) = {}"
    "\<forall>p\<in>set ps. validate_storage_path_config p = None" by (auto simp del: o_apply)
  have e: "\<exists>ds. map (resolve \<circ> pc_path) (p # ps) = map Some ds \<and>
      (\<forall>d\<in>set ds. \<forall>x\<in>set seen. \<not> prefix x d \<and> \<not> prefix d x) \<and>
      sorted_wrt (\<lambda>a b. \<not> prefix a b \<and> \<not> prefix b a) ds"
    using ds v(3,4) by (intro exI [of _ "d # ds"]) (auto simp: list_ex_iff)
  show ?case using v rest by (intro conjI e) auto
qed simp

lemma sat_add_mono: "a \<le> c \<Longrightarrow> b \<le> d \<Longrightarrow> sat_add_u64 a b \<le> sat_add_u64 c d"
  by (simp add: sat_add_u64_def min_def)

lemma capacity_loop_free_le:
  "capacity_loop v t a ps seen c f = Some (c', f') \<Longrightarrow> f \<le> c \<Longrightarrow> f' \<le> c'"
  by (induction v t a ps seen c f rule: capacity_loop.induct)
    (auto simp: Let_def sat_add_mono split: if_splits option.splits)

text \<open>The reported free space is at most the reported capacity.\<close>

lemma aggregate_capacity_bounded:
  "aggregate_capacity v t a pool = Some (c, f) \<Longrightarrow> f \<le> c"
  by (auto simp: aggregate_capacity_def dest: capacity_loop_free_le)

lemma marker_kept:
  "open_paths exists n ps ms = (r, ms') \<Longrightarrow> map_of ms d = Some m \<Longrightarrow> map_of ms' d = Some m"
proof (induction exists n ps ms arbitrary: r ms' rule: open_paths.induct)
  case (2 exists n q ps ms)
  show ?case
  proof (cases "exists (pc_path q)")
    case False
    with 2 show ?thesis by (auto split: prod.splits)
  next
    case True
    have "map_of ms1 d = Some m" if "ensure_storage_path_marker q n ms = Some ms1" for ms1
      using that "2.prems"(2) by (auto simp: ensure_storage_path_marker_def update_conv Let_def split: if_splits option.splits)
    with True 2 show ?thesis by (auto split: prod.splits option.splits)
  qed
qed simp

lemma opened_marked:
  "open_paths exists n ps ms = (Some rs, ms') \<Longrightarrow> p \<in> set ps \<Longrightarrow> exists (pc_path p)
     \<Longrightarrow> \<exists>m. map_of ms' (pc_path p) = Some m \<and> mk_node_id m = n \<and> mk_path_id m = pc_id p"
proof (induction exists n ps ms arbitrary: rs ms' rule: open_paths.induct)
  case (2 exists n q ps ms)
  show ?case
  proof (cases "exists (pc_path q)")
    case False
    with 2 show ?thesis by (auto split: prod.splits)
  next
    case True
    with "2.prems"(1) obtain ms1 rs' where o: "ensure_storage_path_marker q n ms = Some ms1"
      "open_paths exists n ps ms1 = (Some rs', ms')" by (auto split: option.splits prod.splits)
    then have "\<exists>m. map_of ms1 (pc_path q) = Some m \<and> mk_node_id m = n \<and> mk_path_id m = pc_id q"
      by (auto simp: ensure_storage_path_marker_def update_conv Let_def split: if_splits option.splits)
    with marker_kept [OF o(2)] "2.IH"(2) [OF _ o(1) o(2)] True "2.prems" show ?thesis by auto
  qed
qed simp

text \<open>A directory belongs to one node: once a node has opened a pool, another one cannot open a pool
  with any directory of it.\<close>

lemma directory_of_one_node:
  assumes "pool_from_config resolve exists a config ms = (Some pool, ms')"
    and "p \<in> set (pg_paths config)" "exists (pc_path p)"
    and "q \<in> set (pg_paths config')" "pc_path q = pc_path p" "a \<noteq> b"
  shows "fst (pool_from_config resolve' exists b config' ms') = None"
proof (rule ccontr)
  assume "fst (pool_from_config resolve' exists b config' ms') \<noteq> None"
  then obtain rs ms'' where o: "open_paths exists b (pg_paths config') ms' = (Some rs, ms'')"
    by (auto simp: pool_from_config_def split: if_splits prod.splits option.splits)
  obtain rs0 where o0: "open_paths exists a (pg_paths config) ms = (Some rs0, ms')"
    using assms(1) by (auto simp: pool_from_config_def split: if_splits prod.splits option.splits)
  from opened_marked [OF o0 assms(2,3)] obtain m where m: "map_of ms' (pc_path p) = Some m" "mk_node_id m = a" by auto
  from opened_marked [OF o assms(4)] assms(3,5) marker_kept [OF o m(1)] m(2) assms(6) show False by auto
qed

section \<open>What an effect leaves alone\<close>

lemma location_of_set [simp]:
  "location_of (set_location kind h i pool) kind' h' = (if kind' = kind \<and> h' = h then Some i else location_of pool kind' h')"
  by (cases kind; cases kind') (auto simp: update_conv)

lemma location_of_remove [simp]:
  "location_of (remove_location kind h pool) kind' h' = (if kind' = kind \<and> h' = h then None else location_of pool kind' h')"
  by (cases kind; cases kind') (auto simp: delete_conv)

lemma paths_set_location [simp]:
  "pool_paths (set_location kind h i pool) = pool_paths pool" "pool_paths (remove_location kind h pool) = pool_paths pool"
  "pool_paths (note_location l pool) = pool_paths pool"
  by (cases kind; simp)+ (cases "lo_kind l"; simp add: note_location_def)

lemma pool_path_cong: "pool_paths p = pool_paths q \<Longrightarrow> pool_path p = pool_path q"
  by (auto simp: pool_path_def fun_eq_iff)

lemma location_of_note [simp]:
  "location_of (note_location l pool) kind h =
     (if lo_state l = Available \<and> kind = lo_kind l \<and> h = lo_hash l then Some (lo_path_id l) else location_of pool kind h)"
  by (auto simp: note_location_def)

text \<open>Two states that agree on everything about one content.\<close>

definition same_at :: "storage_content_kind \<Rightarrow> string \<Rightarrow> pool_state \<Rightarrow> pool_state \<Rightarrow> bool" where
  "same_at kind h s t \<longleftrightarrow> pool_paths (ps_pool s) = pool_paths (ps_pool t) \<and>
     location_of (ps_pool s) kind h = location_of (ps_pool t) kind h \<and>
     map_of (ps_db s) (kind, h) = map_of (ps_db t) (kind, h) \<and>
     (\<forall>i. map_of (ps_files s) (i, kind, h) = map_of (ps_files t) (i, kind, h))"

lemma same_at_refl [simp]: "same_at kind h s s"
  by (simp add: same_at_def)

lemma same_at_trans: "same_at kind h s t \<Longrightarrow> same_at kind h t u \<Longrightarrow> same_at kind h s u"
  by (simp add: same_at_def)

fun effect_key :: "effect \<Rightarrow> storage_content_kind \<times> string" where
  "effect_key (DbPut l) = (lo_kind l, lo_hash l)"
| "effect_key (DbDelete kind h) = (kind, h)"
| "effect_key (RemoveFile k) = snd k"
| "effect_key (CreateFile k f) = snd k"
| "effect_key (NoteLocation l) = (lo_kind l, lo_hash l)"

lemma effect_frame: "effect_key e \<noteq> (kind, h) \<Longrightarrow> same_at kind h s (apply_effect e s)"
  by (cases e) (auto simp: same_at_def update_conv delete_conv)

lemma effects_frame:
  "\<forall>e\<in>set es. effect_key e \<noteq> (kind, h) \<Longrightarrow> same_at kind h s (run_effects es s)"
proof (induction es arbitrary: s)
  case (Cons e es)
  then have "same_at kind h s (apply_effect e s)" "same_at kind h (apply_effect e s) (run_effects es (apply_effect e s))"
    by (auto intro: effect_frame)
  then show ?case by (auto intro: same_at_trans)
qed simp

lemma paths_effects [simp]: "pool_paths (ps_pool (run_effects es s)) = pool_paths (ps_pool s)"
proof (induction es arbitrary: s)
  case (Cons e es)
  then show ?case by (cases e) auto
qed simp

lemma store_effects_key: "e \<in> set (store_effects io kind h payload t s) \<Longrightarrow> effect_key e = (kind, h)"
  by (auto simp: store_effects_def write_atomic_overwrite_def Let_def split: if_splits)

lemma persist_effects_key: "e \<in> set (snd (persist_effects env io kind h payload s)) \<Longrightarrow> effect_key e = (kind, h)"
  by (auto simp: persist_effects_def Let_def dest: store_effects_key split: option.splits if_splits)

lemma relocate_effects_key: "e \<in> set (snd (relocate_effects env io kind h src s)) \<Longrightarrow> effect_key e = (kind, h)"
  by (auto simp: relocate_effects_def Let_def dest: store_effects_key split: option.splits if_splits)

section \<open>The content of a pool\<close>

definition content_at :: "pool_state \<Rightarrow> storage_content_kind \<Rightarrow> string \<Rightarrow> bytes option" where
  "content_at s kind h =
     (case content_path (ps_pool s) kind h of
        None \<Rightarrow> None
      | Some i \<Rightarrow> map_option sf_payload (map_of (ps_files s) (i, kind, h)))"

definition readable :: "content_env \<Rightarrow> pool_state \<Rightarrow> storage_content_kind \<Rightarrow> string \<Rightarrow> bool" where
  "readable env s kind h \<longleftrightarrow> (case content_at s kind h of None \<Rightarrow> False | Some p \<Rightarrow> ce_hash_hex env p = h)"

lemma content_at_db [simp]: "content_at (s\<lparr>ps_db := db\<rparr>) = content_at s"
  by (auto simp: content_at_def fun_eq_iff split: option.splits)

lemma content_path_same: "same_at kind h s t \<Longrightarrow> content_path (ps_pool s) kind h = content_path (ps_pool t) kind h"
  using pool_path_cong [of "ps_pool s" "ps_pool t"] by (simp add: same_at_def content_path_def legacy_read_path_def)

lemma content_at_same: "same_at kind h s t \<Longrightarrow> content_at s kind h = content_at t kind h"
  by (frule content_path_same) (auto simp: content_at_def same_at_def split: option.splits)

lemma readable_same: "same_at kind h s t \<Longrightarrow> readable env s kind h = readable env t kind h"
  by (simp add: readable_def content_at_same)

lemma content_path_located:
  assumes "location_of pool kind h = Some i" "p \<in> set (pool_paths pool)" "pc_id (pr_config p) = i" "content_name_ok kind h"
  shows "content_path pool kind h = Some i"
proof -
  have "pool_path pool i \<noteq> None" using assms(2,3) by (auto simp: pool_path_def find_None_iff)
  then obtain q where "pool_path pool i = Some q" by blast
  moreover from this have "pc_id (pr_config q) = i" by (auto simp: pool_path_def dest: find_SomeD)
  ultimately show ?thesis using assms by (simp add: content_path_def)
qed

lemma select_path_in:
  "select_path score ps sel = Some (p, n) \<Longrightarrow> (p \<in> set ps \<and> score p = Some n) \<or> sel = Some (p, n)"
  by (induction score ps sel rule: select_path.induct) (auto split: option.splits if_splits)

lemma select_path_max:
  "select_path score ps sel = Some (p, n) \<Longrightarrow>
     (\<forall>q\<in>set ps. \<forall>m. score q = Some m \<longrightarrow> m \<le> n) \<and> (\<forall>q m. sel = Some (q, m) \<longrightarrow> m \<le> n)"
proof (induction score ps sel rule: select_path.induct)
  case (2 score q ps sel)
  show ?case
  proof (cases "score q")
    case None
    with 2 show ?thesis by simp
  next
    case (Some m)
    show ?thesis
    proof (cases "case sel of None \<Rightarrow> True | Some (_, current) \<Rightarrow> current < m")
      case True
      with "2.IH"(2) [OF Some True] "2.prems" Some show ?thesis by (auto split: option.splits)
    next
      case False
      with "2.IH"(3) [OF Some False] "2.prems" Some show ?thesis by (auto split: option.splits)
    qed
  qed
qed simp

lemma select_path_None: "select_path score ps sel = None \<longleftrightarrow> sel = None \<and> (\<forall>q\<in>set ps. score q = None)"
  by (induction score ps sel rule: select_path.induct) (auto split: option.splits if_splits prod.splits)

lemma select_write_path_in:
  "select_write_path io pool h n = Some p \<Longrightarrow>
     p \<in> set (pool_paths pool) \<and> pr_available p \<and> pc_state (pr_config p) = Active"
  by (auto simp: select_write_path_def write_score_def Let_def dest!: select_path_in split: if_splits option.splits)

definition available_at :: "storage_content_kind \<Rightarrow> string \<Rightarrow> string \<Rightarrow> bytes \<Rightarrow> storage_location" where
  "available_at kind h t payload =
     \<lparr>lo_kind = kind, lo_hash = h, lo_path_id = t, lo_size_bytes = length payload, lo_state = Available\<rparr>"

lemma stored_ok:
  fixes s :: pool_state and payload :: bytes
  assumes "io_write_ok io (t, kind, h)"
  defines "s' \<equiv> run_effects (store_effects io kind h payload t s) s"
  shows "location_of (ps_pool s') kind h = Some t"
    and "map_of (ps_files s') = (map_of (ps_files s))((t, kind, h) \<mapsto> \<lparr>sf_payload = payload, sf_modified = io_now io\<rparr>)"
    and "map_of (ps_db s') (kind, h) = Some (available_at kind h t payload)"
  using assms by (auto simp: store_effects_def write_atomic_overwrite_def available_at_def update_conv delete_conv Let_def)

lemma stored_failed:
  assumes "\<not> io_write_ok io (t, kind, h)"
  shows "run_effects (store_effects io kind h payload t s) s =
    s\<lparr>ps_db := hm_remove (kind, h) (hm_insert (kind, h) ((available_at kind h t payload)\<lparr>lo_state := Pending\<rparr>) (ps_db s))\<rparr>"
  using assms by (simp add: store_effects_def available_at_def)

lemma content_at_stored:
  assumes "io_write_ok io (pc_id (pr_config p), kind, h)" "p \<in> set (pool_paths (ps_pool s))" "content_name_ok kind h"
  shows "content_at (run_effects (store_effects io kind h payload (pc_id (pr_config p)) s) s) kind h = Some payload"
proof -
  let ?s = "run_effects (store_effects io kind h payload (pc_id (pr_config p)) s) s"
  have "content_path (ps_pool ?s) kind h = Some (pc_id (pr_config p))"
    using stored_ok(1) [OF assms(1)] assms(2,3) by (intro content_path_located) auto
  then show ?thesis by (simp add: content_at_def stored_ok(2) [OF assms(1)])
qed

lemma content_path_name_ok: "content_path pool kind h = Some i \<Longrightarrow> content_name_ok kind h"
  by (auto simp: content_path_def split: option.splits if_splits)

lemma persist_cases:
  obtains (failed) "persist_effects env io kind h payload s = (None, [])" "\<not> readable env s kind h"
  | (present) "persist_effects env io kind h payload s = (Some (False, False), [])" "readable env s kind h"
  | (written) p where "\<not> readable env s kind h" "p \<in> set (pool_paths (ps_pool s))" "content_name_ok kind h"
      "persist_effects env io kind h payload s =
        (if io_write_ok io (pc_id (pr_config p), kind, h) then Some (True, content_at s kind h \<noteq> None) else None,
         store_effects io kind h payload (pc_id (pr_config p)) s)"
proof (cases "content_path (ps_pool s) kind h")
  case None
  then show ?thesis by (intro failed) (simp_all add: persist_effects_def readable_def content_at_def)
next
  case (Some i)
  have valid: "(case map_of (ps_files s) (i, kind, h) of Some f \<Rightarrow> ce_hash_hex env (sf_payload f) = h | None \<Rightarrow> False)
      \<longleftrightarrow> readable env s kind h"
    by (auto simp: readable_def content_at_def Some split: option.splits)
  show ?thesis
  proof (cases "readable env s kind h")
    case True
    then show ?thesis using Some valid by (intro present) (simp_all add: persist_effects_def)
  next
    case False
    show ?thesis
    proof (cases "select_write_path io (ps_pool s) h (length payload)")
      case None
      then show ?thesis using Some False valid by (intro failed) (simp_all add: persist_effects_def)
    next
      case (Some p)
      have "content_at s kind h \<noteq> None \<longleftrightarrow> map_of (ps_files s) (i, kind, h) \<noteq> None"
        by (simp add: content_at_def \<open>content_path _ _ _ = Some i\<close>)
      then show ?thesis
        using \<open>content_path _ _ _ = Some i\<close> Some False valid content_path_name_ok select_write_path_in
        by (intro written) (auto simp: persist_effects_def Let_def)
    qed
  qed
qed

section \<open>Restarting\<close>

definition db_ok :: "(storage_content_kind \<times> string, storage_location) hashmap \<Rightarrow> bool" where
  "db_ok db \<longleftrightarrow> hm_ok db \<and> (\<forall>kind h l. map_of db (kind, h) = Some l \<longrightarrow> lo_kind l = kind \<and> lo_hash l = h)"

lemma db_ok_effect: "db_ok (ps_db s) \<Longrightarrow> db_ok (ps_db (apply_effect e s))"
  by (cases e) (auto simp: db_ok_def update_conv delete_conv)

lemma db_ok_effects: "db_ok (ps_db s) \<Longrightarrow> db_ok (ps_db (run_effects es s))"
  by (induction es arbitrary: s) (auto intro: db_ok_effect)

abbreviation location_key :: "storage_location \<Rightarrow> storage_content_kind \<times> string" where
  "location_key l \<equiv> (lo_kind l, lo_hash l)"

lemma db_values:
  assumes "db_ok db"
  shows "map (\<lambda>l. (location_key l, l)) (hm_values db) = db"
proof -
  have "(location_key (snd e), snd e) = e" if "e \<in> set db" for e
    using assms that by (cases e; cases "fst e") (auto simp: db_ok_def hm.mem_iff)
  then have "map (\<lambda>e. (location_key (snd e), snd e)) db = map id db" by (intro map_cong) (simp_all del: prod.inject)
  then show ?thesis by (simp add: comp_def)
qed

lemma db_keys:
  assumes "db_ok db"
  shows "distinct (map location_key (hm_values db))"
proof -
  have "map fst (map (\<lambda>l. (location_key l, l)) (hm_values db)) = map fst db" by (simp only: db_values [OF assms])
  moreover have "map fst (map (\<lambda>l. (location_key l, l)) (hm_values db)) = map location_key (hm_values db)"
    by (simp only: map_map comp_def fst_conv)
  ultimately show ?thesis using assms by (simp only: db_ok_def hm_ok_def)
qed

lemma find_map_of: "find (\<lambda>l. location_key l = k) ls = map_of (map (\<lambda>l. (location_key l, l)) ls) k"
  by (induction ls) auto

lemma db_find: "db_ok db \<Longrightarrow> find (\<lambda>l. location_key l = k) (hm_values db) = map_of db k"
  by (simp only: find_map_of db_values)

lemma paths_load [simp]: "pool_paths (load_locations ls pool) = pool_paths pool"
  unfolding load_locations_def by (induction ls arbitrary: pool) auto

lemma find_distinct:
  "distinct (map location_key (l # ls)) \<Longrightarrow> location_key l = k \<Longrightarrow> find (\<lambda>l. location_key l = k) ls = None"
  by (auto simp: find_None_iff image_iff)

lemma load_location_of:
  "distinct (map location_key ls) \<Longrightarrow> location_of (load_locations ls pool) kind h =
     (case find (\<lambda>l. location_key l = (kind, h)) ls of
        None \<Rightarrow> location_of pool kind h
      | Some l \<Rightarrow> if lo_state l = Available \<and> pool_path pool (lo_path_id l) \<noteq> None then Some (lo_path_id l)
                   else location_of pool kind h)"
proof (induction ls arbitrary: pool)
  case (Cons l ls)
  let ?pool = "if lo_state l \<noteq> Available \<or> pool_path pool (lo_path_id l) = None then pool
    else set_location (lo_kind l) (lo_hash l) (lo_path_id l) pool"
  have "load_locations (l # ls) pool = load_locations ls ?pool" by (simp add: load_locations_def)
  moreover have "pool_path ?pool = pool_path pool" by (rule pool_path_cong) simp
  moreover have "find (\<lambda>l. location_key l = (kind, h)) ls = None" if "location_key l = (kind, h)"
    using find_distinct [OF Cons.prems that] .
  ultimately show ?case using Cons by (auto split: option.splits)
qed (simp add: load_locations_def)

lemma recover_location_frame:
  "location_key l \<noteq> (kind, h) \<Longrightarrow> same_at kind h s (recover_location env l s)"
  by (auto simp: recover_location_def same_at_def update_conv delete_conv)

lemma recover_location_keeps [simp]:
  "ps_files (recover_location env l s) = ps_files s"
  "pool_paths (ps_pool (recover_location env l s)) = pool_paths (ps_pool s)"
  by (auto simp: recover_location_def)

lemma recover_keeps [simp]:
  "ps_files (recover_pending_storage_locations env ls s) = ps_files s"
  "pool_paths (ps_pool (recover_pending_storage_locations env ls s)) = pool_paths (ps_pool s)"
  unfolding recover_pending_storage_locations_def by (induction ls arbitrary: s) auto

text \<open>Whether a pending location is accepted.\<close>

definition recoverable :: "content_env \<Rightarrow> pool_state \<Rightarrow> storage_location \<Rightarrow> bool" where
  "recoverable env s l \<longleftrightarrow> pool_path (ps_pool s) (lo_path_id l) \<noteq> None \<and> content_name_ok (lo_kind l) (lo_hash l) \<and>
     kind_payload_hash_matches env (ps_files s) (lo_path_id l, lo_kind l, lo_hash l) (lo_size_bytes l)"

lemma recover_location_of:
  "distinct (map location_key ls) \<Longrightarrow> location_of (ps_pool (recover_pending_storage_locations env ls s)) kind h =
     (case find (\<lambda>l. location_key l = (kind, h)) ls of
        None \<Rightarrow> location_of (ps_pool s) kind h
      | Some l \<Rightarrow> if lo_state l = Pending \<and> recoverable env s l then Some (lo_path_id l) else location_of (ps_pool s) kind h)"
proof (induction ls arbitrary: s)
  case (Cons l ls)
  let ?s = "recover_location env l s"
  have step: "recover_pending_storage_locations env (l # ls) s = recover_pending_storage_locations env ls ?s"
    by (simp add: recover_pending_storage_locations_def)
  have "pool_path (ps_pool ?s) = pool_path (ps_pool s)" by (rule pool_path_cong) simp
  then have rec: "recoverable env ?s l' = recoverable env s l'" for l' by (simp add: recoverable_def)
  note IH = Cons.IH [of ?s] and d = Cons.prems
  show ?case
  proof (cases "location_key l = (kind, h)")
    case True
    have "location_of (ps_pool ?s) kind h =
      (if lo_state l = Pending \<and> recoverable env s l then Some (lo_path_id l) else location_of (ps_pool s) kind h)"
      using True by (auto simp: recover_location_def recoverable_def)
    with True IH d find_distinct [OF d True] step show ?thesis by auto
  next
    case False
    with recover_location_frame [OF False, of s env] have "location_of (ps_pool ?s) kind h = location_of (ps_pool s) kind h"
      by (simp add: same_at_def)
    with False IH d rec step show ?thesis by (auto split: option.splits)
  qed
qed (simp add: recover_pending_storage_locations_def)

text \<open>Where a restart finds a content.\<close>

definition restart_location :: "content_env \<Rightarrow> pool_state \<Rightarrow> storage_content_kind \<Rightarrow> string \<Rightarrow> string option" where
  "restart_location env s kind h =
     (case map_of (ps_db s) (kind, h) of
        None \<Rightarrow> None
      | Some l \<Rightarrow> if (lo_state l = Available \<and> pool_path (ps_pool s) (lo_path_id l) \<noteq> None) \<or>
                      (lo_state l = Pending \<and> recoverable env s l)
                   then Some (lo_path_id l) else None)"

lemma restart_keeps [simp]:
  "ps_files (restart env s) = ps_files s" "pool_paths (ps_pool (restart env s)) = pool_paths (ps_pool s)"
  by (simp_all add: restart_def Let_def)

lemma restart_location_of:
  assumes "db_ok (ps_db s)"
  shows "location_of (ps_pool (restart env s)) kind h = restart_location env s kind h"
proof -
  let ?p0 = "(ps_pool s)\<lparr>pool_chunk_locations := [], pool_manifest_locations := []\<rparr>"
  let ?s = "s\<lparr>ps_pool := load_locations (hm_values (ps_db s)) ?p0\<rparr>"
  let ?l = "map_of (ps_db s) (kind, h)"
  have e: "location_of ?p0 kind h = None" by (cases kind) simp_all
  have p0: "pool_path ?p0 = pool_path (ps_pool s)" and ps: "pool_path (ps_pool ?s) = pool_path (ps_pool s)"
    by (rule pool_path_cong; simp)+
  have r: "recoverable env ?s l = recoverable env s l" for l
    by (simp only: recoverable_def ps) simp
  have "location_of (ps_pool ?s) kind h =
    (case ?l of None \<Rightarrow> None | Some l \<Rightarrow> if lo_state l = Available \<and> pool_path (ps_pool s) (lo_path_id l) \<noteq> None
      then Some (lo_path_id l) else None)"
    using load_location_of [OF db_keys [OF assms], of ?p0 kind h] by (simp only: db_find [OF assms] e p0) simp
  with recover_location_of [OF db_keys [OF assms], of env ?s kind h]
  have "location_of (ps_pool (recover_pending_storage_locations env (hm_values (ps_db s)) ?s)) kind h =
      restart_location env s kind h"
    by (simp only: db_find [OF assms] r restart_location_def) (cases ?l; auto)
  then show ?thesis by (simp only: restart_def Let_def)
qed

lemma restart_same:
  assumes "same_at kind h s t" "db_ok (ps_db s)" "db_ok (ps_db t)"
  shows "readable env (restart env s) kind h = readable env (restart env t) kind h"
proof -
  have "pool_path (ps_pool s) = pool_path (ps_pool t)"
    using assms(1) by (intro pool_path_cong) (simp add: same_at_def)
  then have "restart_location env s kind h = restart_location env t kind h"
    using assms db_ok_def [of "ps_db t"]
    by (auto simp: restart_location_def recoverable_def kind_payload_hash_matches_def same_at_def split: option.splits)
  then have "location_of (ps_pool (restart env s)) kind h = location_of (ps_pool (restart env t)) kind h"
    by (simp add: restart_location_of assms)
  then have "content_path (ps_pool (restart env s)) kind h = content_path (ps_pool (restart env t)) kind h"
    using assms(1) pool_path_cong [of "ps_pool (restart env s)" "ps_pool (restart env t)"]
    by (simp add: content_path_def legacy_read_path_def same_at_def)
  then show ?thesis using assms(1) by (auto simp: readable_def content_at_def same_at_def split: option.splits)
qed

text \<open>A state is durable if a restart loses nothing that can be read.\<close>

definition durable :: "content_env \<Rightarrow> pool_state \<Rightarrow> bool" where
  "durable env s \<longleftrightarrow> (\<forall>kind h. readable env s kind h \<longrightarrow> readable env (restart env s) kind h)"

lemma durable_stored:
  assumes "db_ok (ps_db s)" "p \<in> set (pool_paths (ps_pool s))" "content_name_ok kind h" "ce_hash_hex env payload = h"
    and "map_of (ps_db s) (kind, h) = Some (available_at kind h (pc_id (pr_config p)) payload)"
    and "map_of (ps_files s) (pc_id (pr_config p), kind, h) = Some f" "sf_payload f = payload"
  shows "readable env (restart env s) kind h"
proof -
  have "pool_path (ps_pool s) (pc_id (pr_config p)) \<noteq> None" using assms(2) by (auto simp: pool_path_def find_None_iff)
  then have "restart_location env s kind h = Some (pc_id (pr_config p))"
    using assms(5) by (simp add: restart_location_def available_at_def)
  then have "location_of (ps_pool (restart env s)) kind h = Some (pc_id (pr_config p))"
    by (simp add: restart_location_of assms(1))
  from content_path_located [OF this _ refl assms(3)] assms(2,4,6,7) show ?thesis
    by (simp add: readable_def content_at_def)
qed

section \<open>Relocation\<close>

lemma relocate_cases:
  obtains (failed) "relocate_effects env io kind h src s = (None, [])"
  | (stays) p where "relocate_effects env io kind h src s = (Some False, [])" "p \<in> set (pool_paths (ps_pool s))"
      "pc_state (pr_config p) = Active" "pc_id (pr_config p) = src"
  | (moved) p f where "map_of (ps_files s) (src, kind, h) = Some f" "ce_hash_hex env (sf_payload f) = h"
      "p \<in> set (pool_paths (ps_pool s))" "pc_state (pr_config p) = Active" "pc_id (pr_config p) \<noteq> src"
      "io_write_ok io (pc_id (pr_config p), kind, h)"
      "relocate_effects env io kind h src s =
        (Some True, store_effects io kind h (sf_payload f) (pc_id (pr_config p)) s @ [RemoveFile (src, kind, h)])"
  | (not_written) p f where "map_of (ps_files s) (src, kind, h) = Some f" "ce_hash_hex env (sf_payload f) = h"
      "p \<in> set (pool_paths (ps_pool s))" "pc_id (pr_config p) \<noteq> src" "\<not> io_write_ok io (pc_id (pr_config p), kind, h)"
      "relocate_effects env io kind h src s = (None, store_effects io kind h (sf_payload f) (pc_id (pr_config p)) s)"
proof (cases "map_of (ps_files s) (src, kind, h)")
  case None
  then show ?thesis by (intro failed) (simp add: relocate_effects_def)
next
  case (Some f)
  show ?thesis
  proof (cases "ce_hash_hex env (sf_payload f) = h \<and> select_write_path io (ps_pool s) h (length (sf_payload f)) \<noteq> None")
    case False
    then show ?thesis using Some by (intro failed) (auto simp: relocate_effects_def)
  next
    case True
    then obtain p where p: "select_write_path io (ps_pool s) h (length (sf_payload f)) = Some p" by auto
    note sel = select_write_path_in [OF p]
    consider "pc_id (pr_config p) = src" | "pc_id (pr_config p) \<noteq> src" "io_write_ok io (pc_id (pr_config p), kind, h)"
      | "pc_id (pr_config p) \<noteq> src" "\<not> io_write_ok io (pc_id (pr_config p), kind, h)" by blast
    then show ?thesis
    proof cases
      case 1
      then show ?thesis using True Some p sel by (intro stays) (auto simp: relocate_effects_def)
    next
      case 2
      then show ?thesis using True Some p sel by (intro moved) (auto simp: relocate_effects_def Let_def)
    next
      case 3
      then show ?thesis using True Some p sel by (intro not_written) (auto simp: relocate_effects_def Let_def)
    qed
  qed
qed

lemma relocate_keeps:
  assumes "content_name_ok kind h" "readable env s kind' h'"
  shows "readable env (snd (relocate_storage_content env io kind h src s)) kind' h'"
proof (cases "(kind', h') = (kind, h)")
  case False
  have "same_at kind' h' s (run_effects (snd (relocate_effects env io kind h src s)) s)"
    by (rule effects_frame) (use False in \<open>auto dest: relocate_effects_key\<close>)
  then show ?thesis using assms(2) by (auto simp: relocate_storage_content_def readable_same split: prod.splits)
next
  case True
  show ?thesis
  proof (cases rule: relocate_cases [of env io kind h src s])
    case (moved p f)
    let ?s = "run_effects (store_effects io kind h (sf_payload f) (pc_id (pr_config p)) s) s"
    have "content_path (ps_pool ?s) kind h = Some (pc_id (pr_config p))"
      using stored_ok(1) [OF moved(6)] moved(3) assms(1) by (intro content_path_located) auto
    then show ?thesis using moved True
      by (simp add: relocate_storage_content_def readable_def content_at_def stored_ok(2) [OF moved(6)] delete_conv)
  next
    case (not_written p f)
    then show ?thesis using True assms(2)
      by (simp add: relocate_storage_content_def stored_failed readable_def)
  qed (use True assms(2) in \<open>simp_all add: relocate_storage_content_def\<close>)
qed

lemma paths_relocate [simp]:
  "pool_paths (ps_pool (snd (relocate_storage_content env io kind h src s))) = pool_paths (ps_pool s)"
  by (simp add: relocate_storage_content_def split: prod.splits)

text \<open>Files of directories that are not written to: nothing appears there, and what is moved is gone.\<close>

definition draining_id :: "storage_pool \<Rightarrow> string \<Rightarrow> bool" where
  "draining_id pool i \<longleftrightarrow> i \<in> set (draining_paths pool)"

definition ids_ok :: "storage_pool \<Rightarrow> bool" where
  "ids_ok pool \<longleftrightarrow> distinct (map (pc_id \<circ> pr_config) (pool_paths pool))"

lemma draining_not_active:
  assumes "ids_ok pool" "draining_id pool i" "p \<in> set (pool_paths pool)" "pc_state (pr_config p) = Active"
  shows "pc_id (pr_config p) \<noteq> i"
  using assms by (auto simp: ids_ok_def draining_id_def draining_paths_def distinct_map inj_on_def)

lemma draining_cong: "pool_paths p = pool_paths q \<Longrightarrow> draining_id p = draining_id q \<and> ids_ok p = ids_ok q"
  by (auto simp: draining_id_def draining_paths_def ids_ok_def fun_eq_iff)

lemma relocate_files_of:
  assumes "ids_ok (ps_pool s)" "draining_id (ps_pool s) i" "draining_id (ps_pool s) src"
    and "relocate_storage_content env io kind h src s = (r, s')"
  shows "map_of (ps_files s) (i, kind', h') = None \<Longrightarrow> map_of (ps_files s') (i, kind', h') = None"
    and "r \<noteq> None \<Longrightarrow> map_of (ps_files s') (src, kind, h) = None"
proof -
  have "(map_of (ps_files s) (i, kind', h') = None \<longrightarrow> map_of (ps_files s') (i, kind', h') = None) \<and>
    (r \<noteq> None \<longrightarrow> map_of (ps_files s') (src, kind, h) = None)"
  proof (cases rule: relocate_cases [of env io kind h src s])
    case (stays p)
    then show ?thesis using draining_not_active assms(1,3) by blast
  next
    case (moved p f)
    with draining_not_active [OF assms(1,2) moved(3,4)] assms(4) show ?thesis
      by (auto simp: relocate_storage_content_def stored_ok(2) delete_conv)
  qed (use assms(4) in \<open>auto simp: relocate_storage_content_def stored_failed\<close>)
  then show "map_of (ps_files s) (i, kind', h') = None \<Longrightarrow> map_of (ps_files s') (i, kind', h') = None"
    and "r \<noteq> None \<Longrightarrow> map_of (ps_files s') (src, kind, h) = None" by auto
qed

lemma relocate_files_cases:
  assumes "relocate_files env io kind i (h # hs) report s = (b, report', s')"
  obtains (skipped) "\<not> content_name_ok kind h" "relocate_files env io kind i hs (fst report, snd report + 1) s = (b, report', s')"
  | (aborted) "content_name_ok kind h" "relocate_storage_content env io kind h i s = (None, s')" "\<not> b"
  | (relocated) moved report1 s1 where "content_name_ok kind h" "relocate_storage_content env io kind h i s = (Some moved, s1)"
      "relocate_files env io kind i hs report1 s1 = (b, report', s')"
  using assms by (cases report) (auto split: if_splits prod.splits option.splits)

lemma relocate_paths:
  "relocate_storage_content env io kind h src s = (r, s1) \<Longrightarrow> pool_paths (ps_pool s1) = pool_paths (ps_pool s)"
  using paths_relocate [of env io kind h src s] by simp

lemma relocate_files_paths:
  "relocate_files env io kind i hs report s = (b, report', s') \<Longrightarrow> pool_paths (ps_pool s') = pool_paths (ps_pool s)"
proof (induction hs arbitrary: report s)
  case (Cons h hs)
  from Cons.prems show ?case
  proof (cases rule: relocate_files_cases)
    case (relocated moved report1 s1)
    with Cons.IH [OF relocated(3)] relocate_paths [OF relocated(2)] show ?thesis by simp
  qed (auto dest: Cons.IH relocate_paths)
qed simp

lemma relocate_files_keeps:
  "relocate_files env io kind i hs report s = (b, report', s') \<Longrightarrow> readable env s kind' h' \<Longrightarrow> readable env s' kind' h'"
proof (induction hs arbitrary: report s)
  case (Cons h hs)
  have keep: "readable env s1 kind' h'" if "content_name_ok kind h" "relocate_storage_content env io kind h i s = (r, s1)" for r s1
    using relocate_keeps [OF that(1) Cons.prems(2), of io i] that(2) by simp
  from Cons.prems(1) show ?case by (cases rule: relocate_files_cases) (use Cons keep in auto)
qed simp

lemma relocate_files_drains:
  assumes "relocate_files env io kind i hs report s = (b, report', s')"
    and "ids_ok (ps_pool s)" "draining_id (ps_pool s) i"
  shows "(\<forall>j kind' h'. draining_id (ps_pool s) j \<longrightarrow> map_of (ps_files s) (j, kind', h') = None
      \<longrightarrow> map_of (ps_files s') (j, kind', h') = None) \<and>
    (b \<longrightarrow> (\<forall>h'\<in>set hs. content_name_ok kind h' \<longrightarrow> map_of (ps_files s') (i, kind, h') = None))"
  using assms
proof (induction hs arbitrary: report s)
  case (Cons h hs)
  from Cons.prems(1) show ?case
  proof (cases rule: relocate_files_cases)
    case skipped
    with Cons.IH [OF skipped(2) Cons.prems(2,3)] show ?thesis by auto
  next
    case aborted
    with relocate_files_of(1) [OF Cons.prems(2) _ Cons.prems(3) aborted(2)] show ?thesis by auto
  next
    case (relocated moved report1 s1)
    note c = draining_cong [OF relocate_paths [OF relocated(2)]]
    note one = relocate_files_of [OF Cons.prems(2) _ Cons.prems(3) relocated(2)]
    have gone: "map_of (ps_files s1) (i, kind, h) = None" using one(2) [OF Cons.prems(3)] by simp
    have IH: "\<forall>j kind' h'. draining_id (ps_pool s) j \<longrightarrow> map_of (ps_files s1) (j, kind', h') = None
        \<longrightarrow> map_of (ps_files s') (j, kind', h') = None"
      "b \<longrightarrow> (\<forall>h'\<in>set hs. content_name_ok kind h' \<longrightarrow> map_of (ps_files s') (i, kind, h') = None)"
      using Cons.IH [OF relocated(3)] c Cons.prems(2,3) by auto
    with one(1) gone Cons.prems(3) show ?thesis by auto
  qed
qed simp

lemma listed_all:
  "map_of (ps_files s) (i, kind, h) \<noteq> None \<Longrightarrow> h \<in> set (collect_storage_content_files i kind s)"
  unfolding collect_storage_content_files_def
  by (force simp: image_iff dest: map_of_SomeD)

lemma rebalance_paths_keeps:
  "rebalance_paths env io is report s = (r, s') \<Longrightarrow> readable env s kind h \<Longrightarrow> readable env s' kind h"
  by (induction "is" arbitrary: report s)
    (auto dest: relocate_files_keeps split: prod.splits bool.splits)

lemma rebalance_paths_drains:
  assumes "rebalance_paths env io is report s = (r, s')" "ids_ok (ps_pool s)" "\<forall>i\<in>set is. draining_id (ps_pool s) i"
  shows "(\<forall>j kind h. draining_id (ps_pool s) j \<longrightarrow> map_of (ps_files s) (j, kind, h) = None \<longrightarrow> map_of (ps_files s') (j, kind, h) = None) \<and>
    (r \<noteq> None \<longrightarrow> (\<forall>i\<in>set is. \<forall>kind h. content_name_ok kind h \<longrightarrow> map_of (ps_files s') (i, kind, h) = None))"
  using assms
proof (induction "is" arbitrary: report s)
  case (Cons i "is")
  obtain b1 rep1 s1 where one: "relocate_files env io Chunk i (collect_storage_content_files i Chunk s)
      (rr_moved_chunks report, rr_skipped_invalid_entries report) s = (b1, rep1, s1)" by (metis prod_cases3)
  obtain b2 rep2 s2 where two: "relocate_files env io Manifest i (collect_storage_content_files i Manifest s1)
      (rr_moved_manifests report, snd rep1) s1 = (b2, rep2, s2)" by (metis prod_cases3)
  note c1 = draining_cong [OF relocate_files_paths [OF one]] and c2 = draining_cong [OF relocate_files_paths [OF two]]
  note d1 = relocate_files_drains [OF one Cons.prems(2)] and d2 = relocate_files_drains [OF two]
  have chunks: "b1 \<Longrightarrow> content_name_ok Chunk h \<Longrightarrow> map_of (ps_files s1) (i, Chunk, h) = None" for h
    using d1 Cons.prems(3) listed_all [of s i Chunk h] by auto
  have manifests: "b2 \<Longrightarrow> content_name_ok Manifest h \<Longrightarrow> map_of (ps_files s2) (i, Manifest, h) = None" for h
    using d2 Cons.prems(2,3) c1 listed_all [of s1 i Manifest h] by auto
  have no1: "\<forall>j kind h. draining_id (ps_pool s) j \<longrightarrow> map_of (ps_files s) (j, kind, h) = None \<longrightarrow> map_of (ps_files s1) (j, kind, h) = None"
    using d1 Cons.prems(3) by auto
  have no2: "\<forall>j kind h. draining_id (ps_pool s) j \<longrightarrow> map_of (ps_files s1) (j, kind, h) = None \<longrightarrow> map_of (ps_files s2) (j, kind, h) = None"
    using d2 Cons.prems(2,3) c1 by auto
  show ?case
  proof (cases "b1 \<and> b2")
    case False
    then have "r = None \<and> (s' = s1 \<or> s' = s2)"
      using Cons.prems(1) one two by (cases rep1) (auto split: bool.splits)
    with no1 no2 show ?thesis by auto
  next
    case True
    then obtain report' where rest: "rebalance_paths env io is report' s2 = (r, s')"
      using Cons.prems(1) one two by (cases rep1) (auto split: prod.splits)
    have gone: "content_name_ok kind h \<Longrightarrow> map_of (ps_files s2) (i, kind, h) = None" for kind h
      using True chunks manifests no2 Cons.prems(3) by (cases kind) auto
    from Cons.IH [OF rest] c1 c2 Cons.prems(2,3) gone no1 no2 show ?thesis by auto
  qed
qed simp

text \<open>A state in the middle of a relocation out of the directory that reads fall back to.\<close>

definition crash_safe_at :: "content_env \<Rightarrow> storage_content_kind \<Rightarrow> string \<Rightarrow> string \<Rightarrow> string \<Rightarrow> bytes \<Rightarrow> pool_state \<Rightarrow> bool" where
  "crash_safe_at env kind h src t payload s \<longleftrightarrow>
     ((\<exists>f. map_of (ps_files s) (src, kind, h) = Some f \<and> sf_payload f = payload) \<and>
      map_of (ps_db s) (kind, h) \<in> {None, Some ((available_at kind h t payload)\<lparr>lo_state := Pending\<rparr>)}) \<or>
     ((\<exists>f. map_of (ps_files s) (t, kind, h) = Some f \<and> sf_payload f = payload) \<and>
      map_of (ps_db s) (kind, h) = Some (available_at kind h t payload))"

lemma recoverable_path:
  "recoverable env s l \<Longrightarrow> \<exists>p\<in>set (pool_paths (ps_pool s)). pc_id (pr_config p) = lo_path_id l"
  by (auto simp: recoverable_def pool_path_def dest!: find_SomeD)

lemma crash_safe_readable:
  assumes "crash_safe_at env kind h src (pc_id (pr_config p)) payload s" "ce_hash_hex env payload = h"
    and "db_ok (ps_db s)" "p \<in> set (pool_paths (ps_pool s))" "content_name_ok kind h"
    and "legacy_read_path (ps_pool s) = Some q" "pc_id (pr_config q) = src"
  shows "readable env (restart env s) kind h"
proof (cases "map_of (ps_db s) (kind, h) = Some (available_at kind h (pc_id (pr_config p)) payload)")
  case True
  with assms(1) obtain f where "map_of (ps_files s) (pc_id (pr_config p), kind, h) = Some f" "sf_payload f = payload"
    by (auto simp: crash_safe_at_def available_at_def)
  from durable_stored [OF assms(3,4,5,2) True this] show ?thesis .
next
  case False
  let ?l = "(available_at kind h (pc_id (pr_config p)) payload)\<lparr>lo_state := Pending\<rparr>"
  have lr: "legacy_read_path (ps_pool (restart env s)) = Some q"
    using assms(6) by (simp add: legacy_read_path_def)
  obtain f where f: "map_of (ps_files s) (src, kind, h) = Some f" "sf_payload f = payload"
    and db: "map_of (ps_db s) (kind, h) \<in> {None, Some ?l}"
    using assms(1) False by (auto simp: crash_safe_at_def)
  show ?thesis
  proof (cases "map_of (ps_db s) (kind, h) = Some ?l \<and> recoverable env s ?l")
    case True
    then have "restart_location env s kind h = Some (pc_id (pr_config p))"
      by (simp add: restart_location_def available_at_def)
    then have "content_path (ps_pool (restart env s)) kind h = Some (pc_id (pr_config p))"
      using assms(3,4,5) by (intro content_path_located) (simp_all add: restart_location_of)
    then show ?thesis using True
      by (auto simp: readable_def content_at_def recoverable_def kind_payload_hash_matches_def available_at_def split: option.splits)
  next
    case False
    with db have "restart_location env s kind h = None" by (auto simp: restart_location_def available_at_def)
    then have "content_path (ps_pool (restart env s)) kind h = Some src"
      using lr assms(3,5,7) by (simp add: content_path_def restart_location_of)
    then show ?thesis using f assms(2) by (simp add: readable_def content_at_def)
  qed
qed

lemma relocation_steps:
  fixes io :: pool_io
  assumes "map_of (ps_files s) (src, kind, h) = Some f" "sf_payload f = payload" "t \<noteq> src" "0 < n"
  defines "es \<equiv> store_effects io kind h payload t s"
  shows "crash_safe_at env kind h src t payload
    (run_effects (take n (if io_write_ok io (t, kind, h) then es @ [RemoveFile (src, kind, h)] else es)) s)"
proof -
  obtain m where n: "n = Suc m" using assms(4) by (cases n) auto
  have "m = 0 \<or> m = 1 \<or> m = 2 \<or> m = 3 \<or> m = 4 \<or> m \<ge> 5" by linarith
  then show ?thesis
    using assms(1-3) unfolding n es_def
    by (elim disjE)
      (auto simp: store_effects_def write_atomic_overwrite_def crash_safe_at_def available_at_def update_conv delete_conv
        Let_def take_Cons' numeral_eq_Suc)
qed

text \<open>A crash anywhere in a relocation out of the directory that reads fall back to loses nothing.\<close>

lemma relocate_from_legacy_crash_safe:
  assumes "db_ok (ps_db s)" "durable env s" "readable env s kind' h'" "content_name_ok kind h"
    and "legacy_read_path (ps_pool s) = Some q" "pc_id (pr_config q) = src"
  shows "readable env (restart env (run_effects (take n (snd (relocate_effects env io kind h src s))) s)) kind' h'"
    (is "readable env (restart env (run_effects (take n ?es) s)) kind' h'")
proof (cases "(kind', h') = (kind, h) \<and> 0 < n \<and> ?es \<noteq> []")
  case False
  have "same_at kind' h' s (run_effects (take n ?es) s)"
  proof (cases "(kind', h') = (kind, h)")
    case True
    with False have "take n ?es = []" by auto
    then show ?thesis by auto
  next
    case False
    then show ?thesis by (intro effects_frame) (auto dest!: in_set_takeD dest: relocate_effects_key)
  qed
  from restart_same [OF this assms(1) db_ok_effects [OF assms(1)]] assms(2,3) show ?thesis by (auto simp: durable_def)
next
  case True
  have lr: "legacy_read_path (ps_pool (run_effects es s)) = Some q" for es
    using assms(5) by (simp add: legacy_read_path_def)
  show ?thesis
  proof (cases rule: relocate_cases [of env io kind h src s])
    case (moved p f)
    from crash_safe_readable [OF relocation_steps [OF moved(1) refl moved(5), where n = n and io = io] moved(2) db_ok_effects [OF assms(1)] _ assms(4) lr assms(6)]
    show ?thesis using True moved by (simp del: take_append)
  next
    case (not_written p f)
    from crash_safe_readable [OF relocation_steps [OF not_written(1) refl not_written(4), where n = n and io = io] not_written(2) db_ok_effects [OF assms(1)] _ assms(4) lr assms(6)]
    show ?thesis using True not_written by simp
  qed (use True in auto)
qed

section \<open>Properties\<close>

definition sample_path :: "string \<Rightarrow> storage_path_state \<Rightarrow> storage_path_runtime" where
  "sample_path i st = \<lparr>pr_config = \<lparr>pc_id = i, pc_path = i, pc_state = st, pc_weight = 1, pc_reserve_bytes = 10\<rparr>, pr_available = True\<rparr>"

definition sample_io :: pool_io where
  "sample_io = \<lparr>io_free = (\<lambda>_. Some 100), io_score = (\<lambda>_ _. 0), io_now = 7, io_write_ok = (\<lambda>_. True)\<rparr>"

definition sample_pool :: pool_state where
  "sample_pool =
     \<lparr>ps_pool = \<lparr>pool_paths = [sample_path ''new'' Active, sample_path ''old'' Draining],
                 pool_chunk_locations = [(sample_hash ''hello'', ''old'')], pool_manifest_locations = []\<rparr>,
      ps_files = [((''old'', Chunk, sample_hash ''hello''), \<lparr>sf_payload = ''hello'', sf_modified = 3\<rparr>)],
      ps_db = [((Chunk, sample_hash ''hello''), available_at Chunk (sample_hash ''hello'') ''old'' ''hello'')]\<rparr>"

lemma sample_hash_name_ok [simp]: "content_name_ok kind (sample_hash b)"
  by (cases kind) (simp_all add: content_name_ok_def chunk_hash_ok_def manifest_hash_looks_safe_filename_def sample_hash_def
      is_ascii_hexdigit_def list_all_iff Let_def)

lemma sample_pool_db_ok: "db_ok (ps_db sample_pool)"
  by (auto simp: sample_pool_def db_ok_def hm_ok_def available_at_def)

lemma sample_pool_readable: "readable sample_env sample_pool kind h \<longleftrightarrow> kind = Chunk \<and> h = sample_hash ''hello''"
  by (cases kind) (auto simp: readable_def content_at_def content_path_def sample_pool_def sample_path_def sample_env_def
      pool_path_def legacy_read_path_def split: if_splits option.splits)

lemma sample_pool_durable: "durable sample_env sample_pool"
proof -
  have "readable sample_env (restart sample_env sample_pool) Chunk (sample_hash ''hello'')"
    by (rule durable_stored [of _ "sample_path ''old'' Draining" _ _ _ "''hello''"])
      (simp_all add: sample_pool_db_ok, simp_all add: sample_pool_def sample_path_def sample_env_def, simp)
  then show ?thesis by (simp add: durable_def sample_pool_readable)
qed

text \<open>A crash in the window in which a relocation has replaced the location record of a content and
  has not yet written the new file: the content is lost to reads although its file is untouched, as the
  record named the only directory that has it.\<close>

lemma relocation_crash_loses_content:
  defines "s \<equiv> run_effects (take 1 (snd (relocate_effects sample_env sample_io Chunk (sample_hash ''hello'') ''old'' sample_pool))) sample_pool"
  shows "readable sample_env sample_pool Chunk (sample_hash ''hello'')"
    and "\<not> readable sample_env (restart sample_env s) Chunk (sample_hash ''hello'')"
    and "map_of (ps_files (restart sample_env s)) (''old'', Chunk, sample_hash ''hello'') = Some \<lparr>sf_payload = ''hello'', sf_modified = 3\<rparr>"
proof -
  let ?h = "sample_hash ''hello''"
  have s: "s = apply_effect (DbPut ((available_at Chunk ?h ''new'' ''hello'')\<lparr>lo_state := Pending\<rparr>)) sample_pool"
    by (simp add: s_def relocate_effects_def sample_pool_def sample_io_def sample_path_def sample_env_def select_write_path_def
        write_score_def store_effects_def available_at_def Let_def)
  have "restart_location sample_env s Chunk ?h = None"
    by (simp add: s restart_location_def recoverable_def kind_payload_hash_matches_def available_at_def sample_pool_def)
  moreover have "db_ok (ps_db s)" unfolding s by (rule db_ok_effect [OF sample_pool_db_ok])
  ultimately have "location_of (ps_pool (restart sample_env s)) Chunk ?h = None" by (simp only: restart_location_of)
  moreover have "legacy_read_path (ps_pool (restart sample_env s)) = Some (sample_path ''new'' Active)"
    by (simp add: legacy_read_path_def s) (simp add: sample_pool_def sample_path_def)
  ultimately have "content_path (ps_pool (restart sample_env s)) Chunk ?h = Some ''new''"
    by (simp add: content_path_def sample_path_def)
  then show "\<not> readable sample_env (restart sample_env s) Chunk ?h"
    by (simp add: readable_def content_at_def s) (simp add: sample_pool_def)
  show "map_of (ps_files (restart sample_env s)) (''old'', Chunk, ?h) = Some \<lparr>sf_payload = ''hello'', sf_modified = 3\<rparr>"
    by (simp add: s) (simp add: sample_pool_def)
qed (simp add: sample_pool_readable)

text \<open>C12: The pool implements the one map per kind that the content store is written over: persisting
  content through the choice of a directory, the location records and the files has the outcome and the
  effect of persisting it in a map, whichever directory is chosen, and the other kind is untouched.\<close>

theorem pool_persist_refines:
  assumes "persist_in_pool env io kind h payload s = (Some (stored, replaced), s')"
    and "map_of files = content_at s kind"
  shows "(\<exists>files'. persist_storage_content env h payload files = (stored, replaced, files') \<and> map_of files' = content_at s' kind) \<and>
    (kind' \<noteq> kind \<longrightarrow> content_at s' kind' = content_at s kind')"
proof (cases rule: persist_cases [of env io kind h payload s])
  case failed
  with assms(1) show ?thesis by (simp add: persist_in_pool_def)
next
  case present
  with assms(1) have "s' = s" "\<not> stored" "\<not> replaced" by (auto simp: persist_in_pool_def)
  with present(2) assms(2) show ?thesis by (auto simp: readable_def persist_storage_content_def split: option.splits)
next
  case (written p)
  with assms(1) have ok: "io_write_ok io (pc_id (pr_config p), kind, h)"
    and s': "s' = run_effects (store_effects io kind h payload (pc_id (pr_config p)) s) s"
    and r: "stored" "replaced = (content_at s kind h \<noteq> None)" by (auto simp: persist_in_pool_def split: if_splits)
  have frame: "content_at s' kind'' h' = content_at s kind'' h'" if "(kind'', h') \<noteq> (kind, h)" for kind'' h'
    unfolding s' by (rule content_at_same [symmetric], rule effects_frame) (use that in \<open>auto dest: store_effects_key\<close>)
  have "content_at s' kind = (content_at s kind)(h \<mapsto> payload)"
    using frame [of kind] content_at_stored [OF ok written(2,3)] by (auto simp: s')
  with written(1) r assms(2) have "\<exists>files'. persist_storage_content env h payload files = (stored, replaced, files') \<and> map_of files' = content_at s' kind"
    by (auto simp: persist_storage_content_def readable_def update_conv split: option.splits)
  with frame show ?thesis by auto
qed

theorem pool_persist_refines_witness:
  "\<exists>files'. persist_storage_content sample_env (sample_hash ''yo'') ''yo'' [(sample_hash ''hello'', ''hello'')] = (True, False, files') \<and>
     map_of files' = content_at (snd (persist_in_pool sample_env sample_io Chunk (sample_hash ''yo'') ''yo'' sample_pool)) Chunk"
proof -
  have ne: "sample_hash ''yo'' \<noteq> sample_hash ''hello''" by (simp add: sample_hash_def)
  have run: "fst (persist_in_pool sample_env sample_io Chunk (sample_hash ''yo'') ''yo'' sample_pool) = Some (True, False)"
    using ne by (simp add: persist_in_pool_def persist_effects_def content_path_def legacy_read_path_def select_write_path_def
        write_score_def sample_pool_def sample_io_def sample_path_def Let_def)
  have files: "map_of [(sample_hash ''hello'', ''hello'')] = content_at sample_pool Chunk"
    by (auto simp: fun_eq_iff content_at_def content_path_def legacy_read_path_def pool_path_def sample_pool_def sample_path_def)
  from pool_persist_refines [OF prod_eqI [of _ "(Some (True, False), _)"] files, simplified, OF run refl] show ?thesis by simp
qed

text \<open>C11: Storing content is safe against crashes: whatever could be read before can be read after a
  restart, wherever the write of new content was cut off, and a write that completes or reports an
  error leaves a state from which a restart loses nothing that can be read.\<close>

theorem persist_crash_safe:
  assumes "db_ok (ps_db s)" "durable env s"
  shows "durable env (snd (persist_in_pool env io kind h payload s)) \<and>
    (readable env s kind' h' \<longrightarrow>
      readable env (restart env (run_effects (take n (snd (persist_effects env io kind h payload s))) s)) kind' h')"
proof -
  let ?es = "snd (persist_effects env io kind h payload s)"
  have frame: "same_at kind'' h'' s (run_effects (take m ?es) s)" if "(kind'', h'') \<noteq> (kind, h)" for kind'' h'' m
    by (rule effects_frame) (use that in \<open>auto dest!: in_set_takeD persist_effects_key\<close>)
  have other: "readable env (restart env (run_effects (take m ?es) s)) kind'' h''"
    if "(kind'', h'') \<noteq> (kind, h) \<or> ?es = []" "readable env s kind'' h''" for kind'' h'' m
    using restart_same [OF frame assms(1) db_ok_effects [OF assms(1)]] that assms(2)
    by (cases "?es = []") (auto simp: durable_def)
  have crash: "readable env (restart env (run_effects (take m ?es) s)) kind' h'" if "readable env s kind' h'" for m
    using other [of kind' h'] that by (cases rule: persist_cases [of env io kind h payload s]) auto
  have s': "snd (persist_in_pool env io kind h payload s) = run_effects ?es s"
    by (simp add: persist_in_pool_def split: prod.splits)
  have "readable env (restart env (run_effects ?es s)) kind'' h''" if now: "readable env (run_effects ?es s) kind'' h''" for kind'' h''
  proof (cases "(kind'', h'') \<noteq> (kind, h) \<or> ?es = []")
    case True
    with readable_same [OF frame, of kind'' h'' env "length ?es"] now have "readable env s kind'' h''" by auto
    with other [OF True, of "length ?es"] show ?thesis by simp
  next
    case False
    then obtain p where p: "p \<in> set (pool_paths (ps_pool s))" "content_name_ok kind h" "\<not> readable env s kind h"
      "?es = store_effects io kind h payload (pc_id (pr_config p)) s"
      by (cases rule: persist_cases [of env io kind h payload s]) auto
    have ok: "io_write_ok io (pc_id (pr_config p), kind, h)"
    proof (rule ccontr)
      assume "\<not> io_write_ok io (pc_id (pr_config p), kind, h)"
      note failed = stored_failed [OF this, of payload s]
      from now False p(3,4) show False by (auto simp: readable_def failed)
    qed
    have "ce_hash_hex env payload = h" using now False content_at_stored [OF ok p(1,2), of payload] p(4) by (simp add: readable_def)
    with False p show ?thesis
      using durable_stored [of "run_effects ?es s" p kind h env payload] db_ok_effects [OF assms(1)] stored_ok(2,3) [OF ok] by simp
  qed
  then show ?thesis unfolding s' durable_def using crash by blast
qed

theorem persist_crash_safe_witness:
  "readable sample_env (restart sample_env (run_effects (take 1 (snd (persist_effects sample_env sample_io Chunk
     (sample_hash ''yo'') ''yo'' sample_pool))) sample_pool)) Chunk (sample_hash ''hello'')"
  using persist_crash_safe [OF sample_pool_db_ok sample_pool_durable] sample_pool_readable by blast



end
