(* ===== verification/Version_Index.thy ===== *)
theory Version_Index
  imports Content_Store
begin

text \<open>
  The version graph of one object (crates/server-node-sdk/src/storage/mod.rs): the record of a
  version, the index that holds all versions of an object with its heads and preferred head, and
  the pure functions on them.  \<open>index_ok\<close> is the invariant the store keeps (theory
  \<open>Object_Store\<close>); the theorems here are about the choice of the preferred head, the read
  modes and the search for a recoverable ancestor of a tombstone.
\<close>

section \<open>Records\<close>

datatype version_state = Provisional | Confirmed

record file_version_record =
  vr_version_id :: string
  vr_object_id :: string
  vr_manifest_hash :: string
  vr_logical_path :: "string option"
  vr_parent_version_ids :: "string list"
  vr_state :: version_state
  vr_created_at_unix :: u64
  vr_copied_from_object_id :: "string option"
  vr_copied_from_version_id :: "string option"
  vr_copied_from_path :: "string option"

record file_version_index =
  vi_object_id :: string
  vi_versions :: "(string, file_version_record) hashmap"
  vi_head_version_ids :: "string list"
  vi_preferred_head_version_id :: "string option"
  vi_identity_was_normalized :: bool
  vi_persisted_object_id :: string

abbreviation is_tombstone :: "file_version_record \<Rightarrow> bool" where
  "is_tombstone r \<equiv> vr_manifest_hash r = TOMBSTONE_MANIFEST_HASH"

abbreviation version_of :: "file_version_index \<Rightarrow> string \<Rightarrow> file_version_record option" where
  "version_of idx v \<equiv> map_of (vi_versions idx) v"

definition empty_version_index :: "string \<Rightarrow> file_version_index" where
  "empty_version_index object_id =
     \<lparr>vi_object_id = object_id, vi_versions = [], vi_head_version_ids = [],
      vi_preferred_head_version_id = None, vi_identity_was_normalized = False,
      vi_persisted_object_id = []\<rparr>"

section \<open>Identity\<close>

text \<open>\<open>fallback\<close> is the hash of the payload, or a generated id when there is no payload.\<close>

definition normalize_record_identity :: "string \<Rightarrow> file_version_record \<Rightarrow> file_version_record" where
  "normalize_record_identity object_id r =
     (if is_blank (vr_object_id r) then r\<lparr>vr_object_id := object_id\<rparr>
      else if vr_object_id r \<noteq> object_id then r\<lparr>vr_object_id := object_id\<rparr>
      else r)"

definition canonical_object_id :: "string \<Rightarrow> string \<Rightarrow> file_version_index \<Rightarrow> string" where
  "canonical_object_id persisted fallback idx =
     (if is_blank persisted
      then (if is_blank (vi_object_id idx) then ''legacy-empty-index-'' @ fallback
            else vi_object_id idx)
      else persisted)"

definition normalize_version_index_identity ::
  "string \<Rightarrow> string \<Rightarrow> file_version_index \<Rightarrow> bool \<times> file_version_index" where
  "normalize_version_index_identity persisted fallback idx =
     (let canonical = canonical_object_id persisted fallback idx;
          normalized = is_blank persisted \<or> vi_object_id idx \<noteq> canonical \<or>
            (\<exists>r \<in> set (hm_values (vi_versions idx)).
               is_blank (vr_object_id r) \<or> vr_object_id r \<noteq> canonical)
      in (normalized,
          idx\<lparr>vi_object_id := canonical,
              vi_versions := hm_map_values (normalize_record_identity canonical) (vi_versions idx)\<rparr>))"

definition validate_version_index_identity :: "string \<Rightarrow> file_version_index \<Rightarrow> bool" where
  "validate_version_index_identity object_id idx \<longleftrightarrow>
     \<not> is_blank object_id \<and> vi_object_id idx = object_id \<and>
     find (\<lambda>r. vr_object_id r \<noteq> object_id) (hm_values (vi_versions idx)) = None"

section \<open>Heads and the preferred head\<close>

definition recompute_head_version_ids :: "file_version_index \<Rightarrow> string list" where
  "recompute_head_version_ids idx =
     sort (fold (\<lambda>r ids. fold (\<lambda>p ids. removeAll p ids) (vr_parent_version_ids r) ids)
       (hm_values (vi_versions idx)) (hm_keys (vi_versions idx)))"

fun rank_state :: "version_state \<Rightarrow> nat" where
  "rank_state Confirmed = 2"
| "rank_state Provisional = 1"

datatype preferred_head_reason =
    ConfirmedPreferredOverProvisional
  | ProvisionalFallbackNoConfirmed
  | DeterministicTiebreakVersionId

definition head_records :: "file_version_index \<Rightarrow> file_version_record list" where
  "head_records idx = List.map_filter (version_of idx) (vi_head_version_ids idx)"

abbreviation head_key :: "file_version_record \<Rightarrow> nat \<times> u64 \<times> string" where
  "head_key r \<equiv> (rank_state (vr_state r), vr_created_at_unix r, vr_version_id r)"

abbreviation recency_key :: "file_version_record \<Rightarrow> u64 \<times> string" where
  "recency_key r \<equiv> (vr_created_at_unix r, vr_version_id r)"

definition choose_preferred_head_with_reason ::
  "file_version_index \<Rightarrow> (string \<times> preferred_head_reason) option" where
  "choose_preferred_head_with_reason idx =
     (case sort_desc head_key (head_records idx) of
        [] \<Rightarrow> None
      | best # rest \<Rightarrow>
          let tied = (\<exists>e \<in> set rest. rank_state (vr_state e) = rank_state (vr_state best) \<and>
                        vr_created_at_unix e = vr_created_at_unix best);
              reason = (if tied then DeterministicTiebreakVersionId
                        else if vr_state best = Confirmed then ConfirmedPreferredOverProvisional
                        else ProvisionalFallbackNoConfirmed)
          in Some (vr_version_id best, reason))"

definition choose_preferred_head :: "file_version_index \<Rightarrow> string option" where
  "choose_preferred_head idx = map_option fst (choose_preferred_head_with_reason idx)"

section \<open>Read modes\<close>

datatype object_read_mode = Preferred | ConfirmedOnly | ProvisionalAllowed

fun version_record_for_read_mode ::
  "file_version_index \<Rightarrow> object_read_mode \<Rightarrow> file_version_record option" where
  "version_record_for_read_mode idx Preferred =
     (if head_records idx = [] then None
      else (case choose_preferred_head idx of None \<Rightarrow> None | Some v \<Rightarrow> version_of idx v))"
| "version_record_for_read_mode idx ConfirmedOnly =
     first_opt (sort_desc recency_key (filter (\<lambda>r. vr_state r = Confirmed) (head_records idx)))"
| "version_record_for_read_mode idx ProvisionalAllowed =
     first_opt (sort_desc recency_key (head_records idx))"

definition manifest_hash_for_read_mode ::
  "file_version_index \<Rightarrow> object_read_mode \<Rightarrow> string option" where
  "manifest_hash_for_read_mode idx mode =
     map_option vr_manifest_hash (version_record_for_read_mode idx mode)"

definition snapshot_version_record_for_manifest ::
  "file_version_index \<Rightarrow> string \<Rightarrow> u64 \<Rightarrow> file_version_record option" where
  "snapshot_version_record_for_manifest idx h max_created =
     max_by_key recency_key
       (filter (\<lambda>r. vr_created_at_unix r \<le> max_created)
         (filter (\<lambda>r. vr_manifest_hash r = h) (hm_values (vi_versions idx))))"

section \<open>The recoverable ancestor of a tombstone\<close>

text \<open>The loop pops from the end of \<open>pending\<close> (\<open>Vec::pop\<close>) and remembers every popped id.\<close>

function recover_loop ::
  "file_version_index \<Rightarrow> string list \<Rightarrow> string list \<Rightarrow> file_version_record option" where
  "recover_loop idx pending visited =
     (if pending = [] then None
      else let v = last pending; rest = butlast pending in
        if v \<in> set visited then recover_loop idx rest visited
        else (case version_of idx v of
                None \<Rightarrow> recover_loop idx rest (v # visited)
              | Some r \<Rightarrow>
                  if \<not> is_tombstone r then Some r
                  else recover_loop idx (rest @ vr_parent_version_ids r) (v # visited)))"
  by pat_completeness auto

lemma unvisited_decreases:
  assumes "version_of idx v = Some r" "v \<notin> set visited"
  shows "card (fst ` set (vi_versions idx) - set (v # visited))
    < card (fst ` set (vi_versions idx) - set visited)"
proof (rule psubset_card_mono)
  have "v \<in> fst ` set (vi_versions idx)" using map_of_SomeD [OF assms(1)] by force
  then show "fst ` set (vi_versions idx) - set (v # visited) \<subset> fst ` set (vi_versions idx) - set visited"
    using assms(2) by auto
qed simp

lemma unvisited_mono:
  "card (fst ` set (vi_versions idx) - set (v # visited)) \<le> card (fst ` set (vi_versions idx) - set visited)"
  by (rule card_mono) auto

termination recover_loop
proof (relation "measures [\<lambda>(idx, pending, visited). card (fst ` set (vi_versions idx) - set visited),
    \<lambda>(idx, pending, visited). length pending]")
qed (use unvisited_mono in \<open>auto simp: unvisited_decreases order_le_less simp del: set_simps\<close>)

declare recover_loop.simps [simp del]

definition recoverable_tombstone_ancestor ::
  "file_version_index \<Rightarrow> file_version_record \<Rightarrow> file_version_record option" where
  "recoverable_tombstone_ancestor idx t = recover_loop idx (vr_parent_version_ids t) []"


section \<open>Projections, snapshots and replica order\<close>

record version_index_head_projection =
  hp_object_id :: string
  hp_head_version_id :: "string option"
  hp_head_manifest_hash :: "string option"
  hp_logical_path :: "string option"
  hp_removed_at_unix :: "u64 option"
  hp_restore_source_path :: "string option"
  hp_restore_source_object_id :: "string option"
  hp_restore_version_id :: "string option"
  hp_moved_source_object_id :: "string option"

definition empty_projection :: "string \<Rightarrow> version_index_head_projection" where
  "empty_projection object_id =
     \<lparr>hp_object_id = object_id, hp_head_version_id = None, hp_head_manifest_hash = None,
      hp_logical_path = None, hp_removed_at_unix = None, hp_restore_source_path = None,
      hp_restore_source_object_id = None, hp_restore_version_id = None,
      hp_moved_source_object_id = None\<rparr>"

definition projection_restore_source ::
  "string \<Rightarrow> file_version_index \<Rightarrow> file_version_record \<Rightarrow> string
     \<Rightarrow> (string \<times> string \<times> string \<times> string option) option" where
  "projection_restore_source object_id idx head path =
     (case (vr_copied_from_object_id head, vr_copied_from_version_id head) of
        (Some so, Some sv) \<Rightarrow> Some (unwrap_or path (vr_copied_from_path head), so, sv, Some so)
      | _ \<Rightarrow> map_option (\<lambda>r. (unwrap_or path (vr_logical_path r), object_id, vr_version_id r, None))
               (recoverable_tombstone_ancestor idx head))"

definition head_projection ::
  "string \<Rightarrow> file_version_index \<Rightarrow> version_index_head_projection" where
  "head_projection object_id idx =
     (let p0 = empty_projection object_id in
      case or_else (vi_preferred_head_version_id idx) (choose_preferred_head idx) of
        None \<Rightarrow> p0
      | Some v \<Rightarrow> (case version_of idx v of
          None \<Rightarrow> p0
        | Some head \<Rightarrow>
            let p1 = p0\<lparr>hp_head_version_id := Some v,
                  hp_head_manifest_hash := Some (vr_manifest_hash head),
                  hp_logical_path :=
                    opt_filter (\<lambda>p. p \<noteq> []) (map_option trim (vr_logical_path head))\<rparr>
            in if \<not> is_tombstone head then p1
               else (case hp_logical_path p1 of
                 None \<Rightarrow> p1
               | Some path \<Rightarrow>
                   let p2 = p1\<lparr>hp_removed_at_unix := Some (vr_created_at_unix head)\<rparr>
                   in (case projection_restore_source object_id idx head path of
                         None \<Rightarrow> p2
                       | Some (sp, so, sv, moved) \<Rightarrow>
                           p2\<lparr>hp_restore_source_path := Some sp,
                              hp_restore_source_object_id := Some so,
                              hp_restore_version_id := Some sv,
                              hp_moved_source_object_id := moved\<rparr>))))"

record snapshot_manifest =
  sm_id :: string
  sm_created_at_unix :: u64
  sm_objects :: "(string, string) hashmap"
  sm_object_ids :: "(string, string) hashmap"

definition normalize_snapshot_manifest_object_ids :: "snapshot_manifest \<Rightarrow> snapshot_manifest" where
  "normalize_snapshot_manifest_object_ids s =
     s\<lparr>sm_object_ids :=
       filter (\<lambda>(path, oid). hm_contains (sm_objects s) path \<and> \<not> is_blank oid) (sm_object_ids s)\<rparr>"

definition snapshot_path_binding ::
  "snapshot_manifest option \<Rightarrow> string \<Rightarrow> string option \<times> string option" where
  "snapshot_path_binding s path =
     (case s of
        None \<Rightarrow> (None, None)
      | Some m \<Rightarrow> (map_of (sm_objects m) path, map_of (sm_object_ids m) path))"

definition snapshot_changed_paths ::
  "snapshot_manifest option \<Rightarrow> snapshot_manifest \<Rightarrow> string list" where
  "snapshot_changed_paths previous current =
     filter (\<lambda>p. snapshot_path_binding previous p \<noteq> snapshot_path_binding (Some current) p)
       (bts_collect
         ((case previous of None \<Rightarrow> [] | Some m \<Rightarrow> hm_keys (sm_objects m) @ hm_keys (sm_object_ids m))
          @ hm_keys (sm_objects current) @ hm_keys (sm_object_ids current)))"

abbreviation u128_max :: nat where
  "u128_max \<equiv> 340282366920938463463374607431768211455"

definition parse_replica_version_nanos :: "string \<Rightarrow> nat option" where
  "parse_replica_version_nanos v =
     (case split_once ''-'' v of
        None \<Rightarrow> None
      | Some (_, rest) \<Rightarrow> parse_uint u128_max (hd (split_char CHR ''-'' rest)))"

definition replica_version_order_key :: "string option \<Rightarrow> u64 \<Rightarrow> u64 \<times> nat" where
  "replica_version_order_key version_id created =
     (created,
      unwrap_or (min (created * 1000000000) u128_max)
        (Option.bind version_id parse_replica_version_nanos))"

definition replication_bundle_record_matches ::
  "file_version_record \<Rightarrow> file_version_record \<Rightarrow> bool" where
  "replication_bundle_record_matches a b \<longleftrightarrow>
     vr_version_id a = vr_version_id b \<and> vr_object_id a = vr_object_id b \<and>
     vr_manifest_hash a = vr_manifest_hash b \<and> vr_logical_path a = vr_logical_path b \<and>
     vr_parent_version_ids a = vr_parent_version_ids b \<and> vr_state a = vr_state b \<and>
     vr_created_at_unix a = vr_created_at_unix b \<and>
     vr_copied_from_object_id a = vr_copied_from_object_id b \<and>
     vr_copied_from_version_id a = vr_copied_from_version_id b \<and>
     vr_copied_from_path a = vr_copied_from_path b"

record legacy_candidate =
  lc_object_id :: string
  lc_priority :: nat
  lc_created_at_unix :: u64

definition update_legacy_object_id_candidate ::
  "(string \<times> string, legacy_candidate) hashmap \<Rightarrow> string \<Rightarrow> string \<Rightarrow> string \<Rightarrow> nat \<Rightarrow> u64
     \<Rightarrow> (string \<times> string, legacy_candidate) hashmap" where
  "update_legacy_object_id_candidate m path h oid prio created =
     (let replace = (case map_of m (path, h) of
                       None \<Rightarrow> True
                     | Some e \<Rightarrow> (lc_priority e, lc_created_at_unix e, lc_object_id e) < (prio, created, oid))
      in if replace
         then hm_insert (path, h)
                \<lparr>lc_object_id = oid, lc_priority = prio, lc_created_at_unix = created\<rparr> m
         else m)"

text \<open>The summary lists every field of a record but its object id; the model keeps the records.\<close>

record version_graph_summary =
  gs_key :: string
  gs_object_id :: string
  gs_preferred_head_version_id :: "string option"
  gs_preferred_head_reason :: "preferred_head_reason option"
  gs_head_version_ids :: "string list"
  gs_versions :: "file_version_record list"

definition version_graph_summary_of :: "string \<Rightarrow> file_version_index \<Rightarrow> version_graph_summary" where
  "version_graph_summary_of key idx =
     (let preferred = choose_preferred_head_with_reason idx in
      \<lparr>gs_key = key, gs_object_id = vi_object_id idx,
       gs_preferred_head_version_id = map_option fst preferred,
       gs_preferred_head_reason = map_option snd preferred,
       gs_head_version_ids = vi_head_version_ids idx,
       gs_versions = sort_desc recency_key (hm_values (vi_versions idx))\<rparr>)"


section \<open>The invariant of an index\<close>

definition keyed_by_id :: "file_version_index \<Rightarrow> bool" where
  "keyed_by_id idx \<longleftrightarrow> (\<forall>v r. version_of idx v = Some r \<longrightarrow> vr_version_id r = v)"

definition leaf :: "file_version_index \<Rightarrow> string \<Rightarrow> bool" where
  "leaf idx v \<longleftrightarrow> version_of idx v \<noteq> None \<and>
     (\<forall>u r. version_of idx u = Some r \<longrightarrow> v \<notin> set (vr_parent_version_ids r))"

text \<open>Every leaf of the version graph is listed as a head, heads are versions of the index, and
  the preferred head is the chosen one.\<close>

definition index_ok :: "file_version_index \<Rightarrow> bool" where
  "index_ok idx \<longleftrightarrow>
     hm_ok (vi_versions idx) \<and> keyed_by_id idx \<and>
     (\<forall>v r. version_of idx v = Some r \<longrightarrow> vr_object_id r = vi_object_id idx) \<and>
     sorted_wrt (<) (vi_head_version_ids idx) \<and>
     (\<forall>v \<in> set (vi_head_version_ids idx). version_of idx v \<noteq> None) \<and>
     (\<forall>v. leaf idx v \<longrightarrow> v \<in> set (vi_head_version_ids idx)) \<and>
     vi_preferred_head_version_id idx = choose_preferred_head idx"

lemma empty_index_ok: "index_ok (empty_version_index oid)"
  by (simp add: index_ok_def empty_version_index_def hm_ok_def keyed_by_id_def leaf_def
      choose_preferred_head_def choose_preferred_head_with_reason_def head_records_def
      sort_desc_def List.map_filter_def)

lemma set_fold_removeAll: "set (fold (\<lambda>p ids. removeAll p ids) ps ids) = set ids - set ps"
  by (induction ps arbitrary: ids) auto

lemma distinct_fold_removeAll: "distinct ids \<Longrightarrow> distinct (fold (\<lambda>p ids. removeAll p ids) ps ids)"
  by (induction ps arbitrary: ids) (auto simp: distinct_removeAll)

lemma set_remove_parents:
  "set (fold (\<lambda>r ids. fold (\<lambda>p ids. removeAll p ids) (f r) ids) rs ids)
     = set ids - (\<Union>r \<in> set rs. set (f r))"
  by (induction rs arbitrary: ids) (auto simp: set_fold_removeAll)

lemma distinct_remove_parents:
  "distinct ids \<Longrightarrow> distinct (fold (\<lambda>r ids. fold (\<lambda>p ids. removeAll p ids) (f r) ids) rs ids)"
  by (induction rs arbitrary: ids) (auto simp: distinct_fold_removeAll)

lemma set_recompute_heads:
  assumes "hm_ok (vi_versions idx)"
  shows "v \<in> set (recompute_head_version_ids idx) \<longleftrightarrow> leaf idx v"
proof -
  have "v \<in> set (recompute_head_version_ids idx) \<longleftrightarrow>
      v \<in> fst ` set (vi_versions idx) \<and> (\<forall>r \<in> set (hm_values (vi_versions idx)). v \<notin> set (vr_parent_version_ids r))"
    by (auto simp: recompute_head_version_ids_def set_remove_parents)
  then show ?thesis
    unfolding leaf_def Ball_def hm_value_iff [OF assms]
    by (metis map_of_eq_None_iff)
qed

lemma recompute_heads_strict:
  "hm_ok (vi_versions idx) \<Longrightarrow> sorted_wrt (<) (recompute_head_version_ids idx)"
  by (simp add: recompute_head_version_ids_def strict_sorted_iff distinct_remove_parents hm_ok_def)

lemma set_head_records:
  "r \<in> set (head_records idx) \<longleftrightarrow>
     (\<exists>v \<in> set (vi_head_version_ids idx). version_of idx v = Some r)"
  by (force simp: head_records_def List.map_filter_def)

lemma head_records_inj:
  assumes "keyed_by_id idx"
  shows "inj_on head_key (set (head_records idx))" "inj_on recency_key (set (head_records idx))"
  using assms by (auto simp: inj_on_def set_head_records keyed_by_id_def)

lemma choose_preferred_head_first:
  "choose_preferred_head idx = map_option vr_version_id (first_opt (sort_desc head_key (head_records idx)))"
  by (cases "sort_desc head_key (head_records idx)")
    (simp_all add: choose_preferred_head_def choose_preferred_head_with_reason_def Let_def
      del: set_sort_key_by)

lemma choose_preferred_head_None: "choose_preferred_head idx = None \<longleftrightarrow> head_records idx = []"
  by (simp add: choose_preferred_head_first)

lemma preferred_record:
  assumes "keyed_by_id idx" "head_records idx \<noteq> []"
  obtains r where "first_opt (sort_desc head_key (head_records idx)) = Some r"
    "choose_preferred_head idx = Some (vr_version_id r)"
    "version_of idx (vr_version_id r) = Some r" "vr_version_id r \<in> set (vi_head_version_ids idx)"
    "\<forall>q \<in> set (head_records idx). head_key q \<le> head_key r"
proof -
  obtain r where r: "first_opt (sort_desc head_key (head_records idx)) = Some r"
    using assms(2) by (cases "sort_desc head_key (head_records idx)") auto
  from first_sort_desc [OF r] obtain v where
    v: "v \<in> set (vi_head_version_ids idx)" "version_of idx v = Some r"
      "\<forall>q \<in> set (head_records idx). head_key q \<le> head_key r"
    by (auto simp: set_head_records)
  have "vr_version_id r = v" using assms(1) v(2) by (simp add: keyed_by_id_def)
  then show ?thesis using that r v choose_preferred_head_first [of idx] by simp
qed

lemma read_mode_preferred_first:
  assumes "keyed_by_id idx"
  shows "version_record_for_read_mode idx Preferred = first_opt (sort_desc head_key (head_records idx))"
proof (cases "head_records idx = []")
  case True
  then show ?thesis by (simp add: sort_desc_def)
next
  case False
  then obtain r where "first_opt (sort_desc head_key (head_records idx)) = Some r"
      "choose_preferred_head idx = Some (vr_version_id r)" "version_of idx (vr_version_id r) = Some r"
    by (rule preferred_record [OF assms])
  then show ?thesis using False by simp
qed


section \<open>The search for a recoverable ancestor\<close>

inductive tomb_reach :: "file_version_index \<Rightarrow> string set \<Rightarrow> string \<Rightarrow> bool" for idx S where
  start: "v \<in> S \<Longrightarrow> tomb_reach idx S v"
| parent: "tomb_reach idx S u \<Longrightarrow> version_of idx u = Some r \<Longrightarrow> is_tombstone r \<Longrightarrow>
    v \<in> set (vr_parent_version_ids r) \<Longrightarrow> tomb_reach idx S v"

text \<open>The loop invariant: what was visited is unknown or a tombstone whose parents were queued.\<close>

definition swept :: "file_version_index \<Rightarrow> string list \<Rightarrow> string list \<Rightarrow> bool" where
  "swept idx pending visited \<longleftrightarrow>
     (\<forall>v \<in> set visited. \<forall>r. version_of idx v = Some r \<longrightarrow>
        is_tombstone r \<and> set (vr_parent_version_ids r) \<subseteq> set pending \<union> set visited)"

lemma recover_loop_Nil: "recover_loop idx [] visited = None"
  by (subst recover_loop.simps) simp

lemma recover_loop_snoc:
  "recover_loop idx (rest @ [v]) visited =
     (if v \<in> set visited then recover_loop idx rest visited
      else (case version_of idx v of
              None \<Rightarrow> recover_loop idx rest (v # visited)
            | Some r \<Rightarrow> if \<not> is_tombstone r then Some r
                else recover_loop idx (rest @ vr_parent_version_ids r) (v # visited)))"
  by (subst recover_loop.simps) (simp add: Let_def)

definition recover_ok :: "file_version_index \<Rightarrow> string set \<Rightarrow> file_version_record option \<Rightarrow> bool" where
  "recover_ok idx S res \<longleftrightarrow>
     (case res of
        Some r \<Rightarrow> \<exists>v. tomb_reach idx S v \<and> version_of idx v = Some r \<and> \<not> is_tombstone r
      | None \<Rightarrow> \<not> (\<exists>v r. tomb_reach idx S v \<and> version_of idx v = Some r \<and> \<not> is_tombstone r))"

lemma swept_closed:
  assumes "swept idx [] visited" "S \<subseteq> set visited" "tomb_reach idx S v"
  shows "v \<in> set visited"
  using assms(3) by (induction rule: tomb_reach.induct) (use assms(1,2) in \<open>auto simp: swept_def\<close>)

lemma recover_loop_correct:
  "swept idx pending visited \<Longrightarrow> S \<subseteq> set pending \<union> set visited \<Longrightarrow>
   \<forall>v \<in> set pending. tomb_reach idx S v \<Longrightarrow> recover_ok idx S (recover_loop idx pending visited)"
proof (induction idx pending visited rule: recover_loop.induct)
  case (1 idx pending visited)
  show ?case
  proof (cases pending rule: rev_cases)
    case Nil
    then have "is_tombstone r" if "tomb_reach idx S v" "version_of idx v = Some r" for v r
      using swept_closed [of idx visited S v] that "1.prems"(1,2) by (auto simp: swept_def)
    then show ?thesis using Nil by (auto simp: recover_loop_Nil recover_ok_def)
  next
    case (snoc rest v)
    have v: "tomb_reach idx S v" using "1.prems"(3) snoc by simp
    have ne: "pending \<noteq> []" and last: "v = last pending" and butlast: "rest = butlast pending"
      using snoc by simp_all
    note IH = "1.IH" [OF ne last butlast]
    consider "v \<in> set visited" | "v \<notin> set visited" "version_of idx v = None"
      | r where "v \<notin> set visited" "version_of idx v = Some r" "is_tombstone r"
      | r where "v \<notin> set visited" "version_of idx v = Some r" "\<not> is_tombstone r" by fastforce
    then show ?thesis
    proof cases
      case c: 1
      have "recover_ok idx S (recover_loop idx rest visited)"
        by (rule IH(1)) (use c "1.prems" snoc in \<open>auto simp: swept_def\<close>)
      then show ?thesis using c by (simp add: snoc recover_loop_snoc)
    next
      case c: 2
      have "recover_ok idx S (recover_loop idx rest (v # visited))"
        by (rule IH(2)) (use c "1.prems" snoc in \<open>auto simp: swept_def\<close>)
      then show ?thesis using c by (simp add: snoc recover_loop_snoc)
    next
      case c: 3
      have "recover_ok idx S (recover_loop idx (rest @ vr_parent_version_ids r) (v # visited))"
        by (rule IH(3)) (use c "1.prems" snoc tomb_reach.parent [OF v] in \<open>auto simp: swept_def\<close>)
      then show ?thesis using c by (simp add: snoc recover_loop_snoc)
    next
      case c: 4
      then show ?thesis using v by (auto simp: snoc recover_loop_snoc recover_ok_def)
    qed
  qed
qed

lemma canonical_nonblank: "\<not> is_blank (canonical_object_id p f idx)"
proof -
  have "CHR ''l'' \<in> set (trim (''legacy-empty-index-'' @ f))"
    by (rule trim_keeps) (simp_all add: white_space_def)
  then have "trim (''legacy-empty-index-'' @ f) \<noteq> []" by force
  then show ?thesis by (simp add: canonical_object_id_def del: append_Cons)
qed

lemma normalize_record_id: "vr_object_id (normalize_record_identity c r) = c"
  by (simp add: normalize_record_identity_def)

lemma normalize_unchanged:
  assumes "\<not> is_blank p" "vi_object_id idx = p"
    "\<forall>r \<in> set (hm_values (vi_versions idx)). vr_object_id r = p"
  shows "normalize_version_index_identity p f idx = (False, idx)"
proof -
  have c: "canonical_object_id p f idx = p" using assms(1) by (simp add: canonical_object_id_def)
  have "map (\<lambda>(k, v). (k, normalize_record_identity p v)) (vi_versions idx) = vi_versions idx"
    using assms(1,3) by (intro map_idI) (force simp: normalize_record_identity_def)
  then have "idx\<lparr>vi_object_id := p, vi_versions := hm_map_values (normalize_record_identity p) (vi_versions idx)\<rparr>
      = idx\<lparr>vi_object_id := vi_object_id idx, vi_versions := vi_versions idx\<rparr>"
    unfolding hm_map_values_def assms(2) by simp
  then show ?thesis
    using assms by (auto simp: normalize_version_index_identity_def c Let_def)
qed

section \<open>Properties\<close>

text \<open>A concrete index for the witnesses: a confirmed head, and a newer provisional one.\<close>

definition sample_record :: "string \<Rightarrow> version_state \<Rightarrow> u64 \<Rightarrow> file_version_record" where
  "sample_record v st t =
     \<lparr>vr_version_id = v, vr_object_id = ''obj'', vr_manifest_hash = ''m-'' @ v,
      vr_logical_path = Some ''a.txt'', vr_parent_version_ids = [], vr_state = st,
      vr_created_at_unix = t, vr_copied_from_object_id = None, vr_copied_from_version_id = None,
      vr_copied_from_path = None\<rparr>"

definition sample_index :: file_version_index where
  "sample_index = (empty_version_index ''obj'')
     \<lparr>vi_versions := [(''v1'', sample_record ''v1'' Confirmed 10), (''v2'', sample_record ''v2'' Provisional 20)],
      vi_head_version_ids := [''v1'', ''v2''], vi_preferred_head_version_id := Some ''v1''\<rparr>"

lemma sample_versions:
  "version_of sample_index v =
     (if v = ''v1'' then Some (sample_record ''v1'' Confirmed 10)
      else if v = ''v2'' then Some (sample_record ''v2'' Provisional 20) else None)"
  by (simp add: sample_index_def)

lemma sample_heads:
  "head_records sample_index = [sample_record ''v1'' Confirmed 10, sample_record ''v2'' Provisional 20]"
  by (simp add: head_records_def sample_index_def List.map_filter_def)

lemma sample_keyed: "keyed_by_id sample_index"
  by (simp add: keyed_by_id_def sample_versions sample_record_def)




text \<open>Reading in mode \<open>Preferred\<close> is reading the newest confirmed head if there is one and the
  newest head of any state otherwise: \<open>Preferred\<close> is \<open>ConfirmedOnly\<close> falling back to
  \<open>ProvisionalAllowed\<close>.\<close>

lemma preferred_read_is_confirmed_or_newest:
  assumes "keyed_by_id idx"
  shows "version_record_for_read_mode idx Preferred =
    or_else (version_record_for_read_mode idx ConfirmedOnly)
      (version_record_for_read_mode idx ProvisionalAllowed)"
proof -
  let ?hs = "head_records idx" and ?cs = "filter (\<lambda>r. vr_state r = Confirmed) (head_records idx)"
  note inj = head_records_inj [OF assms]
  have rank: "rank_state s = 2 \<longleftrightarrow> s = Confirmed" "rank_state s \<le> 2" "1 \<le> rank_state s" for s
    by (cases s; simp)+
  have injc: "inj_on recency_key (set ?cs)" using inj(2) by (rule inj_on_subset) auto
  show ?thesis
  proof (cases "first_opt (sort_desc head_key ?hs)")
    case None
    then show ?thesis using read_mode_preferred_first [OF assms] by (simp add: sort_desc_def)
  next
    case (Some r)
    note top = first_sort_desc [OF Some]
    show ?thesis
    proof (cases "vr_state r = Confirmed")
      case True
      have "\<forall>q \<in> set ?cs. recency_key q \<le> recency_key r"
        using top True by (auto simp: less_eq_prod_def less_le_not_le)
      then have "first_opt (sort_desc recency_key ?cs) = Some r"
        using first_sort_desc_iff [OF injc] top True by simp
      then show ?thesis using read_mode_preferred_first [OF assms] Some by simp
    next
      case False
      then have "rank_state (vr_state r) = 1" by (cases "vr_state r") auto
      then have one: "rank_state (vr_state q) = 1" if "q \<in> set ?hs" for q
        using bspec [OF conjunct2 [OF top] that] rank(3) [of "vr_state q"] by (auto simp: less_eq_prod_def)
      then have "vr_state q \<noteq> Confirmed" if "q \<in> set ?hs" for q using that by force
      then have "?cs = []" "\<forall>q \<in> set ?hs. recency_key q \<le> recency_key r"
        using top one \<open>rank_state (vr_state r) = 1\<close> by (auto simp: filter_empty_conv less_eq_prod_def)
      then have "first_opt (sort_desc recency_key ?hs) = Some r"
        using first_sort_desc_iff [OF inj(2)] top by blast
      then show ?thesis
        using read_mode_preferred_first [OF assms] Some \<open>?cs = []\<close> by (simp add: sort_desc_def)
    qed
  qed
qed

text \<open>C33: The search for the version to restore a removed object from always ends, and it finds a
  version that is not a tombstone and is reached from the tombstone through tombstones only,
  whenever there is one.\<close>

theorem recoverable_ancestor_correct:
  "case recoverable_tombstone_ancestor idx t of
     Some r \<Rightarrow> \<exists>v. tomb_reach idx (set (vr_parent_version_ids t)) v \<and> version_of idx v = Some r \<and>
                 \<not> is_tombstone r
   | None \<Rightarrow> \<not> (\<exists>v r. tomb_reach idx (set (vr_parent_version_ids t)) v \<and> version_of idx v = Some r \<and>
                 \<not> is_tombstone r)"
proof -
  have "recover_ok idx (set (vr_parent_version_ids t)) (recover_loop idx (vr_parent_version_ids t) [])"
    by (rule recover_loop_correct) (auto simp: swept_def intro: tomb_reach.start)
  then show ?thesis by (simp add: recoverable_tombstone_ancestor_def recover_ok_def)
qed



text \<open>Two consecutive snapshots are compared completely: the changed paths are exactly the paths
  whose manifest hash or object id binding differs, each listed once, in order.\<close>

lemma snapshot_changed_paths_correct:
  "sorted_wrt (<) (snapshot_changed_paths prev cur) \<and>
   (\<forall>p. p \<in> set (snapshot_changed_paths prev cur) \<longleftrightarrow>
      snapshot_path_binding prev p \<noteq> snapshot_path_binding (Some cur) p)"
proof -
  have "map_of m p = None" if "p \<notin> fst ` set m" for m :: "(string, string) hashmap" and p
    using that by (simp add: map_of_eq_None_iff)
  then have "p \<in> set (snapshot_changed_paths prev cur)"
    if "snapshot_path_binding prev p \<noteq> snapshot_path_binding (Some cur) p" for p
    using that by (cases prev) (auto simp: snapshot_changed_paths_def snapshot_path_binding_def)
  moreover have "sorted_wrt (<) (snapshot_changed_paths prev cur)"
    unfolding snapshot_changed_paths_def by (rule sorted_filter_strict) simp
  ultimately show ?thesis by (auto simp: snapshot_changed_paths_def)
qed

end
