(* ===== verification/Current_Objects.thy ===== *)
theory Current_Objects
  imports Range_Chunk_Cache
begin

text \<open>
  The current-object bindings of the store (crates/server-node-sdk/src/storage/mod.rs,
  \<open>current_object_entry\<close>, \<open>upsert_current_object\<close>, \<open>remove_current_object\<close>): a database table
  behind a bounded read-through, write-through cache, which is a \<open>RangeChunkCache\<close>.  The locale
  \<open>bounded_cache\<close> is what the store relies on from the cache; its client lemmas give coherence once,
  and the interpretation discharges them for the arena implementation of \<open>Range_Chunk_Cache\<close>.  The
  property shows that callers cannot observe the cache; theory \<open>Object_Store\<close> therefore uses the
  bare table.
\<close>

section \<open>What a client relies on from a cache\<close>

locale bounded_cache =
  fixes get :: "'c \<Rightarrow> 'k \<Rightarrow> ('v option \<times> 'c) option"
    and ins :: "'c \<Rightarrow> 'k \<Rightarrow> 'v \<Rightarrow> ('v \<times> 'c) option"
    and rem :: "'c \<Rightarrow> 'k \<Rightarrow> ('v option \<times> 'c) option"
    and holds :: "'c \<Rightarrow> ('k \<rightharpoonup> 'v) \<Rightarrow> bool"
  assumes get_holds: "holds c m \<Longrightarrow> \<exists>d n. get c k = Some (m k, d) \<and> holds d n \<and> n \<subseteq>\<^sub>m m"
    and ins_holds: "holds c m \<Longrightarrow> \<exists>d n. ins c k v = Some (v, d) \<and> holds d n \<and> n \<subseteq>\<^sub>m m(k \<mapsto> v)"
    and rem_holds: "holds c m \<Longrightarrow> \<exists>d n. rem c k = Some (m k, d) \<and> holds d n \<and> n \<subseteq>\<^sub>m m(k := None)"
begin

text \<open>The cache is coherent with the table behind it: it holds nothing the table does not have.\<close>

definition coherent :: "'c \<Rightarrow> ('k \<rightharpoonup> 'v) \<Rightarrow> bool" where
  "coherent c rows \<longleftrightarrow> (\<exists>m. holds c m \<and> m \<subseteq>\<^sub>m rows)"

lemma get_coherent:
  assumes "coherent c rows"
  shows "\<exists>r d. get c k = Some (r, d) \<and> coherent d rows \<and> (r = None \<or> r = rows k)"
proof -
  from assms obtain m where m: "holds c m" "m \<subseteq>\<^sub>m rows" by (auto simp: coherent_def)
  from get_holds [OF m(1), of k] obtain d n where
    d: "get c k = Some (m k, d)" "holds d n" "n \<subseteq>\<^sub>m m" by blast
  have "coherent d rows" using d(2,3) m(2) map_le_trans unfolding coherent_def by blast
  moreover have "m k = None \<or> m k = rows k" using m(2) by (force simp: map_le_def dom_def)
  ultimately show ?thesis using d(1) by blast
qed

lemma ins_coherent:
  assumes "coherent c rows"
  shows "\<exists>d. ins c k v = Some (v, d) \<and> coherent d (rows(k \<mapsto> v))"
proof -
  from assms obtain m where m: "holds c m" "m \<subseteq>\<^sub>m rows" by (auto simp: coherent_def)
  from ins_holds [OF m(1), of k v] obtain d n where
    d: "ins c k v = Some (v, d)" "holds d n" "n \<subseteq>\<^sub>m m(k \<mapsto> v)" by blast
  have "m(k \<mapsto> v) \<subseteq>\<^sub>m rows(k \<mapsto> v)" using m(2) by (auto simp: map_le_def)
  with d(2,3) have "coherent d (rows(k \<mapsto> v))" using map_le_trans unfolding coherent_def by blast
  then show ?thesis using d(1) by blast
qed

lemma rem_coherent:
  assumes "coherent c rows"
  shows "\<exists>r d. rem c k = Some (r, d) \<and> coherent d (rows(k := None))"
proof -
  from assms obtain m where m: "holds c m" "m \<subseteq>\<^sub>m rows" by (auto simp: coherent_def)
  from rem_holds [OF m(1), of k] obtain d n where
    d: "rem c k = Some (m k, d)" "holds d n" "n \<subseteq>\<^sub>m m(k := None)" by blast
  have "m(k := None) \<subseteq>\<^sub>m rows(k := None)" using m(2) by (auto simp: map_le_def)
  with d(2,3) have "coherent d (rows(k := None))" using map_le_trans unfolding coherent_def by blast
  then show ?thesis using d(1) by blast
qed

end

definition cache_holds :: "('k, 'v) range_chunk_cache \<Rightarrow> ('k \<rightharpoonup> 'v) \<Rightarrow> bool" where
  "cache_holds c m \<longleftrightarrow> (\<exists>xs. cache_rep c xs \<and> m = map_of xs)"

lemma map_of_take_le:
  assumes "distinct (map fst xs)"
  shows "map_of (take n xs) \<subseteq>\<^sub>m map_of xs"
  unfolding map_le_def
proof
  fix k assume "k \<in> dom (map_of (take n xs))"
  then obtain v where v: "map_of (take n xs) k = Some v" by auto
  then have "(k, v) \<in> set xs" by (meson in_set_takeD map_of_SomeD)
  then show "map_of (take n xs) k = map_of xs k" using assms v by simp
qed

interpretation rcc: bounded_cache cache_get cache_insert cache_remove cache_holds
proof
  fix c :: "('a, 'b) range_chunk_cache" and m k v
  assume "cache_holds c m"
  then obtain xs where xs: "cache_rep c xs" and m: "m = map_of xs" by (auto simp: cache_holds_def)
  have dist: "distinct (map fst ((k, v) # AList.delete k xs))"
    using distinct_delete [OF cache_rep_distinct [OF xs], of k] by (auto simp: AList.delete_eq)
  have "map_of (lru_touch k xs) \<subseteq>\<^sub>m m"
    by (auto simp: m lru_touch_def delete_conv' map_le_def split: option.splits)
  then show "\<exists>d n. cache_get c k = Some (m k, d) \<and> cache_holds d n \<and> n \<subseteq>\<^sub>m m"
    using cache_get_refines [OF xs, of k] unfolding cache_holds_def m by blast
  have "map_of (lru_insert (max_chunks c) k v xs) \<subseteq>\<^sub>m map_of ((k, v) # AList.delete k xs)"
    unfolding lru_insert_def by (rule map_of_take_le [OF dist])
  then have "map_of (lru_insert (max_chunks c) k v xs) \<subseteq>\<^sub>m m(k \<mapsto> v)"
    unfolding m by (simp add: delete_conv')
  then show "\<exists>d n. cache_insert c k v = Some (v, d) \<and> cache_holds d n \<and> n \<subseteq>\<^sub>m m(k \<mapsto> v)"
    using cache_insert_refines [OF xs, of k v] by (auto simp: cache_holds_def)
  have "map_of (AList.delete k xs) \<subseteq>\<^sub>m m(k := None)" by (auto simp: m delete_conv' map_le_def)
  then show "\<exists>d n. cache_remove c k = Some (m k, d) \<and> cache_holds d n \<and> n \<subseteq>\<^sub>m m(k := None)"
    using cache_remove_refines [OF xs, of k] unfolding cache_holds_def m by blast
qed

section \<open>The code\<close>

record current_object_entry =
  coe_manifest_hash :: string
  coe_object_id :: string

record current_objects =
  co_rows :: "(string, current_object_entry) hashmap"
  co_cache :: "(string, current_object_entry) range_chunk_cache"

definition current_object_entry_cached ::
  "current_objects \<Rightarrow> string \<Rightarrow> (current_object_entry option \<times> current_objects) option" where
  "current_object_entry_cached st key =
     (case cache_get (co_cache st) key of
        None \<Rightarrow> None
      | Some (Some entry, c1) \<Rightarrow> Some (Some entry, st\<lparr>co_cache := c1\<rparr>)
      | Some (None, c1) \<Rightarrow>
          (case map_of (co_rows st) key of
             None \<Rightarrow> Some (None, st\<lparr>co_cache := c1\<rparr>)
           | Some entry \<Rightarrow>
               (case cache_insert c1 key entry of
                  None \<Rightarrow> None
                | Some (_, c2) \<Rightarrow> Some (Some entry, st\<lparr>co_cache := c2\<rparr>))))"

definition upsert_current_object_cached ::
  "current_objects \<Rightarrow> string \<Rightarrow> current_object_entry \<Rightarrow> current_objects option" where
  "upsert_current_object_cached st key entry =
     (case cache_insert (co_cache st) key entry of
        None \<Rightarrow> None
      | Some (_, c1) \<Rightarrow> Some (st\<lparr>co_rows := hm_insert key entry (co_rows st), co_cache := c1\<rparr>))"

definition remove_current_object_cached :: "current_objects \<Rightarrow> string \<Rightarrow> current_objects option" where
  "remove_current_object_cached st key =
     (case cache_remove (co_cache st) key of
        None \<Rightarrow> None
      | Some (_, c1) \<Rightarrow> Some (st\<lparr>co_rows := hm_remove key (co_rows st), co_cache := c1\<rparr>))"

datatype current_op = Lookup string | Upsert string current_object_entry | Drop string

fun current_step :: "current_objects \<Rightarrow> current_op \<Rightarrow> current_objects option" where
  "current_step st (Lookup k) = map_option snd (current_object_entry_cached st k)"
| "current_step st (Upsert k e) = upsert_current_object_cached st k e"
| "current_step st (Drop k) = remove_current_object_cached st k"

fun table_step :: "(string, current_object_entry) hashmap \<Rightarrow> current_op
    \<Rightarrow> (string, current_object_entry) hashmap" where
  "table_step rows (Lookup k) = rows"
| "table_step rows (Upsert k e) = hm_insert k e rows"
| "table_step rows (Drop k) = hm_remove k rows"

section \<open>The cache is not observable\<close>

definition table_rep :: "current_objects \<Rightarrow> (string, current_object_entry) hashmap \<Rightarrow> bool" where
  "table_rep st rows \<longleftrightarrow> co_rows st = rows \<and> rcc.coherent (co_cache st) (map_of rows)"

lemma lookup_ok:
  assumes "table_rep st rows"
  shows "\<exists>st'. current_object_entry_cached st k = Some (map_of rows k, st') \<and> table_rep st' rows"
proof -
  have coh: "rcc.coherent (co_cache st) (map_of rows)" and rows: "co_rows st = rows"
    using assms by (auto simp: table_rep_def)
  from rcc.get_coherent [OF coh, of k] obtain r d where
    d: "cache_get (co_cache st) k = Some (r, d)" "rcc.coherent d (map_of rows)"
      "r = None \<or> r = map_of rows k" by blast
  show ?thesis
  proof (cases "r = None \<and> map_of rows k \<noteq> None")
    case True
    then obtain e where e: "map_of rows k = Some e" by auto
    have "(map_of rows)(k \<mapsto> e) = map_of rows" using e by auto
    with rcc.ins_coherent [OF d(2), of k e] obtain d' where
      "cache_insert d k e = Some (e, d')" "rcc.coherent d' (map_of rows)" by auto
    then show ?thesis
      using True d(1) e rows by (simp add: current_object_entry_cached_def table_rep_def)
  next
    case False
    then show ?thesis
      using d rows
      by (cases "map_of rows k") (auto simp: current_object_entry_cached_def table_rep_def)
  qed
qed

interpretation table: simulation table_rep current_step table_step
proof
  fix st rows x
  assume rep: "table_rep st rows"
  then have coh: "rcc.coherent (co_cache st) (map_of rows)" and rows: "co_rows st = rows"
    by (auto simp: table_rep_def)
  show "\<exists>d. current_step st x = Some d \<and> table_rep d (table_step rows x)"
  proof (cases x)
    case (Lookup k)
    then show ?thesis using lookup_ok [OF rep, of k] by auto
  next
    case (Upsert k e)
    then show ?thesis
      using rcc.ins_coherent [OF coh, of k e] rows
      by (auto simp: upsert_current_object_cached_def table_rep_def update_conv')
  next
    case (Drop k)
    then show ?thesis
      using rcc.rem_coherent [OF coh, of k] rows
      by (auto simp: remove_current_object_cached_def table_rep_def delete_conv')
  qed
qed

text \<open>C37: The cache in front of the table of current objects is never observable: after any
  sequence of lookups, upserts and removals, starting from any table and an empty cache of any
  capacity, no operation has panicked and a lookup of any key answers what the table alone would
  answer.\<close>

theorem current_objects_cache_transparent:
  "\<exists>st. run_ops current_step \<lparr>co_rows = rows, co_cache = new_cache m\<rparr> ops = Some st \<and>
     co_rows st = foldl table_step rows ops \<and>
     (\<forall>k. map_option fst (current_object_entry_cached st k) = Some (map_of (foldl table_step rows ops) k))"
proof -
  have "cache_holds (new_cache m) Map.empty"
    using new_cache_rep [of m] by (auto simp: cache_holds_def cache_repm_def intro!: exI [of _ "[]"])
  then have "table_rep \<lparr>co_rows = rows, co_cache = new_cache m\<rparr> rows"
    by (auto simp: table_rep_def rcc.coherent_def)
  from table.run_sim [OF this, where xs = ops] obtain st where
    st: "run_ops current_step \<lparr>co_rows = rows, co_cache = new_cache m\<rparr> ops = Some st"
      "table_rep st (foldl table_step rows ops)" by blast
  moreover have "map_option fst (current_object_entry_cached st k) = Some (map_of (foldl table_step rows ops) k)" for k
    using lookup_ok [OF st(2), of k] by auto
  ultimately show ?thesis by (auto simp: table_rep_def)
qed

end
