(* ===== verification/Object_Store.thy ===== *)
theory Object_Store
  imports Version_Index Current_Objects
begin

text \<open>
  The versioned object store (crates/server-node-sdk/src/storage/mod.rs and its SQLite tables,
  storage/sqlite_impl.rs).  The state is the set of tables the operations read and write, plus the
  active snapshot batch; every operation takes a \<open>store_env\<close> with what it gets from outside (the
  clock, generated ids, the hash function and the JSON codec) and returns a result or an error
  together with the new state, because earlier writes of an operation stay when a later check fails.
  The clock is read once per operation.  The gallery tables and the statistics rows, which are
  derived from these tables and never read back by the operations below, are left out, and a
  database error is not modelled.
\<close>

section \<open>State\<close>

record active_snapshot_batch =
  sb_snapshot_id :: string
  sb_started_at_unix :: u64
  sb_last_changed_at_unix :: u64
  sb_dirty_paths :: "string list"

record store =
  st_content :: content_store
  st_current :: "(string, current_object_entry) hashmap"
  st_indexes :: "(string, file_version_index) hashmap"
  st_heads :: "(string, version_index_head_projection) hashmap"
  st_snapshots :: "(string, snapshot_manifest) hashmap"
  st_batch :: "active_snapshot_batch option"
  st_owned_manifests :: "(string, u64) hashmap"
  st_version_metadata :: "string list"

record store_env =
  en_content :: content_env
  en_now :: u64
  en_nanos :: string
  en_object_id :: string
  en_snapshot_uuid :: string
  en_payload_hash :: "file_version_index \<Rightarrow> string"

datatype store_error =
    ParentMissing string | VersionIdCollision | PreferredHeadMissing | IdentityMismatch
  | EmptyBatch | InvalidHash | MissingManifest | EmptyKey | UnsupportedOption | SidecarNotApplied | Panic

type_synonym 'a res = "store_error + 'a"

definition SNAPSHOT_HISTORY_MAX_BATCH_WINDOW_SECS :: nat where
  "SNAPSHOT_HISTORY_MAX_BATCH_WINDOW_SECS = 2 * 60 * 60"

section \<open>Tables\<close>

definition current_entry :: "store \<Rightarrow> string \<Rightarrow> current_object_entry option" where
  "current_entry st key = map_of (st_current st) key"

definition upsert_current_object :: "string \<Rightarrow> current_object_entry \<Rightarrow> store \<Rightarrow> store" where
  "upsert_current_object key e st = st\<lparr>st_current := hm_insert key e (st_current st)\<rparr>"

definition remove_current_object :: "string \<Rightarrow> store \<Rightarrow> store" where
  "remove_current_object key st = st\<lparr>st_current := hm_remove key (st_current st)\<rparr>"

definition list_keys_for_object_id :: "store \<Rightarrow> string \<Rightarrow> string list" where
  "list_keys_for_object_id st oid = map fst (filter (\<lambda>(k, e). coe_object_id e = oid) (st_current st))"

definition object_id_for_key :: "store \<Rightarrow> string \<Rightarrow> string option" where
  "object_id_for_key st key = map_option coe_object_id (current_entry st key)"

definition current_state_binding :: "store \<Rightarrow> string \<Rightarrow> string option \<times> string option" where
  "current_state_binding st key =
     (map_option coe_manifest_hash (current_entry st key), map_option coe_object_id (current_entry st key))"

definition current_state_touched_paths_for_object_id :: "store \<Rightarrow> string \<Rightarrow> string \<Rightarrow> string list" where
  "current_state_touched_paths_for_object_id st oid key =
     bts_collect (list_keys_for_object_id st oid @ [key])"

definition changed_paths_after_bindings ::
  "store \<Rightarrow> (string, string option \<times> string option) hashmap \<Rightarrow> string list" where
  "changed_paths_after_bindings st prior =
     bts_collect (map fst (filter (\<lambda>(p, b). current_state_binding st p \<noteq> b) prior))"

text \<open>A row holds the JSON of an index, without the two fields serde skips; loading decodes it and
  normalises its identity to the row's.\<close>

definition load_version_index_by_object_id :: "store_env \<Rightarrow> store \<Rightarrow> string \<Rightarrow> file_version_index option" where
  "load_version_index_by_object_id env st oid =
     (case map_of (st_indexes st) oid of
        None \<Rightarrow> None
      | Some row \<Rightarrow>
          (case normalize_version_index_identity oid (en_payload_hash env row) row of
             (normalized, idx) \<Rightarrow>
               Some (idx\<lparr>vi_persisted_object_id := oid, vi_identity_was_normalized := normalized\<rparr>)))"

definition persist_version_index_by_object_id ::
  "string \<Rightarrow> file_version_index \<Rightarrow> store \<Rightarrow> unit res \<times> store" where
  "persist_version_index_by_object_id oid idx st =
     (if validate_version_index_identity oid idx
      then (Inr (), st\<lparr>st_indexes := hm_insert oid
                (idx\<lparr>vi_identity_was_normalized := False, vi_persisted_object_id := []\<rparr>) (st_indexes st),
              st_heads := hm_insert oid (head_projection oid idx) (st_heads st)\<rparr>)
      else (Inl IdentityMismatch, st))"

definition delete_version_index_by_object_id :: "string \<Rightarrow> store \<Rightarrow> store" where
  "delete_version_index_by_object_id oid st =
     st\<lparr>st_indexes := hm_remove oid (st_indexes st), st_heads := hm_remove oid (st_heads st)\<rparr>"

definition load_all_version_indexes :: "store_env \<Rightarrow> store \<Rightarrow> file_version_index list" where
  "load_all_version_indexes env st =
     List.map_filter (load_version_index_by_object_id env st) (sort (hm_keys (st_indexes st)))"

definition mark_manifest_locally_owned :: "u64 \<Rightarrow> string \<Rightarrow> store \<Rightarrow> store" where
  "mark_manifest_locally_owned now h st =
     (if h = TOMBSTONE_MANIFEST_HASH then st
      else st\<lparr>st_owned_manifests := hm_insert h now (st_owned_manifests st)\<rparr>)"

section \<open>Current bindings follow the preferred head\<close>

definition remove_bindings :: "string list \<Rightarrow> store \<Rightarrow> store" where
  "remove_bindings paths st = fold remove_current_object paths st"

definition remove_current_state_bindings_for_object_id_except ::
  "string \<Rightarrow> string option \<Rightarrow> store \<Rightarrow> string list \<times> store" where
  "remove_current_state_bindings_for_object_id_except oid preserved st =
     (let bound = filter (\<lambda>p. Some p \<noteq> preserved) (remdups_adj (sort (list_keys_for_object_id st oid)))
      in (bts_collect bound, remove_bindings bound st))"

definition remove_current_state_bindings_for_object_id :: "string \<Rightarrow> store \<Rightarrow> string list \<times> store" where
  "remove_current_state_bindings_for_object_id oid st =
     remove_current_state_bindings_for_object_id_except oid None st"

definition bind_current_state_to_preferred_index_record ::
  "string \<Rightarrow> file_version_index \<Rightarrow> file_version_record \<Rightarrow> store \<Rightarrow> string list \<times> store" where
  "bind_current_state_to_preferred_index_record key idx r st =
     (let path = unwrap_or key (vr_logical_path r);
          expected = \<lparr>coe_manifest_hash = vr_manifest_hash r, coe_object_id = vi_object_id idx\<rparr>;
          bound = filter (\<lambda>p. p \<noteq> key) (remdups_adj (sort (list_keys_for_object_id st (vi_object_id idx))))
      in if bound \<noteq> [] \<and> path \<noteq> key then ([], st)
         else let st1 = remove_bindings bound st in
              if current_entry st1 key \<noteq> Some expected
              then (bts_collect (bound @ [key]), upsert_current_object key expected st1)
              else (bts_collect bound, st1))"

definition sync_current_state_for_key_from_index ::
  "string \<Rightarrow> file_version_index \<Rightarrow> store \<Rightarrow> string list res \<times> store" where
  "sync_current_state_for_key_from_index key idx st =
     (case vi_preferred_head_version_id idx of
        None \<Rightarrow> (case remove_current_state_bindings_for_object_id (vi_object_id idx) st of
                  (ps, st1) \<Rightarrow> (Inr ps, st1))
      | Some v \<Rightarrow> (case version_of idx v of
          None \<Rightarrow> (Inl PreferredHeadMissing, st)
        | Some r \<Rightarrow>
            if is_tombstone r
            then (case remove_current_state_bindings_for_object_id (vi_object_id idx) st of
                    (ps, st1) \<Rightarrow> (Inr ps, st1))
            else (case object_id_for_key st key of
                    None \<Rightarrow> (case bind_current_state_to_preferred_index_record key idx r st of
                              (ps, st1) \<Rightarrow> (Inr ps, st1))
                  | Some cur \<Rightarrow>
                      if cur = vi_object_id idx
                      then (case bind_current_state_to_preferred_index_record key idx r st of
                              (ps, st1) \<Rightarrow> (Inr ps, st1))
                      else (Inr [], st))))"

section \<open>Snapshot batches\<close>

definition maybe_rotate_snapshot_batch :: "u64 \<Rightarrow> string list \<Rightarrow> store \<Rightarrow> store" where
  "maybe_rotate_snapshot_batch now touched st =
     (if touched = [] then st
      else (case st_batch st of
              None \<Rightarrow> st
            | Some b \<Rightarrow>
                if (\<exists>p \<in> set touched. p \<in> set (sb_dirty_paths b)) \<or>
                   now - sb_started_at_unix b > SNAPSHOT_HISTORY_MAX_BATCH_WINDOW_SECS
                then st\<lparr>st_batch := None\<rparr> else st))"

definition record_snapshot_batch ::
  "store_env \<Rightarrow> string list \<Rightarrow> u64 \<Rightarrow> store \<Rightarrow> string res \<times> store" where
  "record_snapshot_batch env changed changed_at st =
     (if changed = [] then (Inl EmptyBatch, st)
      else let b = (case st_batch st of
                      Some b \<Rightarrow> b
                    | None \<Rightarrow> \<lparr>sb_snapshot_id = ''snap-batch-'' @ en_snapshot_uuid env,
                        sb_started_at_unix = changed_at, sb_last_changed_at_unix = changed_at,
                        sb_dirty_paths = []\<rparr>);
               b1 = b\<lparr>sb_last_changed_at_unix := changed_at,
                      sb_dirty_paths := bts_collect (sb_dirty_paths b @ changed)\<rparr>;
               m = \<lparr>sm_id = sb_snapshot_id b1, sm_created_at_unix = sb_last_changed_at_unix b1,
                    sm_objects = hm_map_values coe_manifest_hash (st_current st),
                    sm_object_ids = hm_map_values coe_object_id (st_current st)\<rparr>
           in (Inr (sb_snapshot_id b1),
               st\<lparr>st_batch := Some b1, st_snapshots := hm_insert (sm_id m) m (st_snapshots st)\<rparr>))"

definition persist_current_state_with_snapshot_batch ::
  "store_env \<Rightarrow> string list \<Rightarrow> bool \<Rightarrow> u64 \<Rightarrow> store \<Rightarrow> string option res \<times> store" where
  "persist_current_state_with_snapshot_batch env changed create changed_at st =
     (if \<not> create \<or> changed = [] then (Inr None, st)
      else (case record_snapshot_batch env changed changed_at st of
              (Inl e, st1) \<Rightarrow> (Inl e, st1)
            | (Inr sid, st1) \<Rightarrow> (Inr (Some sid), st1)))"

definition load_snapshot_manifest :: "store \<Rightarrow> string \<Rightarrow> snapshot_manifest option" where
  "load_snapshot_manifest st sid =
     map_option normalize_snapshot_manifest_object_ids (map_of (st_snapshots st) sid)"


section \<open>Adding a version\<close>

record put_options =
  po_parent_version_ids :: "string list"
  po_state :: version_state
  po_inherit_preferred_parent :: bool
  po_create_snapshot :: bool
  po_explicit_version_id :: "string option"

definition default_put_options :: put_options where
  "default_put_options = \<lparr>po_parent_version_ids = [], po_state = Confirmed,
     po_inherit_preferred_parent = True, po_create_snapshot = True, po_explicit_version_id = None\<rparr>"

record put_result =
  pr_object_id :: string
  pr_snapshot_id :: string
  pr_version_id :: string
  pr_manifest_hash :: string
  pr_state :: version_state
  pr_new_chunks :: nat
  pr_dedup_reused_chunks :: nat
  pr_created_new_version :: bool

definition opt_list :: "'a option \<Rightarrow> 'a list" where
  "opt_list x = (case x of None \<Rightarrow> [] | Some a \<Rightarrow> [a])"

definition put_parents :: "put_options \<Rightarrow> file_version_index \<Rightarrow> string list" where
  "put_parents opts idx =
     (if po_parent_version_ids opts = []
      then (if po_inherit_preferred_parent opts then opt_list (vi_preferred_head_version_id idx) else [])
      else po_parent_version_ids opts)"

text \<open>\<open>heads.remove(parent)\<close> for every parent, then \<open>heads.insert\<close>, collected and sorted.\<close>

definition add_version :: "file_version_record \<Rightarrow> file_version_index \<Rightarrow> file_version_index" where
  "add_version r idx =
     (let idx1 = idx\<lparr>vi_versions := hm_insert (vr_version_id r) r (vi_versions idx),
           vi_head_version_ids := bts_collect (vr_version_id r #
             filter (\<lambda>h. h \<notin> set (vr_parent_version_ids r)) (vi_head_version_ids idx))\<rparr>
      in idx1\<lparr>vi_preferred_head_version_id := choose_preferred_head idx1\<rparr>)"

definition object_id_or_new :: "store_env \<Rightarrow> store \<Rightarrow> string \<Rightarrow> string" where
  "object_id_or_new env st key = unwrap_or (en_object_id env) (object_id_for_key st key)"

definition index_or_empty :: "store_env \<Rightarrow> store \<Rightarrow> string \<Rightarrow> file_version_index" where
  "index_or_empty env st oid = unwrap_or (empty_version_index oid) (load_version_index_by_object_id env st oid)"

text \<open>The common tail of the mutations: align the current bindings with the index, collect the
  changed paths, and record them in the snapshot batch.\<close>

definition sync_and_snapshot ::
  "store_env \<Rightarrow> string \<Rightarrow> file_version_index \<Rightarrow> string list \<Rightarrow> string option \<times> string option \<Rightarrow> bool
     \<Rightarrow> store \<Rightarrow> string option res \<times> store" where
  "sync_and_snapshot env key idx touched prior create st =
     (case sync_current_state_for_key_from_index key idx st of
        (Inl e, st1) \<Rightarrow> (Inl e, st1)
      | (Inr ps, st1) \<Rightarrow>
          let changed = (if current_state_binding st1 key \<noteq> prior
                         then bts_collect (ps @ touched) else ps)
          in persist_current_state_with_snapshot_batch env changed create (en_now env) st1)"

definition persist_and_sync ::
  "store_env \<Rightarrow> string \<Rightarrow> string \<Rightarrow> file_version_index \<Rightarrow> string list \<Rightarrow> string option \<times> string option
     \<Rightarrow> bool \<Rightarrow> store \<Rightarrow> string option res \<times> store" where
  "persist_and_sync env oid key idx touched prior create st =
     (case persist_version_index_by_object_id oid idx st of
        (Inl e, st1) \<Rightarrow> (Inl e, st1)
      | (Inr _, st1) \<Rightarrow> sync_and_snapshot env key idx touched prior create st1)"

definition rotate_if :: "bool \<Rightarrow> u64 \<Rightarrow> string list \<Rightarrow> store \<Rightarrow> store" where
  "rotate_if create now touched st = (if create then maybe_rotate_snapshot_batch now touched st else st)"

definition snapshot_id_or_skipped :: "string \<Rightarrow> string option \<Rightarrow> string" where
  "snapshot_id_or_skipped v sid = unwrap_or (''snap-skipped-'' @ v) sid"

text \<open>\<open>&hash[..12]\<close> panics on a shorter string.\<close>

definition hash_prefix :: "string \<Rightarrow> string option" where
  "hash_prefix h = (if 12 \<le> length h then Some (take 12 h) else None)"

definition fresh_version_id :: "string \<Rightarrow> store_env \<Rightarrow> string \<Rightarrow> string option" where
  "fresh_version_id kind env h =
     map_option (\<lambda>p. kind @ ''-'' @ en_nanos env @ ''-'' @ p) (hash_prefix h)"

definition put_version_id :: "store_env \<Rightarrow> put_options \<Rightarrow> string \<Rightarrow> string option" where
  "put_version_id env opts h =
     (case po_explicit_version_id opts of Some v \<Rightarrow> Some v | None \<Rightarrow> fresh_version_id ''ver'' env h)"

definition same_as_preferred ::
  "put_options \<Rightarrow> file_version_index \<Rightarrow> string \<Rightarrow> (string \<times> file_version_record) option" where
  "same_as_preferred opts idx h =
     (if po_explicit_version_id opts \<noteq> None then None
      else (case vi_preferred_head_version_id idx of
              None \<Rightarrow> None
            | Some v \<Rightarrow> (case version_of idx v of
                None \<Rightarrow> None
              | Some r \<Rightarrow>
                  if vr_manifest_hash r = h \<and> vr_state r = po_state opts \<and>
                     (po_parent_version_ids opts = [] \<and> po_inherit_preferred_parent opts \<or>
                      vr_parent_version_ids r = put_parents opts idx)
                  then Some (v, r) else None)))"

definition put_record ::
  "store_env \<Rightarrow> put_options \<Rightarrow> string \<Rightarrow> string \<Rightarrow> string \<Rightarrow> string list \<Rightarrow> string \<Rightarrow> file_version_record" where
  "put_record env opts v oid h parents key =
     \<lparr>vr_version_id = v, vr_object_id = oid, vr_manifest_hash = h, vr_logical_path = Some key,
      vr_parent_version_ids = parents, vr_state = po_state opts, vr_created_at_unix = en_now env,
      vr_copied_from_object_id = None, vr_copied_from_version_id = None, vr_copied_from_path = None\<rparr>"

definition finalize_put_from_manifest_hash ::
  "store_env \<Rightarrow> string \<Rightarrow> string \<Rightarrow> put_options \<Rightarrow> nat \<Rightarrow> nat \<Rightarrow> store \<Rightarrow> put_result res \<times> store" where
  "finalize_put_from_manifest_hash env key h opts new_chunks dedup st =
     (let oid = object_id_or_new env st key;
          idx = index_or_empty env st oid;
          parents = put_parents opts idx
      in case find (\<lambda>p. version_of idx p = None) parents of
           Some p \<Rightarrow> (Inl (ParentMissing p), st)
         | None \<Rightarrow>
      let st1 = mark_manifest_locally_owned (en_now env) h st
      in case put_version_id env opts h of
           None \<Rightarrow> (Inl Panic, st1)
         | Some v \<Rightarrow>
      let touched = current_state_touched_paths_for_object_id st1 oid key;
          prior = current_state_binding st1 key;
          result = (\<lambda>v sid state created.
            \<lparr>pr_object_id = oid, pr_snapshot_id = snapshot_id_or_skipped v sid, pr_version_id = v,
             pr_manifest_hash = h, pr_state = state, pr_new_chunks = new_chunks,
             pr_dedup_reused_chunks = dedup, pr_created_new_version = created\<rparr>)
      in case version_of idx v of
           Some existing \<Rightarrow>
             if vr_manifest_hash existing \<noteq> h then (Inl VersionIdCollision, st1)
             else (case sync_and_snapshot env key idx touched prior (po_create_snapshot opts)
                          (rotate_if (po_create_snapshot opts) (en_now env) touched st1) of
                     (Inl e, st2) \<Rightarrow> (Inl e, st2)
                   | (Inr sid, st2) \<Rightarrow> (Inr (result v sid (vr_state existing) False), st2))
         | None \<Rightarrow>
      case same_as_preferred opts idx h of
           Some (pv, r) \<Rightarrow> (Inr (result pv None (vr_state r) False), st1)
         | None \<Rightarrow>
      (case persist_and_sync env oid key
              (add_version (put_record env opts v oid h parents key) idx) touched prior
              (po_create_snapshot opts)
              (rotate_if (po_create_snapshot opts) (en_now env) touched st1) of
         (Inl e, st2) \<Rightarrow> (Inl e, st2)
       | (Inr sid, st2) \<Rightarrow> (Inr (result v sid (po_state opts) True), st2)))"

definition put_object_versioned ::
  "store_env \<Rightarrow> string \<Rightarrow> bytes \<Rightarrow> put_options \<Rightarrow> store \<Rightarrow> put_result res \<times> store" where
  "put_object_versioned env key payload opts st =
     (case put_payload (en_content env) key payload (st_content st) of
        None \<Rightarrow> (Inl InvalidHash, st)
      | Some (h, new_chunks, dedup, cs) \<Rightarrow>
          finalize_put_from_manifest_hash env key h opts new_chunks dedup (st\<lparr>st_content := cs\<rparr>))"

section \<open>Committing a version\<close>

definition set_confirmed :: "string \<Rightarrow> file_version_index \<Rightarrow> file_version_index" where
  "set_confirmed v idx =
     (let idx1 = idx\<lparr>vi_versions :=
            map (\<lambda>(k, r). (k, if k = v then r\<lparr>vr_state := Confirmed\<rparr> else r)) (vi_versions idx)\<rparr>
      in idx1\<lparr>vi_preferred_head_version_id := choose_preferred_head idx1\<rparr>)"

definition commit_version :: "store_env \<Rightarrow> string \<Rightarrow> string \<Rightarrow> store \<Rightarrow> bool res \<times> store" where
  "commit_version env key v st =
     (case object_id_for_key st key of
        None \<Rightarrow> (Inr False, st)
      | Some oid \<Rightarrow> (case load_version_index_by_object_id env st oid of
          None \<Rightarrow> (Inr False, st)
        | Some idx \<Rightarrow> (case version_of idx v of
            None \<Rightarrow> (Inr False, st)
          | Some r \<Rightarrow>
              if vr_state r = Confirmed then (Inr True, st)
              else let touched = current_state_touched_paths_for_object_id st oid key;
                       prior = current_state_binding st key
                   in (case persist_and_sync env oid key (set_confirmed v idx) touched prior True
                              (maybe_rotate_snapshot_batch (en_now env) touched st) of
                         (Inl e, st2) \<Rightarrow> (Inl e, st2)
                       | (Inr _, st2) \<Rightarrow> (Inr True, st2)))))"


section \<open>Tombstones\<close>

record tombstone_result =
  tr_path :: string
  tr_object_id :: string
  tr_version_id :: string

definition tombstone_object_single ::
  "store_env \<Rightarrow> string \<Rightarrow> put_options \<Rightarrow> store \<Rightarrow> tombstone_result res \<times> store" where
  "tombstone_object_single env key opts st =
     (let oid = object_id_or_new env st key;
          idx = index_or_empty env st oid;
          parents = put_parents opts idx
      in case find (\<lambda>p. version_of idx p = None) parents of
           Some p \<Rightarrow> (Inl (ParentMissing p), st)
         | None \<Rightarrow>
      let v = unwrap_or (''tomb-'' @ en_nanos env) (po_explicit_version_id opts);
          touched = current_state_touched_paths_for_object_id st oid key;
          prior = current_state_binding st key;
          st1 = rotate_if (po_create_snapshot opts) (en_now env) touched st
      in case version_of idx v of
           Some existing \<Rightarrow>
             if \<not> is_tombstone existing then (Inl VersionIdCollision, st)
             else (case sync_and_snapshot env key idx touched prior (po_create_snapshot opts) st1 of
                     (Inl e, st2) \<Rightarrow> (Inl e, st2)
                   | (Inr _, st2) \<Rightarrow>
                       (Inr \<lparr>tr_path = key, tr_object_id = oid, tr_version_id = vr_version_id existing\<rparr>, st2))
         | None \<Rightarrow>
      (case persist_and_sync env oid key
              (add_version (put_record env opts v oid TOMBSTONE_MANIFEST_HASH parents key) idx)
              touched prior (po_create_snapshot opts) st1 of
         (Inl e, st2) \<Rightarrow> (Inl e, st2)
       | (Inr _, st2) \<Rightarrow> (Inr \<lparr>tr_path = key, tr_object_id = oid, tr_version_id = v\<rparr>, st2)))"

fun tombstone_each ::
  "(nat \<Rightarrow> store_env) \<Rightarrow> put_options \<Rightarrow> nat \<Rightarrow> string list \<Rightarrow> tombstone_result list \<Rightarrow> store
     \<Rightarrow> tombstone_result list res \<times> store" where
  "tombstone_each envs opts n [] acc st = (Inr acc, st)"
| "tombstone_each envs opts n (k # ks) acc st =
     (case tombstone_object_single (envs n) k opts st of
        (Inl e, st1) \<Rightarrow> (Inl e, st1)
      | (Inr r, st1) \<Rightarrow> tombstone_each envs opts (Suc n) ks (acc @ [r]) st1)"

definition subtree_targets :: "store \<Rightarrow> string \<Rightarrow> string list" where
  "subtree_targets st key =
     (let root = trim_end_matches CHR ''/'' key;
          marker = root @ ''/'';
          found = filter (\<lambda>k. k = root \<or> k = marker \<or> starts_with k marker) (hm_keys (st_current st))
      in bts_collect (if found = [] then [key] else found @ [marker]))"

text \<open>Each path is removed at its own instant: \<open>envs n\<close> is the environment of the \<open>n\<close>-th removal.\<close>

definition tombstone_subtree ::
  "(nat \<Rightarrow> store_env) \<Rightarrow> string \<Rightarrow> put_options \<Rightarrow> store \<Rightarrow> tombstone_result list res \<times> store" where
  "tombstone_subtree envs key opts st =
     (if is_blank key then (Inl EmptyKey, st)
      else if po_parent_version_ids opts \<noteq> [] then (Inl UnsupportedOption, st)
      else if po_explicit_version_id opts \<noteq> None then (Inl UnsupportedOption, st)
      else let targets = subtree_targets st key;
               prior = map (\<lambda>p. (p, current_state_binding st p)) targets;
               st1 = rotate_if (po_create_snapshot opts) (en_now (envs 0)) targets st
           in (case tombstone_each envs (opts\<lparr>po_create_snapshot := False\<rparr>) 0 targets [] st1 of
                 (Inl e, st2) \<Rightarrow> (Inl e, st2)
               | (Inr results, st2) \<Rightarrow>
                   if po_create_snapshot opts \<and> results \<noteq> []
                   then let changed = changed_paths_after_bindings st2 prior in
                        if changed \<noteq> []
                        then (case record_snapshot_batch (envs 0) changed (en_now (envs 0)) st2 of
                                (Inl e, st3) \<Rightarrow> (Inl e, st3)
                              | (Inr _, st3) \<Rightarrow> (Inr results, st3))
                        else (Inr results, st2)
                   else (Inr results, st2)))"

section \<open>Deleting one version\<close>

definition resolve_key_for_version_index :: "store_env \<Rightarrow> store \<Rightarrow> file_version_index \<Rightarrow> string option" where
  "resolve_key_for_version_index env st idx =
     or_else
       (Option.bind (Option.bind (vi_preferred_head_version_id idx) (version_of idx)) vr_logical_path)
       (or_else
         (first_opt (List.map_filter vr_logical_path (hm_values (vi_versions idx))))
         (first_opt (List.map_filter
            (\<lambda>r. if is_tombstone r then None
                 else (case load_manifest_by_hash (en_content env) (st_content st) (vr_manifest_hash r) of
                         Inr (Some m) \<Rightarrow> Some (om_key m)
                       | _ \<Rightarrow> None))
            (hm_values (vi_versions idx)))))"

definition resolve_key_for_version_record ::
  "store_env \<Rightarrow> store \<Rightarrow> file_version_index \<Rightarrow> file_version_record \<Rightarrow> string option" where
  "resolve_key_for_version_record env st idx r =
     (case vr_logical_path r of
        Some p \<Rightarrow> Some p
      | None \<Rightarrow>
          (case (if is_tombstone r then Inr None
                 else load_manifest_by_hash (en_content env) (st_content st) (vr_manifest_hash r)) of
             Inr (Some m) \<Rightarrow> Some (om_key m)
           | _ \<Rightarrow> resolve_key_for_version_index env st idx))"

definition resolve_object_id_for_key_version ::
  "store_env \<Rightarrow> store \<Rightarrow> string \<Rightarrow> string \<Rightarrow> string option" where
  "resolve_object_id_for_key_version env st key v =
     (case Option.bind (object_id_for_key st key)
             (\<lambda>oid. opt_filter (\<lambda>_. Option.bind (load_version_index_by_object_id env st oid)
                                       (\<lambda>idx. version_of idx v) \<noteq> None) (Some oid)) of
        Some oid \<Rightarrow> Some oid
      | None \<Rightarrow>
          map_option vi_object_id
            (find (\<lambda>idx. case version_of idx v of
                           None \<Rightarrow> False
                         | Some r \<Rightarrow> vr_logical_path r = Some key \<or>
                             resolve_key_for_version_record env st idx r = Some key)
              (load_all_version_indexes env st)))"

definition resolve_object_id_for_key_history :: "store_env \<Rightarrow> store \<Rightarrow> string \<Rightarrow> string option" where
  "resolve_object_id_for_key_history env st key =
     (case object_id_for_key st key of
        Some oid \<Rightarrow> Some oid
      | None \<Rightarrow> map_option vi_object_id
          (find (\<lambda>idx. resolve_key_for_version_index env st idx = Some key)
            (load_all_version_indexes env st)))"

definition drop_version :: "string \<Rightarrow> file_version_index \<Rightarrow> file_version_index" where
  "drop_version v idx =
     (let idx1 = idx\<lparr>vi_versions := hm_remove v (vi_versions idx)\<rparr>;
          idx2 = idx1\<lparr>vi_head_version_ids := recompute_head_version_ids idx1\<rparr>
      in idx2\<lparr>vi_preferred_head_version_id := choose_preferred_head idx2\<rparr>)"

record delete_outcome =
  do_version_id :: string
  do_was_delete_marker :: bool
  do_current_object_exists :: bool

definition delete_object_version_for_key ::
  "store_env \<Rightarrow> string \<Rightarrow> string \<Rightarrow> store \<Rightarrow> delete_outcome option res \<times> store" where
  "delete_object_version_for_key env key v st =
     (case resolve_object_id_for_key_version env st key v of
        None \<Rightarrow> (Inr None, st)
      | Some oid \<Rightarrow> (case load_version_index_by_object_id env st oid of
          None \<Rightarrow> (Inr None, st)
        | Some idx \<Rightarrow> (case version_of idx v of
            None \<Rightarrow> (Inr None, st)
          | Some r \<Rightarrow>
              let touched = current_state_touched_paths_for_object_id st oid key;
                  prior = current_state_binding st key;
                  st1 = maybe_rotate_snapshot_batch (en_now env) touched st;
                  idx1 = drop_version v idx;
                  synced = (if vi_versions idx1 = []
                            then (case remove_current_state_bindings_for_object_id oid
                                         (delete_version_index_by_object_id oid st1) of
                                    (ps, st2) \<Rightarrow> (Inr ps, st2))
                            else (case persist_version_index_by_object_id oid idx1 st1 of
                                    (Inl e, st2) \<Rightarrow> (Inl e, st2)
                                  | (Inr _, st2) \<Rightarrow> sync_current_state_for_key_from_index key idx1 st2))
              in (case synced of
                    (Inl e, st2) \<Rightarrow> (Inl e, st2)
                  | (Inr ps, st2) \<Rightarrow>
                      let st3 = st2\<lparr>st_version_metadata := removeAll v (st_version_metadata st2)\<rparr>;
                          changed = (if current_state_binding st3 key \<noteq> prior
                                     then bts_collect (ps @ touched) else ps)
                      in (case persist_current_state_with_snapshot_batch env changed True (en_now env) st3 of
                            (Inl e, st4) \<Rightarrow> (Inl e, st4)
                          | (Inr _, st4) \<Rightarrow>
                              (Inr (Some \<lparr>do_version_id = v, do_was_delete_marker = is_tombstone r,
                                 do_current_object_exists = object_id_for_key st4 key \<noteq> None\<rparr>), st4))))))"

text \<open>A replica drops a version it was told to give up; the index stays, even without versions.\<close>

definition drop_replica_subject :: "store_env \<Rightarrow> string \<Rightarrow> string option \<Rightarrow> store \<Rightarrow> bool res \<times> store" where
  "drop_replica_subject env key version st =
     (case version of
        None \<Rightarrow> (Inr False, st)
      | Some v \<Rightarrow> (case object_id_for_key st key of
          None \<Rightarrow> (Inr False, st)
        | Some oid \<Rightarrow> (case load_version_index_by_object_id env st oid of
            None \<Rightarrow> (Inr False, st)
          | Some idx \<Rightarrow>
              if version_of idx v = None then (Inr False, st)
              else let touched = current_state_touched_paths_for_object_id st oid key;
                       prior = current_state_binding st key
                   in (case persist_and_sync env oid key (drop_version v idx) touched prior True
                              (maybe_rotate_snapshot_batch (en_now env) touched st) of
                         (Inl e, st2) \<Rightarrow> (Inl e, st2)
                       | (Inr _, st2) \<Rightarrow> (Inr True, st2)))))"


section \<open>Reading\<close>

definition resolve_manifest_hash_for_key ::
  "store_env \<Rightarrow> store \<Rightarrow> string \<Rightarrow> string option \<Rightarrow> string option \<Rightarrow> object_read_mode
     \<Rightarrow> store_read_error + string" where
  "resolve_manifest_hash_for_key env st key snapshot_id version_id mode =
     (let found =
        (case version_id of
           Some v \<Rightarrow>
             Option.bind (resolve_object_id_for_key_version env st key v) (\<lambda>oid.
             Option.bind (load_version_index_by_object_id env st oid) (\<lambda>idx.
             map_option vr_manifest_hash (version_of idx v)))
         | None \<Rightarrow> (case snapshot_id of
             Some s \<Rightarrow> Option.bind (load_snapshot_manifest st s) (\<lambda>m. map_of (sm_objects m) key)
           | None \<Rightarrow>
               (case Option.bind (object_id_for_key st key) (load_version_index_by_object_id env st) of
                  Some idx \<Rightarrow> manifest_hash_for_read_mode idx mode
                | None \<Rightarrow> map_option coe_manifest_hash (current_entry st key))))
      in case found of
           None \<Rightarrow> Inl NotFound
         | Some h \<Rightarrow> if h = TOMBSTONE_MANIFEST_HASH then Inl NotFound else Inr h)"

definition get_object ::
  "store_env \<Rightarrow> store \<Rightarrow> string \<Rightarrow> string option \<Rightarrow> string option \<Rightarrow> object_read_mode
     \<Rightarrow> store_read_error + bytes" where
  "get_object env st key snapshot_id version_id mode =
     (case resolve_manifest_hash_for_key env st key snapshot_id version_id mode of
        Inl e \<Rightarrow> Inl e
      | Inr h \<Rightarrow> read_object_by_manifest_hash (en_content env) (st_content st) h)"

section \<open>Moving and copying\<close>

definition XMP_SIDECAR_SUFFIX :: string where
  "XMP_SIDECAR_SUFFIX = ''.xmp''"

definition sidecar_key_for_media :: "string \<Rightarrow> string" where
  "sidecar_key_for_media key = key @ XMP_SIDECAR_SUFFIX"

definition media_key_for_sidecar :: "string \<Rightarrow> string option" where
  "media_key_for_sidecar key =
     (case strip_suffix key XMP_SIDECAR_SUFFIX of
        None \<Rightarrow> None
      | Some m \<Rightarrow> if m = [] \<or> last m = CHR ''/'' \<or> last m = CHR 0x5C then None else Some m)"

definition is_sidecar_key :: "string \<Rightarrow> bool" where
  "is_sidecar_key key \<longleftrightarrow> media_key_for_sidecar key \<noteq> None"

definition tombstone_object_with_companions ::
  "store_env \<Rightarrow> store_env \<Rightarrow> string \<Rightarrow> put_options \<Rightarrow> store \<Rightarrow> tombstone_result list res \<times> store" where
  "tombstone_object_with_companions env env2 key opts st =
     (case tombstone_object_single env key opts st of
        (Inl e, st1) \<Rightarrow> (Inl e, st1)
      | (Inr r, st1) \<Rightarrow>
          if is_sidecar_key key \<or> current_entry st1 (sidecar_key_for_media key) = None then (Inr [r], st1)
          else (case tombstone_object_single env2 (sidecar_key_for_media key)
                       (opts\<lparr>po_parent_version_ids := [], po_explicit_version_id := None\<rparr>) st1 of
                  (Inl e, st2) \<Rightarrow> (Inl e, st2)
                | (Inr r2, st2) \<Rightarrow> (Inr [r, r2], st2)))"

datatype path_mutation_result = Applied | SourceMissing | TargetExists

datatype sidecar_path_mutation =
  SidecarAbsent | SidecarReady string string | ClearTarget string | SidecarTargetExists

definition prepare_sidecar_path_mutation :: "store \<Rightarrow> string \<Rightarrow> string \<Rightarrow> bool \<Rightarrow> sidecar_path_mutation" where
  "prepare_sidecar_path_mutation st from_path to_path overwrite =
     (let from = sidecar_key_for_media from_path; target = sidecar_key_for_media to_path in
      case (current_entry st from \<noteq> None, current_entry st target \<noteq> None, overwrite) of
        (False, True, True) \<Rightarrow> ClearTarget target
      | (False, _, _) \<Rightarrow> SidecarAbsent
      | (True, True, False) \<Rightarrow> SidecarTargetExists
      | (True, _, _) \<Rightarrow> SidecarReady from target)"

text \<open>The index of an object and its preferred head, unless that is missing or a tombstone.\<close>

definition live_head ::
  "store_env \<Rightarrow> store \<Rightarrow> string \<Rightarrow> (file_version_index \<times> file_version_record) option" where
  "live_head env st oid =
     Option.bind (load_version_index_by_object_id env st oid) (\<lambda>idx.
     Option.bind (vi_preferred_head_version_id idx) (\<lambda>v.
     Option.bind (version_of idx v) (\<lambda>r.
     if is_tombstone r then None else Some (idx, r))))"

text \<open>A mutation either ends, or goes on with the sidecar of its paths.\<close>

datatype mutation_step =
  Ends "path_mutation_result res \<times> store" | Sidecar string string store

definition finish_sidecar :: "store_env \<Rightarrow> sidecar_path_mutation \<Rightarrow> store \<Rightarrow> mutation_step" where
  "finish_sidecar env m st =
     (case m of
        SidecarReady from target \<Rightarrow> Sidecar from target st
      | ClearTarget target \<Rightarrow>
          (case tombstone_object_single env target default_put_options st of
             (Inl e, st1) \<Rightarrow> Ends (Inl e, st1)
           | (Inr _, st1) \<Rightarrow> Ends (Inr Applied, st1))
      | _ \<Rightarrow> Ends (Inr Applied, st))"

definition rename_record ::
  "store_env \<Rightarrow> string \<Rightarrow> string \<Rightarrow> string \<Rightarrow> file_version_record \<Rightarrow> string \<Rightarrow> file_version_record" where
  "rename_record env v oid h head to_path =
     \<lparr>vr_version_id = v, vr_object_id = oid, vr_manifest_hash = h, vr_logical_path = Some to_path,
      vr_parent_version_ids = [vr_version_id head], vr_state = vr_state head,
      vr_created_at_unix = en_now env, vr_copied_from_object_id = None,
      vr_copied_from_version_id = None, vr_copied_from_path = None\<rparr>"

definition rename_tombstone_index ::
  "store_env \<Rightarrow> string \<Rightarrow> file_version_record \<Rightarrow> string \<Rightarrow> file_version_index" where
  "rename_tombstone_index env source_oid head from_path =
     (let oid = en_object_id env; v = ''rename-tomb-'' @ en_nanos env;
          r = \<lparr>vr_version_id = v, vr_object_id = oid, vr_manifest_hash = TOMBSTONE_MANIFEST_HASH,
               vr_logical_path = Some from_path, vr_parent_version_ids = [vr_version_id head],
               vr_state = vr_state head, vr_created_at_unix = en_now env,
               vr_copied_from_object_id = Some source_oid,
               vr_copied_from_version_id = Some (vr_version_id head),
               vr_copied_from_path = Some from_path\<rparr>;
          idx = (empty_version_index oid)\<lparr>vi_versions := [(v, r)], vi_head_version_ids := [v]\<rparr>
      in idx\<lparr>vi_preferred_head_version_id := choose_preferred_head idx\<rparr>)"

definition rename_media ::
  "store_env \<Rightarrow> string \<Rightarrow> string \<Rightarrow> string \<Rightarrow> file_version_index \<Rightarrow> file_version_record \<Rightarrow> store
     \<Rightarrow> unit res \<times> store" where
  "rename_media env from_path to_path oid idx head st =
     (let touched = bts_collect [from_path, to_path];
          st1 = maybe_rotate_snapshot_batch (en_now env) touched st
      in case clone_manifest_for_key (en_content env) (vr_manifest_hash head) to_path (st_content st1) of
           None \<Rightarrow> (Inl MissingManifest, st1)
         | Some (h, cs) \<Rightarrow>
      let st2 = mark_manifest_locally_owned (en_now env) h (st1\<lparr>st_content := cs\<rparr>)
      in case fresh_version_id ''ren'' env h of
           None \<Rightarrow> (Inl Panic, st2)
         | Some v \<Rightarrow>
      let idx1 = add_version (rename_record env v oid h head to_path) idx
      in case persist_version_index_by_object_id oid idx1 st2 of
           (Inl e, st3) \<Rightarrow> (Inl e, st3)
         | (Inr _, st3) \<Rightarrow>
      let st4 = upsert_current_object to_path \<lparr>coe_manifest_hash = h, coe_object_id = oid\<rparr>
                  (remove_current_object from_path st3)
      in case persist_version_index_by_object_id (en_object_id env)
                (rename_tombstone_index env (vi_object_id idx1) head from_path) st4 of
           (Inl e, st5) \<Rightarrow> (Inl e, st5)
         | (Inr _, st5) \<Rightarrow>
      (case persist_current_state_with_snapshot_batch env touched True (en_now env) st5 of
         (Inl e, st6) \<Rightarrow> (Inl e, st6)
       | (Inr _, st6) \<Rightarrow> (Inr (), st6)))"

definition rename_step :: "store_env \<Rightarrow> store_env \<Rightarrow> string \<Rightarrow> string \<Rightarrow> bool \<Rightarrow> store \<Rightarrow> mutation_step" where
  "rename_step env env2 from_path to_path overwrite st =
     (if from_path = to_path then Ends (Inr Applied, st)
      else case current_entry st from_path of
             None \<Rightarrow> Ends (Inr SourceMissing, st)
           | Some src \<Rightarrow>
      if current_entry st to_path \<noteq> None then Ends (Inr TargetExists, st)
      else let sidecar = prepare_sidecar_path_mutation st from_path to_path overwrite in
      if sidecar = SidecarTargetExists then Ends (Inr TargetExists, st)
      else case live_head env st (coe_object_id src) of
             None \<Rightarrow> Ends (Inr SourceMissing, st)
           | Some (idx, head) \<Rightarrow>
      (case rename_media env from_path to_path (coe_object_id src) idx head st of
         (Inl e, st1) \<Rightarrow> Ends (Inl e, st1)
       | (Inr _, st1) \<Rightarrow> finish_sidecar env2 sidecar st1))"

text \<open>\<open>None\<close> is a call that does not return.  The sidecar is treated at a later instant than its
  media object, \<open>envs (Suc n)\<close>.\<close>

fun sidecar_outcome :: "path_mutation_result res \<Rightarrow> path_mutation_result res" where
  "sidecar_outcome (Inr Applied) = Inr Applied"
| "sidecar_outcome (Inr _) = Inl SidecarNotApplied"
| "sidecar_outcome (Inl e) = Inl e"

partial_function (option) rename_object_path ::
  "(nat \<Rightarrow> store_env) \<Rightarrow> nat \<Rightarrow> string \<Rightarrow> string \<Rightarrow> bool \<Rightarrow> store
     \<Rightarrow> (path_mutation_result res \<times> store) option" where
  "rename_object_path envs n from_path to_path overwrite st =
     (case rename_step (envs n) (envs (Suc n)) from_path to_path overwrite st of
        Ends r \<Rightarrow> Some r
      | Sidecar from target st1 \<Rightarrow>
          Option.bind (rename_object_path envs (Suc n) from target overwrite st1)
            (\<lambda>(r, st2). Some (sidecar_outcome r, st2)))"


definition add_version_recomputed :: "file_version_record \<Rightarrow> file_version_index \<Rightarrow> file_version_index" where
  "add_version_recomputed r idx =
     (let idx1 = idx\<lparr>vi_versions := hm_insert (vr_version_id r) r (vi_versions idx)\<rparr>;
          idx2 = idx1\<lparr>vi_head_version_ids := recompute_head_version_ids idx1\<rparr>
      in idx2\<lparr>vi_preferred_head_version_id := choose_preferred_head idx2\<rparr>)"

record copy_source =
  cs_manifest_hash :: string
  cs_object_id :: "string option"
  cs_version_id :: "string option"
  cs_state :: version_state

definition copied_record ::
  "store_env \<Rightarrow> string \<Rightarrow> string \<Rightarrow> string \<Rightarrow> copy_source \<Rightarrow> string list \<Rightarrow> string \<Rightarrow> string
     \<Rightarrow> file_version_record" where
  "copied_record env v oid h src parents source_path target_path =
     \<lparr>vr_version_id = v, vr_object_id = oid, vr_manifest_hash = h, vr_logical_path = Some target_path,
      vr_parent_version_ids = parents, vr_state = cs_state src, vr_created_at_unix = en_now env,
      vr_copied_from_object_id = cs_object_id src, vr_copied_from_version_id = cs_version_id src,
      vr_copied_from_path = Some source_path\<rparr>"

definition persist_copied_version_to_target ::
  "store_env \<Rightarrow> string \<Rightarrow> string \<Rightarrow> string \<Rightarrow> copy_source \<Rightarrow> string \<Rightarrow> bool \<Rightarrow> store
     \<Rightarrow> path_mutation_result res \<times> store" where
  "persist_copied_version_to_target env source_path target_path h src kind create st =
     (let oid = object_id_or_new env st target_path;
          touched = current_state_touched_paths_for_object_id st oid target_path;
          prior = current_state_binding st target_path;
          idx = index_or_empty env st oid
      in case fresh_version_id kind env h of
           None \<Rightarrow> (Inl Panic, st)
         | Some v \<Rightarrow>
      let r = copied_record env v oid h src (opt_list (vi_preferred_head_version_id idx)) source_path target_path
      in (case persist_and_sync env oid target_path (add_version_recomputed r idx) touched prior create st of
            (Inl e, st1) \<Rightarrow> (Inl e, st1)
          | (Inr _, st1) \<Rightarrow> (Inr Applied, st1)))"

definition clone_for_target ::
  "store_env \<Rightarrow> string \<Rightarrow> string \<Rightarrow> store \<Rightarrow> (string \<times> store) option" where
  "clone_for_target env h target st =
     (case clone_manifest_for_key (en_content env) h target (st_content st) of
        None \<Rightarrow> None
      | Some (h1, cs) \<Rightarrow> Some (h1, mark_manifest_locally_owned (en_now env) h1 (st\<lparr>st_content := cs\<rparr>)))"

definition copy_step :: "store_env \<Rightarrow> store_env \<Rightarrow> string \<Rightarrow> string \<Rightarrow> bool \<Rightarrow> store \<Rightarrow> mutation_step" where
  "copy_step env env2 from_path to_path overwrite st =
     (if from_path = to_path then Ends (Inr Applied, st)
      else case object_id_for_key st from_path of
             None \<Rightarrow> Ends (Inr SourceMissing, st)
           | Some source_oid \<Rightarrow>
      if current_entry st to_path \<noteq> None \<and> \<not> overwrite then Ends (Inr TargetExists, st)
      else let sidecar = prepare_sidecar_path_mutation st from_path to_path overwrite in
      if sidecar = SidecarTargetExists then Ends (Inr TargetExists, st)
      else case live_head env st source_oid of
             None \<Rightarrow> Ends (Inr SourceMissing, st)
           | Some (idx, head) \<Rightarrow>
      let st1 = maybe_rotate_snapshot_batch (en_now env) [to_path] st
      in case clone_for_target env (vr_manifest_hash head) to_path st1 of
           None \<Rightarrow> Ends (Inl MissingManifest, st1)
         | Some (h, st2) \<Rightarrow>
      (case persist_copied_version_to_target env from_path to_path h
              \<lparr>cs_manifest_hash = vr_manifest_hash head, cs_object_id = Some source_oid,
               cs_version_id = Some (vr_version_id head), cs_state = vr_state head\<rparr> ''copy'' True st2 of
         (Inr Applied, st3) \<Rightarrow> finish_sidecar env2 sidecar st3
       | other \<Rightarrow> Ends other))"

partial_function (option) copy_object_path ::
  "(nat \<Rightarrow> store_env) \<Rightarrow> nat \<Rightarrow> string \<Rightarrow> string \<Rightarrow> bool \<Rightarrow> store
     \<Rightarrow> (path_mutation_result res \<times> store) option" where
  "copy_object_path envs n from_path to_path overwrite st =
     (case copy_step (envs n) (envs (Suc n)) from_path to_path overwrite st of
        Ends r \<Rightarrow> Some r
      | Sidecar from target st1 \<Rightarrow>
          Option.bind (copy_object_path envs (Suc n) from target overwrite st1)
            (\<lambda>(r, st2). Some (sidecar_outcome r, st2)))"

section \<open>Restoring\<close>

definition restore_object_path_from_source ::
  "store_env \<Rightarrow> copy_source \<Rightarrow> string \<Rightarrow> string \<Rightarrow> bool \<Rightarrow> bool \<Rightarrow> store
     \<Rightarrow> path_mutation_result res \<times> store" where
  "restore_object_path_from_source env src source_path target_path create overwrite st =
     (if source_path \<noteq> target_path \<and> current_entry st target_path \<noteq> None \<and> \<not> overwrite
      then (Inr TargetExists, st)
      else let st1 = rotate_if create (en_now env) [target_path] st in
           case clone_for_target env (cs_manifest_hash src) target_path st1 of
             None \<Rightarrow> (Inl MissingManifest, st1)
           | Some (h, st2) \<Rightarrow>
               persist_copied_version_to_target env source_path target_path h src ''restore'' create st2)"

definition snapshot_restore_source ::
  "store_env \<Rightarrow> store \<Rightarrow> snapshot_manifest \<Rightarrow> string \<Rightarrow> copy_source option" where
  "snapshot_restore_source env st snap source_path =
     (case map_of (sm_objects snap) source_path of
        None \<Rightarrow> None
      | Some h \<Rightarrow> (case map_of (sm_object_ids snap) source_path of
          None \<Rightarrow> Some \<lparr>cs_manifest_hash = h, cs_object_id = None, cs_version_id = None, cs_state = Confirmed\<rparr>
        | Some oid \<Rightarrow> (case load_version_index_by_object_id env st oid of
            None \<Rightarrow> Some \<lparr>cs_manifest_hash = h, cs_object_id = Some oid, cs_version_id = None, cs_state = Confirmed\<rparr>
          | Some idx \<Rightarrow>
              let r = or_else (snapshot_version_record_for_manifest idx h (sm_created_at_unix snap))
                        (max_by_key recency_key
                          (filter (\<lambda>r. vr_manifest_hash r = h) (hm_values (vi_versions idx))))
              in Some \<lparr>cs_manifest_hash = h, cs_object_id = Some oid,
                       cs_version_id = map_option vr_version_id r,
                       cs_state = unwrap_or Confirmed (map_option vr_state r)\<rparr>)))"

definition restore_snapshot_object_path_inner ::
  "store_env \<Rightarrow> snapshot_manifest \<Rightarrow> string \<Rightarrow> string \<Rightarrow> bool \<Rightarrow> bool \<Rightarrow> store
     \<Rightarrow> path_mutation_result res \<times> store" where
  "restore_snapshot_object_path_inner env snap source_path target_path create overwrite st =
     (case snapshot_restore_source env st snap source_path of
        None \<Rightarrow> (Inr SourceMissing, st)
      | Some src \<Rightarrow> restore_object_path_from_source env src source_path target_path create overwrite st)"

datatype restore_result =
  RestoreApplied nat | RestoreSourceMissing | RestoreTargetExists string

fun restore_each ::
  "(nat \<Rightarrow> store_env) \<Rightarrow> nat \<Rightarrow> snapshot_manifest \<Rightarrow> string \<Rightarrow> string \<Rightarrow> bool \<Rightarrow> string list \<Rightarrow> store
     \<Rightarrow> restore_result option res \<times> store" where
  "restore_each envs n snap from_path to_path overwrite [] st = (Inr None, st)"
| "restore_each envs n snap from_path to_path overwrite (p # ps) st =
     (case strip_prefix p from_path of
        None \<Rightarrow> restore_each envs n snap from_path to_path overwrite ps st
      | Some rest \<Rightarrow>
          (case restore_snapshot_object_path_inner (envs n) snap p (to_path @ rest) False overwrite st of
             (Inl e, st1) \<Rightarrow> (Inl e, st1)
           | (Inr Applied, st1) \<Rightarrow> restore_each envs (Suc n) snap from_path to_path overwrite ps st1
           | (Inr SourceMissing, st1) \<Rightarrow> (Inr (Some RestoreSourceMissing), st1)
           | (Inr TargetExists, st1) \<Rightarrow> (Inr (Some (RestoreTargetExists (to_path @ rest))), st1)))"

definition restore_snapshot_recursive ::
  "(nat \<Rightarrow> store_env) \<Rightarrow> snapshot_manifest \<Rightarrow> string \<Rightarrow> string \<Rightarrow> bool \<Rightarrow> store
     \<Rightarrow> restore_result res \<times> store" where
  "restore_snapshot_recursive envs snap from_path to_path overwrite st =
     (let sources = sort (filter (\<lambda>c. c = from_path \<or> starts_with c from_path) (hm_keys (sm_objects snap)))
      in if sources = [] then (Inr RestoreSourceMissing, st)
         else case (if from_path \<noteq> to_path
                    then find (\<lambda>c. c = to_path \<or> starts_with c to_path) (hm_keys (st_current st))
                    else None) of
           Some conflict \<Rightarrow> (Inr (RestoreTargetExists conflict), st)
         | None \<Rightarrow>
      let targets = bts_collect (List.map_filter (\<lambda>c. map_option (\<lambda>rest. to_path @ rest) (strip_prefix c from_path)) sources);
          prior = map (\<lambda>p. (p, current_state_binding st p)) targets;
          st1 = maybe_rotate_snapshot_batch (en_now (envs 0)) targets st
      in (case restore_each envs 0 snap from_path to_path overwrite sources st1 of
            (Inl e, st2) \<Rightarrow> (Inl e, st2)
          | (Inr (Some r), st2) \<Rightarrow> (Inr r, st2)
          | (Inr None, st2) \<Rightarrow>
              let changed = changed_paths_after_bindings st2 prior in
              if changed \<noteq> []
              then (case record_snapshot_batch (envs 0) changed (en_now (envs 0)) st2 of
                      (Inl e, st3) \<Rightarrow> (Inl e, st3)
                    | (Inr _, st3) \<Rightarrow> (Inr (RestoreApplied (length sources)), st3))
              else (Inr (RestoreApplied (length sources)), st2)))"

definition restore_snapshot_path ::
  "(nat \<Rightarrow> store_env) \<Rightarrow> string \<Rightarrow> string \<Rightarrow> string \<Rightarrow> bool \<Rightarrow> bool \<Rightarrow> store
     \<Rightarrow> restore_result res \<times> store" where
  "restore_snapshot_path envs snapshot_id from_path to_path recursive overwrite st =
     (case load_snapshot_manifest st snapshot_id of
        None \<Rightarrow> (Inr RestoreSourceMissing, st)
      | Some snap \<Rightarrow>
          if recursive then restore_snapshot_recursive envs snap from_path to_path overwrite st
          else (case restore_snapshot_object_path_inner (envs 0) snap from_path to_path True overwrite st of
                  (Inl e, st1) \<Rightarrow> (Inl e, st1)
                | (Inr Applied, st1) \<Rightarrow> (Inr (RestoreApplied 1), st1)
                | (Inr SourceMissing, st1) \<Rightarrow> (Inr RestoreSourceMissing, st1)
                | (Inr TargetExists, st1) \<Rightarrow> (Inr (RestoreTargetExists to_path), st1)))"

definition version_restore_source :: "store_env \<Rightarrow> store \<Rightarrow> string \<Rightarrow> string \<Rightarrow> copy_source option" where
  "version_restore_source env st source_path v =
     Option.bind (resolve_object_id_for_key_version env st source_path v) (\<lambda>oid.
     Option.bind (load_version_index_by_object_id env st oid) (\<lambda>idx.
     Option.bind (version_of idx v) (\<lambda>r.
       if is_tombstone r then None
       else Some \<lparr>cs_manifest_hash = vr_manifest_hash r, cs_object_id = Some oid,
                  cs_version_id = Some (vr_version_id r), cs_state = vr_state r\<rparr>)))"

definition restore_version_path ::
  "store_env \<Rightarrow> string \<Rightarrow> string \<Rightarrow> string \<Rightarrow> bool \<Rightarrow> store \<Rightarrow> path_mutation_result res \<times> store" where
  "restore_version_path env source_path v target_path overwrite st =
     (case version_restore_source env st source_path v of
        None \<Rightarrow> (Inr SourceMissing, st)
      | Some src \<Rightarrow> restore_object_path_from_source env src source_path target_path True overwrite st)"


fun restore_resolved_each ::
  "(nat \<Rightarrow> store_env) \<Rightarrow> nat \<Rightarrow> ((string \<times> string) \<times> copy_source option) list
     \<Rightarrow> path_mutation_result res list \<Rightarrow> store \<Rightarrow> path_mutation_result res list \<times> store" where
  "restore_resolved_each envs n [] acc st = (acc, st)"
| "restore_resolved_each envs n (((source_path, target_path), source) # rs) acc st =
     (if current_entry st target_path \<noteq> None
      then restore_resolved_each envs (Suc n) rs (acc @ [Inr TargetExists]) st
      else case source of
             None \<Rightarrow> restore_resolved_each envs (Suc n) rs (acc @ [Inr SourceMissing]) st
           | Some src \<Rightarrow>
               (case restore_object_path_from_source (envs n) src source_path target_path False False st of
                  (r, st1) \<Rightarrow> restore_resolved_each envs (Suc n) rs (acc @ [r]) st1))"

definition restore_resolved_version_paths_batch ::
  "(nat \<Rightarrow> store_env) \<Rightarrow> (string \<times> string) list \<Rightarrow> copy_source option list \<Rightarrow> store
     \<Rightarrow> (path_mutation_result res list \<times> store_error option) option \<times> store" where
  "restore_resolved_version_paths_batch envs requests sources st =
     (if length requests \<noteq> length sources then (None, st)
      else let touched = bts_collect (map snd requests);
               prior = map (\<lambda>p. (p, current_state_binding st p)) touched
           in case restore_resolved_each envs 0 (zip requests sources) []
                     (maybe_rotate_snapshot_batch (en_now (envs 0)) touched st) of
                (results, st1) \<Rightarrow>
                  (let changed = changed_paths_after_bindings st1 prior in
                   if changed = [] then (Some (results, None), st1)
                   else (case record_snapshot_batch (envs 0) changed (en_now (envs 0)) st1 of
                           (Inl e, st2) \<Rightarrow> (Some (results, Some e), st2)
                         | (Inr _, st2) \<Rightarrow> (Some (results, None), st2))))"

section \<open>Listing versions\<close>

definition current_path_for_object_id :: "store_env \<Rightarrow> store \<Rightarrow> string \<Rightarrow> string option" where
  "current_path_for_object_id env st oid =
     (if is_blank oid then None
      else case remdups_adj (sort (list_keys_for_object_id st oid)) of
             [] \<Rightarrow> None
           | [p] \<Rightarrow> Some p
           | p # ps \<Rightarrow>
               Some (unwrap_or p (opt_filter (\<lambda>q. q \<in> set (p # ps))
                 (Option.bind (load_version_index_by_object_id env st oid) (\<lambda>idx.
                  Option.bind (vi_preferred_head_version_id idx) (\<lambda>v.
                  Option.bind (version_of idx v) vr_logical_path))))))"

definition version_graph_summary_for_object_id ::
  "store_env \<Rightarrow> store \<Rightarrow> string \<Rightarrow> string \<Rightarrow> version_graph_summary option" where
  "version_graph_summary_for_object_id env st key oid =
     map_option (version_graph_summary_of key) (load_version_index_by_object_id env st oid)"

definition list_versions :: "store_env \<Rightarrow> store \<Rightarrow> string \<Rightarrow> version_graph_summary option" where
  "list_versions env st key =
     Option.bind (object_id_for_key st key) (version_graph_summary_for_object_id env st key)"

definition list_versions_with_history :: "store_env \<Rightarrow> store \<Rightarrow> string \<Rightarrow> version_graph_summary option" where
  "list_versions_with_history env st key =
     Option.bind (resolve_object_id_for_key_history env st key)
       (version_graph_summary_for_object_id env st key)"

definition list_versions_by_object_id :: "store_env \<Rightarrow> store \<Rightarrow> string \<Rightarrow> version_graph_summary option" where
  "list_versions_by_object_id env st oid =
     (if is_blank oid then None
      else Option.bind (load_version_index_by_object_id env st oid) (\<lambda>idx.
           Option.bind (or_else (current_path_for_object_id env st oid)
                          (resolve_key_for_version_index env st idx)) (\<lambda>key.
           version_graph_summary_for_object_id env st key oid)))"

end
