(* ===== verification/Retained_Content.thy ===== *)
theory Retained_Content
  imports Object_Store
begin

text \<open>
  The catalogue of content that is still referenced (crates/server-node-sdk/src/storage/retained_content.rs),
  which scrubbing, repair and garbage collection share: the manifests of the current objects, of every
  version and of every snapshot, and the references to each of them by subject.
\<close>

section \<open>The catalogue\<close>

definition MANIFEST_SUBJECT_PREFIX :: string where
  "MANIFEST_SUBJECT_PREFIX = ''cas-manifest:''"

record retained_reference =
  rf_key :: "string option"
  rf_object_id :: "string option"
  rf_version_id :: "string option"
  rf_manifest_hash :: string
  rf_snapshot_only :: bool

definition replication_subject :: "retained_reference \<Rightarrow> string option" where
  "replication_subject r =
     (if rf_snapshot_only r then None
      else (case rf_key r of
              None \<Rightarrow> None
            | Some key \<Rightarrow> Some (case rf_version_id r of Some v \<Rightarrow> key @ ''@'' @ v | None \<Rightarrow> key)))"

definition repair_label :: "retained_reference \<Rightarrow> string" where
  "repair_label r = (case replication_subject r of Some s \<Rightarrow> s | None \<Rightarrow> MANIFEST_SUBJECT_PREFIX @ rf_manifest_hash r)"

record retained_content =
  rt_manifests :: "(string, (string, retained_reference) btreemap) btreemap"
  rt_subjects :: "(string, string) btreemap"
  rt_current_keys :: usize
  rt_version_indexes :: usize
  rt_version_records :: usize

text \<open>\<open>entry(k).or_insert(v)\<close>.\<close>

definition bt_or_insert :: "'k::linorder \<Rightarrow> 'v \<Rightarrow> ('k, 'v) btreemap \<Rightarrow> ('k, 'v) btreemap" where
  "bt_or_insert k v m = (if map_of m k = None then bt_insert k v m else m)"

definition retained_insert :: "retained_reference \<Rightarrow> retained_content \<Rightarrow> retained_content" where
  "retained_insert r c =
     (let h = rf_manifest_hash r;
          refs = (case map_of (rt_manifests c) h of Some refs \<Rightarrow> refs | None \<Rightarrow> []);
          c1 = c\<lparr>rt_manifests := bt_insert h (bt_or_insert (repair_label r) r refs) (rt_manifests c)\<rparr>
      in case replication_subject r of
           None \<Rightarrow> c1
         | Some subject \<Rightarrow> c1\<lparr>rt_subjects := bt_or_insert subject h (rt_subjects c1)\<rparr>)"

definition retain_current :: "(string, current_object_entry) hashmap \<Rightarrow> retained_content \<Rightarrow> retained_content" where
  "retain_current rows c =
     fold (\<lambda>(key, e). retained_insert \<lparr>rf_key = Some key, rf_object_id = Some (coe_object_id e), rf_version_id = None,
             rf_manifest_hash = coe_manifest_hash e, rf_snapshot_only = False\<rparr>) rows c"

definition retain_index :: "(string, string) hashmap \<Rightarrow> string \<Rightarrow> file_version_index \<Rightarrow> retained_content \<Rightarrow> retained_content" where
  "retain_index paths object_id idx c =
     fold (\<lambda>r. retained_insert \<lparr>rf_key = or_else (vr_logical_path r) (map_of paths object_id), rf_object_id = Some object_id,
             rf_version_id = Some (vr_version_id r), rf_manifest_hash = vr_manifest_hash r, rf_snapshot_only = False\<rparr>)
       (hm_values (vi_versions idx)) (c\<lparr>rt_version_records := rt_version_records c + length (vi_versions idx)\<rparr>)"

definition retain_snapshot :: "snapshot_manifest \<Rightarrow> retained_content \<Rightarrow> retained_content" where
  "retain_snapshot snapshot c =
     fold (\<lambda>(key, h) c. if map_of (rt_manifests c) h \<noteq> None then c
             else retained_insert \<lparr>rf_key = Some key, rf_object_id = map_of (sm_object_ids snapshot) key, rf_version_id = None,
                    rf_manifest_hash = h, rf_snapshot_only = True\<rparr> c) (sm_objects snapshot) c"

text \<open>Rows of snapshots are listed by descending time and id.\<close>

definition retained_load :: "store_env \<Rightarrow> store \<Rightarrow> retained_content" where
  "retained_load env st =
     (let empty = \<lparr>rt_manifests = [], rt_subjects = [], rt_current_keys = length (st_current st),
                   rt_version_indexes = 0, rt_version_records = 0\<rparr>;
          c1 = retain_current (st_current st) empty;
          paths = fold (\<lambda>(key, e). hm_insert (coe_object_id e) key) (st_current st) [];
          object_ids = sort (hm_keys (st_indexes st));
          c2 = fold (\<lambda>object_id c. case load_version_index_by_object_id env st object_id of
                        None \<Rightarrow> c
                      | Some idx \<Rightarrow> retain_index paths object_id idx c)
                 object_ids (c1\<lparr>rt_version_indexes := length object_ids\<rparr>);
          infos = sort_desc (\<lambda>m. (sm_created_at_unix m, sm_id m)) (hm_values (st_snapshots st))
      in fold (\<lambda>info c. case map_of (st_snapshots st) (sm_id info) of
                  None \<Rightarrow> c
                | Some snapshot \<Rightarrow> retain_snapshot snapshot c) infos c2)"

definition reference_for_subject :: "string \<Rightarrow> retained_content \<Rightarrow> retained_reference option" where
  "reference_for_subject subject c =
     Option.bind (map_of (rt_subjects c) subject) (\<lambda>h.
     Option.bind (map_of (rt_manifests c) h) (\<lambda>refs. map_of refs subject))"

definition collect_referenced_manifest_hashes :: "store_env \<Rightarrow> store \<Rightarrow> string list" where
  "collect_referenced_manifest_hashes env st = map fst (rt_manifests (retained_load env st))"

section \<open>Invariant\<close>

text \<open>Every subject names a catalogued reference of that subject, and every reference stands under its
  manifest and its label.\<close>

definition catalogued :: "retained_content \<Rightarrow> string \<Rightarrow> string \<Rightarrow> retained_reference option" where
  "catalogued c h label = Option.bind (map_of (rt_manifests c) h) (\<lambda>refs. map_of refs label)"

definition retained_ok :: "retained_content \<Rightarrow> bool" where
  "retained_ok c \<longleftrightarrow>
     (\<forall>h label r. catalogued c h label = Some r \<longrightarrow> rf_manifest_hash r = h \<and> repair_label r = label) \<and>
     (\<forall>subject h. map_of (rt_subjects c) subject = Some h \<longrightarrow> catalogued c h subject \<noteq> None)"

definition manifests_of :: "retained_content \<Rightarrow> string set" where
  "manifests_of c = fst ` set (rt_manifests c)"

lemma map_of_bt_or_insert:
  "map_of (bt_or_insert k v m) k' = (if k' = k \<and> map_of m k = None then Some v else map_of m k')"
  by (auto simp: bt_or_insert_def)

lemma catalogued_insert:
  "catalogued (retained_insert r c) h label =
     (if h = rf_manifest_hash r \<and> label = repair_label r \<and> catalogued c h label = None then Some r else catalogued c h label)"
  by (auto simp: catalogued_def retained_insert_def Let_def map_of_bt_or_insert split: option.splits)

lemma subjects_insert:
  "map_of (rt_subjects (retained_insert r c)) subject =
     (if replication_subject r = Some subject \<and> map_of (rt_subjects c) subject = None then Some (rf_manifest_hash r)
      else map_of (rt_subjects c) subject)"
  by (auto simp: retained_insert_def Let_def map_of_bt_or_insert split: option.splits)

lemma retained_ok_insert: "retained_ok c \<Longrightarrow> retained_ok (retained_insert r c)"
  unfolding retained_ok_def by (auto simp: catalogued_insert subjects_insert repair_label_def)

lemma manifests_of_insert: "manifests_of (retained_insert r c) = insert (rf_manifest_hash r) (manifests_of c)"
  by (simp add: manifests_of_def retained_insert_def Let_def split: option.splits)

lemma retain_fold_ok:
  "(\<And>x c. x \<in> set xs \<Longrightarrow> retained_ok c \<Longrightarrow> retained_ok (f x c)) \<Longrightarrow> retained_ok c \<Longrightarrow> retained_ok (fold f xs c)"
  by (induction xs arbitrary: c) auto

lemma retain_fold_manifests:
  "(\<And>x c. x \<in> set xs \<Longrightarrow> manifests_of (f x c) = manifests_of c \<union> g x) \<Longrightarrow>
     manifests_of (fold f xs c) = manifests_of c \<union> \<Union> (g ` set xs)"
  by (induction xs arbitrary: c) auto

lemma retain_current_ok:
  "retained_ok c \<Longrightarrow> retained_ok (retain_current rows c)"
  "manifests_of (retain_current rows c) = manifests_of c \<union> (\<Union>(k, e)\<in>set rows. {coe_manifest_hash e})"
  unfolding retain_current_def
  by (rule retain_fold_ok; auto simp: retained_ok_insert)
    (rule retain_fold_manifests; auto simp: manifests_of_insert)

lemma counts_irrelevant [simp]:
  "retained_ok (c\<lparr>rt_version_records := n\<rparr>) = retained_ok c" "manifests_of (c\<lparr>rt_version_records := n\<rparr>) = manifests_of c"
  "retained_ok (c\<lparr>rt_version_indexes := n\<rparr>) = retained_ok c" "manifests_of (c\<lparr>rt_version_indexes := n\<rparr>) = manifests_of c"
  by (simp_all add: retained_ok_def manifests_of_def catalogued_def)

lemma retain_index_ok:
  "retained_ok c \<Longrightarrow> retained_ok (retain_index paths oid idx c)"
  "manifests_of (retain_index paths oid idx c) = manifests_of c \<union> (\<Union>r\<in>set (hm_values (vi_versions idx)). {vr_manifest_hash r})"
  unfolding retain_index_def
  by (rule retain_fold_ok; auto simp: retained_ok_insert)
    (subst retain_fold_manifests [where g = "\<lambda>r. {vr_manifest_hash r}"]; auto simp: manifests_of_insert)

lemma manifests_of_iff: "map_of (rt_manifests c) h \<noteq> None \<longleftrightarrow> h \<in> manifests_of c"
  by (simp add: manifests_of_def map_of_eq_None_iff)

lemma retain_snapshot_ok:
  "retained_ok c \<Longrightarrow> retained_ok (retain_snapshot sn c)"
  "manifests_of (retain_snapshot sn c) = manifests_of c \<union> (\<Union>(k, h)\<in>set (sm_objects sn). {h})"
  unfolding retain_snapshot_def manifests_of_iff
  by (rule retain_fold_ok; auto simp: retained_ok_insert)
    (rule retain_fold_manifests; auto simp: manifests_of_insert split: if_splits)

text \<open>The manifests that anything refers to.\<close>

definition live_manifests :: "store_env \<Rightarrow> store \<Rightarrow> string set" where
  "live_manifests env st =
     {coe_manifest_hash e |key e. (key, e) \<in> set (st_current st)} \<union>
     {vr_manifest_hash r |oid idx r. load_version_index_by_object_id env st oid = Some idx \<and> r \<in> set (hm_values (vi_versions idx))} \<union>
     {h |sid sn key h. map_of (st_snapshots st) sid = Some sn \<and> (key, h) \<in> set (sm_objects sn)}"

text \<open>Snapshots are stored under their id.\<close>

definition snapshot_rows_ok :: "store \<Rightarrow> bool" where
  "snapshot_rows_ok st \<longleftrightarrow> hm_ok (st_snapshots st) \<and> (\<forall>sid sn. map_of (st_snapshots st) sid = Some sn \<longrightarrow> sm_id sn = sid)"

lemma index_row: "load_version_index_by_object_id env st oid = Some idx \<Longrightarrow> oid \<in> set (hm_keys (st_indexes st))"
  by (force simp: load_version_index_by_object_id_def split: option.splits dest!: map_of_SomeD)

lemma snapshot_row:
  "snapshot_rows_ok st \<Longrightarrow> map_of (st_snapshots st) sid = Some sn \<Longrightarrow>
     sn \<in> set (hm_values (st_snapshots st)) \<and> map_of (st_snapshots st) (sm_id sn) = Some sn"
  by (auto simp: snapshot_rows_ok_def hm_value_iff simp del: set_map)

lemma retained_load_ok:
  "retained_ok (retained_load env st)"
  "snapshot_rows_ok st \<Longrightarrow> manifests_of (retained_load env st) = live_manifests env st"
proof -
  let ?e = "\<lparr>rt_manifests = [], rt_subjects = [], rt_current_keys = length (st_current st), rt_version_indexes = 0,
    rt_version_records = 0\<rparr>"
  let ?paths = "fold (\<lambda>(key, e). hm_insert (coe_object_id e) key) (st_current st) []"
  let ?ids = "sort (hm_keys (st_indexes st))"
  let ?infos = "sort_desc (\<lambda>m. (sm_created_at_unix m, sm_id m)) (hm_values (st_snapshots st))"
  let ?fi = "\<lambda>oid c. case load_version_index_by_object_id env st oid of None \<Rightarrow> c | Some idx \<Rightarrow> retain_index ?paths oid idx c"
  let ?gi = "\<lambda>oid. case load_version_index_by_object_id env st oid of None \<Rightarrow> {}
    | Some idx \<Rightarrow> (\<Union>r\<in>set (hm_values (vi_versions idx)). {vr_manifest_hash r})"
  let ?fs = "\<lambda>info c. case map_of (st_snapshots st) (sm_id info) of None \<Rightarrow> c | Some sn \<Rightarrow> retain_snapshot sn c"
  let ?gs = "\<lambda>info. case map_of (st_snapshots st) (sm_id info) of None \<Rightarrow> {}
    | Some sn \<Rightarrow> (\<Union>(k, h)\<in>set (sm_objects sn). {h})"
  let ?c1 = "(retain_current (st_current st) ?e)\<lparr>rt_version_indexes := length ?ids\<rparr>"
  have load: "retained_load env st = fold ?fs ?infos (fold ?fi ?ids ?c1)" by (simp add: retained_load_def Let_def)
  have empty: "retained_ok ?e" "manifests_of ?e = {}" by (simp_all add: retained_ok_def catalogued_def manifests_of_def)
  have indexes: "retained_ok c \<Longrightarrow> retained_ok (fold ?fi ?ids c)" "manifests_of (fold ?fi ?ids c) = manifests_of c \<union> \<Union> (?gi ` set ?ids)" for c
    by (rule retain_fold_ok; auto simp: retain_index_ok split: option.splits)
      (rule retain_fold_manifests; auto simp: retain_index_ok(2) split: option.splits)
  have snaps: "retained_ok c \<Longrightarrow> retained_ok (fold ?fs ?infos c)" "manifests_of (fold ?fs ?infos c) = manifests_of c \<union> \<Union> (?gs ` set ?infos)" for c
    by (rule retain_fold_ok; auto simp: retain_snapshot_ok split: option.splits)
      (rule retain_fold_manifests; auto simp: retain_snapshot_ok(2) split: option.splits)
  show "retained_ok (retained_load env st)"
    unfolding load by (intro snaps(1) indexes(1)) (simp add: retain_current_ok empty)
  assume ok: "snapshot_rows_ok st"
  have "manifests_of (retained_load env st) =
      (\<Union>(k, e)\<in>set (st_current st). {coe_manifest_hash e}) \<union> \<Union> (?gi ` set ?ids) \<union> \<Union> (?gs ` set ?infos)"
    unfolding load by (simp only: snaps(2) indexes(2) counts_irrelevant retain_current_ok(2) empty Un_empty_left)
  moreover have "(\<Union>(k, e)\<in>set (st_current st). {coe_manifest_hash e}) = {coe_manifest_hash e |key e. (key, e) \<in> set (st_current st)}"
    by auto
  moreover have "\<Union> (?gi ` set ?ids) =
      {vr_manifest_hash r |oid idx r. load_version_index_by_object_id env st oid = Some idx \<and> r \<in> set (hm_values (vi_versions idx))}"
    (is "_ = ?I")
  proof -
    have "h \<in> \<Union> (?gi ` set ?ids)" if "h \<in> ?I" for h
      using that index_row by (fastforce simp del: set_map)
    moreover have "h \<in> ?I" if "h \<in> \<Union> (?gi ` set ?ids)" for h
      using that by (force simp del: set_map split: option.splits)
    ultimately show ?thesis by (intro equalityI subsetI)
  qed
  moreover have "\<Union> (?gs ` set ?infos) = {h |sid sn key h. map_of (st_snapshots st) sid = Some sn \<and> (key, h) \<in> set (sm_objects sn)}"
    (is "_ = ?S")
  proof -
    have "h \<in> \<Union> (?gs ` set ?infos)" if "h \<in> ?S" for h
      using that snapshot_row [OF ok] by (fastforce simp del: set_map)
    moreover have "h \<in> ?S" if "h \<in> \<Union> (?gs ` set ?infos)" for h
      using that by (force simp del: set_map split: option.splits)
    ultimately show ?thesis by (intro equalityI subsetI)
  qed
  ultimately show "manifests_of (retained_load env st) = live_manifests env st" by (simp only: live_manifests_def)
qed

text \<open>A subject is answered by a reference to that subject.\<close>

lemma reference_for_subject_sound:
  assumes "reference_for_subject subject (retained_load env st) = Some r"
  shows "repair_label r = subject \<and> rf_manifest_hash r \<in> manifests_of (retained_load env st)"
proof -
  obtain h where h: "map_of (rt_subjects (retained_load env st)) subject = Some h" "catalogued (retained_load env st) h subject = Some r"
    using assms by (auto simp: reference_for_subject_def catalogued_def bind_eq_Some_conv)
  then have "rf_manifest_hash r = h" "repair_label r = subject" using retained_load_ok(1) by (auto simp: retained_ok_def)
  moreover have "h \<in> manifests_of (retained_load env st)"
    using h(2) by (auto simp: catalogued_def manifests_of_iff [symmetric] bind_eq_Some_conv)
  ultimately show ?thesis by simp
qed

lemma collect_referenced_set:
  "snapshot_rows_ok st \<Longrightarrow> set (collect_referenced_manifest_hashes env st) = live_manifests env st"
  using retained_load_ok(2) [of st env] by (simp add: collect_referenced_manifest_hashes_def manifests_of_def)

end
