(* ===== verification/Garbage_Collection.thy ===== *)
theory Garbage_Collection
  imports Retained_Content Storage_Pool Rust_Strings
begin

text \<open>
  Garbage collection of manifests and chunks (\<open>cleanup_unreferenced\<close> of
  crates/server-node-sdk/src/storage/mod.rs), over the tables of the object store and the files of the
  storage pool, with the bookkeeping of chunks fetched for reading and of repairs in progress.

  The sweep runs on a quiet store: files do not vanish under it, and no call of the file system fails.
  The listing of a chunk directory includes the temporary files of interrupted writes, which are files of
  kind \<open>Chunk\<close> whose name is not a hash.
\<close>

section \<open>Repair tasks\<close>

record content_repair_task =
  ct_reference :: retained_reference
  ct_repair_chunks :: bool
  ct_chunks :: "chunk_ref list"
  ct_attempts :: nat
  ct_next_attempt_unix :: u64
  ct_last_attempt_unix :: u64
  ct_last_error :: "string option"
  ct_waiting_for_source :: bool
  ct_source_fingerprint :: string
  ct_recovered_chunks :: usize

definition repair_task_new :: "retained_reference \<Rightarrow> bool \<Rightarrow> content_repair_task" where
  "repair_task_new reference repair_chunks =
     \<lparr>ct_reference = reference, ct_repair_chunks = repair_chunks, ct_chunks = [], ct_attempts = 0, ct_next_attempt_unix = 0,
      ct_last_attempt_unix = 0, ct_last_error = None, ct_waiting_for_source = False, ct_source_fingerprint = [], ct_recovered_chunks = 0\<rparr>"

definition repair_task_defer :: "string \<Rightarrow> u64 \<Rightarrow> u64 \<Rightarrow> bool \<Rightarrow> content_repair_task \<Rightarrow> content_repair_task" where
  "repair_task_defer error now base_delay made_progress t =
     (if made_progress
      then t\<lparr>ct_next_attempt_unix := sat_add_u64 now (max base_delay 1), ct_last_error := Some error\<rparr>
      else let attempts = min (ct_attempts t + 1) (2 ^ 32 - 1);
               delay = min (min (max base_delay 1 * 2 ^ min attempts 6) u64_max) 3600
           in t\<lparr>ct_attempts := attempts, ct_next_attempt_unix := sat_add_u64 now delay, ct_last_error := Some error\<rparr>)"

section \<open>Chunks fetched for reading\<close>

definition READ_THROUGH_CACHE_CLASS :: string where
  "READ_THROUGH_CACHE_CLASS = ''read_through''"

record cached_chunk_record =
  cc_hash :: string
  cc_size_bytes :: u64
  cc_first_cached_unix :: u64
  cc_last_access_unix :: u64
  cc_access_count :: u64
  cc_last_source_node_id :: "string option"
  cc_cache_class :: string

section \<open>State\<close>

record gc_state =
  gc_store :: store
  gc_pool :: pool_state
  gc_chunk_store_bytes :: "u64 option"
  gc_repair_tasks :: "content_repair_task list"
  gc_cached_chunks :: "(string, cached_chunk_record) hashmap"
  gc_media :: "string list"

definition note_cached_chunk_fetch :: "u64 \<Rightarrow> string \<Rightarrow> usize \<Rightarrow> string option \<Rightarrow> gc_state \<Rightarrow> gc_state" where
  "note_cached_chunk_fetch now h size_bytes source s =
     (let r = (case map_of (gc_cached_chunks s) h of
                 Some r \<Rightarrow> r
               | None \<Rightarrow> \<lparr>cc_hash = h, cc_size_bytes = size_bytes, cc_first_cached_unix = now, cc_last_access_unix = now,
                          cc_access_count = 0, cc_last_source_node_id = source, cc_cache_class = READ_THROUGH_CACHE_CLASS\<rparr>);
          r1 = r\<lparr>cc_size_bytes := size_bytes, cc_last_access_unix := now, cc_access_count := sat_add_u64 (cc_access_count r) 1\<rparr>;
          r2 = (if source = None then r1 else r1\<lparr>cc_last_source_node_id := source\<rparr>);
          r3 = (if cc_cache_class r2 = [] then r2\<lparr>cc_cache_class := READ_THROUGH_CACHE_CLASS\<rparr> else r2)
      in s\<lparr>gc_cached_chunks := hm_insert (cc_hash r3) r3 (gc_cached_chunks s)\<rparr>)"

definition touch_cached_chunk_accesses :: "u64 \<Rightarrow> string list \<Rightarrow> gc_state \<Rightarrow> gc_state" where
  "touch_cached_chunk_accesses now hashes s =
     fold (\<lambda>h s. case map_of (gc_cached_chunks s) h of
               None \<Rightarrow> s
             | Some r \<Rightarrow> s\<lparr>gc_cached_chunks := hm_insert (cc_hash r)
                 (r\<lparr>cc_last_access_unix := now, cc_access_count := sat_add_u64 (cc_access_count r) 1\<rparr>) (gc_cached_chunks s)\<rparr>) hashes s"

text \<open>The pool as the maps that the content store works on.\<close>

definition kind_files :: "pool_state \<Rightarrow> storage_content_kind \<Rightarrow> (string, bytes) hashmap" where
  "kind_files s kind =
     List.map_filter (\<lambda>(i, kind', h). if kind' = kind then map_option (Pair h) (content_at s kind h) else None) (hm_keys (ps_files s))"

definition pool_content :: "pool_state \<Rightarrow> content_store" where
  "pool_content s = \<lparr>cs_chunks = kind_files s Chunk, cs_manifests = kind_files s Manifest\<rparr>"

section \<open>Listings\<close>

definition is_atomic_chunk_temp_file_name :: "string \<Rightarrow> bool" where
  "is_atomic_chunk_temp_file_name name =
     (case split_once ''.tmp-'' name of
        None \<Rightarrow> False
      | Some (h, rest) \<Rightarrow> manifest_hash_looks_safe_filename h \<and> rest \<noteq> [])"

definition available_ids :: "storage_pool \<Rightarrow> string list" where
  "available_ids pool = map (pc_id \<circ> pr_config) (filter pr_available (pool_paths pool))"

definition list_manifest_paths :: "pool_state \<Rightarrow> (string \<times> string) list" where
  "list_manifest_paths s =
     concat (map (\<lambda>i. map (Pair i) (filter manifest_hash_looks_safe_filename (collect_storage_content_files i Manifest s)))
       (available_ids (ps_pool s)))"

definition collect_chunk_file_paths :: "pool_state \<Rightarrow> (string \<times> string \<times> string option) list" where
  "collect_chunk_file_paths s =
     concat (map (\<lambda>i. List.map_filter (\<lambda>name.
         if manifest_hash_looks_safe_filename name then Some (i, name, Some name)
         else if is_atomic_chunk_temp_file_name name then Some (i, name, None) else None)
       (collect_storage_content_files i Chunk s)) (rev (available_ids (ps_pool s))))"

section \<open>The size of the chunk store\<close>

definition directory_size_bytes :: "string \<Rightarrow> storage_content_kind \<Rightarrow> pool_state \<Rightarrow> u64" where
  "directory_size_bytes i kind s =
     fold (\<lambda>((i', kind', h), f) total. if i' = i \<and> kind' = kind then sat_add_u64 total (length (sf_payload f)) else total) (ps_files s) 0"

definition storage_pool_chunk_bytes :: "pool_state \<Rightarrow> u64" where
  "storage_pool_chunk_bytes s = fold (\<lambda>i total. sat_add_u64 total (directory_size_bytes i Chunk s)) (available_ids (ps_pool s)) 0"

definition reconcile_chunk_store_bytes_state :: "gc_state \<Rightarrow> gc_state" where
  "reconcile_chunk_store_bytes_state s = s\<lparr>gc_chunk_store_bytes := Some (storage_pool_chunk_bytes (gc_pool s))\<rparr>"

definition note_chunk_store_delta :: "int \<Rightarrow> gc_state \<Rightarrow> gc_state" where
  "note_chunk_store_delta delta s =
     (case gc_chunk_store_bytes s of
        None \<Rightarrow> reconcile_chunk_store_bytes_state s
      | Some b \<Rightarrow> s\<lparr>gc_chunk_store_bytes := Some (if delta \<ge> 0 then sat_add_u64 b (nat delta) else b - nat (- delta))\<rparr>)"

section \<open>Sweeping manifests\<close>

record manifest_sweep =
  ms_retained :: "string list"
  ms_skipped :: usize
  ms_deleted :: usize
  ms_state :: gc_state

text \<open>Removal of a file and, if it is the indexed copy, of its location.\<close>

definition remove_content_file :: "storage_content_kind \<Rightarrow> string \<Rightarrow> string \<Rightarrow> pool_state \<Rightarrow> bool \<times> pool_state" where
  "remove_content_file kind i h s =
     (case forget_location_at_path kind h i (ps_pool s) of
        (indexed, pool) \<Rightarrow>
          (indexed, s\<lparr>ps_files := hm_remove (i, kind, h) (ps_files s), ps_pool := pool,
                      ps_db := if indexed then hm_remove (kind, h) (ps_db s) else ps_db s\<rparr>))"

definition delete_manifest_file :: "string \<Rightarrow> string \<Rightarrow> gc_state \<Rightarrow> gc_state" where
  "delete_manifest_file i h s =
     (case remove_content_file Manifest i h (gc_pool s) of
        (indexed, p) \<Rightarrow>
          let s1 = s\<lparr>gc_pool := p\<rparr> in
          if indexed
          then s1\<lparr>gc_store := (gc_store s1)\<lparr>st_owned_manifests := hm_remove h (st_owned_manifests (gc_store s1))\<rparr>\<rparr>
          else s1)"

definition sweep_manifest :: "u64 \<Rightarrow> u64 \<Rightarrow> bool \<Rightarrow> string list \<Rightarrow> string \<times> string \<Rightarrow> manifest_sweep \<Rightarrow> manifest_sweep" where
  "sweep_manifest now retention_secs dry_run kept path acc =
     (case path of (i, h) \<Rightarrow>
      if h \<in> set kept then acc
      else (case map_of (ps_files (gc_pool (ms_state acc))) (i, Manifest, h) of
              None \<Rightarrow> acc
            | Some f \<Rightarrow>
                if now - sf_modified f < retention_secs
                then acc\<lparr>ms_retained := List.insert h (ms_retained acc), ms_skipped := ms_skipped acc + 1\<rparr>
                else if dry_run then acc
                else acc\<lparr>ms_state := delete_manifest_file i h (ms_state acc), ms_deleted := ms_deleted acc + 1\<rparr>))"

section \<open>Protected chunks\<close>

definition CONTENT_FINGERPRINT_PREFIX :: string where
  "CONTENT_FINGERPRINT_PREFIX = ''ironmesh-content-fingerprint-v1''"

definition u64_le_bytes :: "nat \<Rightarrow> bytes" where
  "u64_le_bytes n = map (\<lambda>i. char_of (n div 256 ^ i)) [0..<8]"

definition content_fingerprint_from_manifest :: "content_env \<Rightarrow> object_manifest \<Rightarrow> string" where
  "content_fingerprint_from_manifest env m =
     ''cfp-'' @ ce_hash_hex env (CONTENT_FINGERPRINT_PREFIX @ u64_le_bytes (om_total_size_bytes m) @
       concat (map (\<lambda>c. cr_hash c @ u64_le_bytes (cr_size_bytes c)) (om_chunks m)))"

text \<open>The loop over the retained manifests: the chunks of the owned ones, and all fingerprints.\<close>

fun inspect_manifests ::
  "content_env \<Rightarrow> content_store \<Rightarrow> string list \<Rightarrow> string list \<Rightarrow> string list \<times> string list \<Rightarrow> (string list \<times> string list) option" where
  "inspect_manifests env cs owned [] acc = Some acc"
| "inspect_manifests env cs owned (h # hs) (owned_chunks, fingerprints) =
     (case load_manifest_by_hash env cs h of
        Inl _ \<Rightarrow> None
      | Inr None \<Rightarrow> inspect_manifests env cs owned hs (owned_chunks, fingerprints)
      | Inr (Some m) \<Rightarrow>
          inspect_manifests env cs owned hs
            (if h \<in> set owned then fold List.insert (map cr_hash (om_chunks m)) owned_chunks else owned_chunks,
             List.insert (content_fingerprint_from_manifest env m) fingerprints))"

section \<open>Sweeping chunks\<close>

definition CHUNK_ATOMIC_TEMP_MIN_RETENTION_SECS :: u64 where
  "CHUNK_ATOMIC_TEMP_MIN_RETENTION_SECS = 10 * 60"

record chunk_sweep =
  ks_skipped :: usize
  ks_deleted :: usize
  ks_deleted_cached :: usize
  ks_deleted_records :: usize
  ks_state :: gc_state

definition delete_chunk_file :: "string list \<Rightarrow> string \<Rightarrow> string \<Rightarrow> bool \<Rightarrow> usize \<Rightarrow> chunk_sweep \<Rightarrow> chunk_sweep" where
  "delete_chunk_file cached i name is_hash nbytes acc =
     (let s = ks_state acc in
      if \<not> is_hash
      then acc\<lparr>ks_state := s\<lparr>gc_pool := (gc_pool s)\<lparr>ps_files := hm_remove (i, Chunk, name) (ps_files (gc_pool s))\<rparr>\<rparr>,
               ks_deleted := ks_deleted acc + 1\<rparr>
      else (case remove_content_file Chunk i name (gc_pool s) of
              (indexed, p) \<Rightarrow>
                let s1 = note_chunk_store_delta (- int nbytes) (s\<lparr>gc_pool := p\<rparr>) in
                if indexed \<and> name \<in> set cached
                then acc\<lparr>ks_state := s1\<lparr>gc_cached_chunks := hm_remove name (gc_cached_chunks s1)\<rparr>,
                         ks_deleted := ks_deleted acc + 1, ks_deleted_cached := ks_deleted_cached acc + 1,
                         ks_deleted_records := ks_deleted_records acc + 1\<rparr>
                else acc\<lparr>ks_state := s1, ks_deleted := ks_deleted acc + 1\<rparr>))"

definition sweep_chunk ::
  "u64 \<Rightarrow> u64 \<Rightarrow> bool \<Rightarrow> string list \<Rightarrow> string list \<Rightarrow> string \<times> string \<times> string option \<Rightarrow> chunk_sweep \<Rightarrow> chunk_sweep" where
  "sweep_chunk now retention_secs dry_run protected_chunks cached entry acc =
     (case entry of (i, name, h) \<Rightarrow>
      if (case h of Some x \<Rightarrow> x \<in> set protected_chunks | None \<Rightarrow> False) then acc
      else (case map_of (ps_files (gc_pool (ks_state acc))) (i, Chunk, name) of
              None \<Rightarrow> acc
            | Some f \<Rightarrow>
                if now - sf_modified f <
                     (if h \<noteq> None then retention_secs else max retention_secs CHUNK_ATOMIC_TEMP_MIN_RETENTION_SECS)
                then acc\<lparr>ks_skipped := ks_skipped acc + 1\<rparr>
                else if dry_run then acc
                else delete_chunk_file cached i name (h \<noteq> None) (length (sf_payload f)) acc))"

section \<open>Sweeping the records\<close>

fun sweep_records :: "string list \<Rightarrow> cached_chunk_record list \<Rightarrow> usize \<Rightarrow> gc_state \<Rightarrow> usize option \<times> gc_state" where
  "sweep_records owned_chunks [] n s = (Some n, s)"
| "sweep_records owned_chunks (r # rs) n s =
     (let gone = s\<lparr>gc_cached_chunks := hm_remove (cc_hash r) (gc_cached_chunks s)\<rparr> in
      if cc_hash r \<in> set owned_chunks then sweep_records owned_chunks rs (n + 1) gone
      else (case content_path (ps_pool (gc_pool s)) Chunk (cc_hash r) of
              None \<Rightarrow> (None, s)
            | Some i \<Rightarrow>
                if map_of (ps_files (gc_pool s)) (i, Chunk, cc_hash r) = None
                then sweep_records owned_chunks rs (n + 1) gone
                else sweep_records owned_chunks rs n s))"

section \<open>The collector\<close>

record gc_report =
  cl_retention_secs :: u64
  cl_dry_run :: bool
  cl_protected_manifests :: usize
  cl_protected_chunks :: usize
  cl_tracked_cached_chunks :: usize
  cl_skipped_recent_manifests :: usize
  cl_skipped_recent_chunks :: usize
  cl_deleted_manifests :: usize
  cl_deleted_chunks :: usize
  cl_deleted_cached_chunks :: usize
  cl_deleted_cached_chunk_records :: usize
  cl_retained_manifests_processed :: usize
  cl_peak_manifest_batch_size :: usize

record cleanup_protection_snapshot =
  pn_recovery_tasks :: "content_repair_task list"
  pn_referenced_manifests :: "string list"
  pn_owned_referenced_manifests :: "string list"
  pn_cached_chunk_records :: "cached_chunk_record list"

definition filter_locally_owned_manifests :: "store \<Rightarrow> string list \<Rightarrow> string list" where
  "filter_locally_owned_manifests st hs = filter (\<lambda>h. h \<in> set hs) (hm_keys (st_owned_manifests st))"

definition cleanup_protection_snapshot_of :: "gc_state \<Rightarrow> string list \<Rightarrow> cleanup_protection_snapshot" where
  "cleanup_protection_snapshot_of s referenced =
     \<lparr>pn_recovery_tasks = gc_repair_tasks s, pn_referenced_manifests = referenced,
      pn_owned_referenced_manifests =
        (if referenced = [] then [] else filter_locally_owned_manifests (gc_store s) referenced),
      pn_cached_chunk_records = sort_asc cc_hash (hm_values (gc_cached_chunks s))\<rparr>"

text \<open>The manifests that are kept whatever their age, and the chunks that repairs pin.\<close>

definition recovery_manifests :: "cleanup_protection_snapshot \<Rightarrow> string list" where
  "recovery_manifests pn = map (rf_manifest_hash \<circ> ct_reference) (pn_recovery_tasks pn)"

definition recovery_chunks :: "cleanup_protection_snapshot \<Rightarrow> string list" where
  "recovery_chunks pn = concat (map (map cr_hash \<circ> ct_chunks) (pn_recovery_tasks pn))"

definition sweep_all_manifests :: "u64 \<Rightarrow> u64 \<Rightarrow> bool \<Rightarrow> cleanup_protection_snapshot \<Rightarrow> gc_state \<Rightarrow> manifest_sweep" where
  "sweep_all_manifests now retention_secs dry_run pn s =
     (let kept = remdups (pn_referenced_manifests pn @ recovery_manifests pn)
      in fold (sweep_manifest now retention_secs dry_run kept) (list_manifest_paths (gc_pool s))
           \<lparr>ms_retained = kept, ms_skipped = 0, ms_deleted = 0, ms_state = s\<rparr>)"

definition sweep_all_chunks ::
  "u64 \<Rightarrow> u64 \<Rightarrow> bool \<Rightarrow> cleanup_protection_snapshot \<Rightarrow> string list \<Rightarrow> gc_state \<Rightarrow> chunk_sweep" where
  "sweep_all_chunks now retention_secs dry_run pn protected_chunks s =
     fold (sweep_chunk now retention_secs dry_run protected_chunks (map cc_hash (pn_cached_chunk_records pn)))
       (collect_chunk_file_paths (gc_pool s))
       \<lparr>ks_skipped = 0, ks_deleted = 0, ks_deleted_cached = 0, ks_deleted_records = 0, ks_state = s\<rparr>"

definition sweep_media :: "bool \<Rightarrow> string list \<Rightarrow> gc_state \<Rightarrow> gc_state" where
  "sweep_media dry_run fingerprints s =
     fold (\<lambda>x s. if x \<in> set fingerprints \<or> dry_run then s else s\<lparr>gc_media := removeAll x (gc_media s)\<rparr>) (gc_media s) s"

text \<open>What follows the inspection of the retained manifests.\<close>

definition cleanup_chunks ::
  "store_env \<Rightarrow> u64 \<Rightarrow> bool \<Rightarrow> cleanup_protection_snapshot \<Rightarrow> manifest_sweep \<Rightarrow> usize \<Rightarrow> string list \<Rightarrow> string list
     \<Rightarrow> gc_report option \<times> gc_state" where
  "cleanup_chunks env retention_secs dry_run pn ms peak owned_chunks fingerprints =
     (let protected_chunks = remdups (recovery_chunks pn @ owned_chunks);
          ks = sweep_all_chunks (en_now env) retention_secs dry_run pn protected_chunks (ms_state ms)
      in case (if dry_run then (Some (ks_deleted_records ks), ks_state ks)
               else sweep_records owned_chunks (pn_cached_chunk_records pn) (ks_deleted_records ks) (ks_state ks)) of
           (None, s) \<Rightarrow> (None, s)
         | (Some records, s) \<Rightarrow>
             (Some \<lparr>cl_retention_secs = retention_secs, cl_dry_run = dry_run,
                cl_protected_manifests = length (pn_referenced_manifests pn), cl_protected_chunks = length protected_chunks,
                cl_tracked_cached_chunks = length (pn_cached_chunk_records pn),
                cl_skipped_recent_manifests = ms_skipped ms, cl_skipped_recent_chunks = ks_skipped ks,
                cl_deleted_manifests = ms_deleted ms, cl_deleted_chunks = ks_deleted ks,
                cl_deleted_cached_chunks = ks_deleted_cached ks, cl_deleted_cached_chunk_records = records,
                cl_retained_manifests_processed = length (ms_retained ms), cl_peak_manifest_batch_size = peak\<rparr>,
              sweep_media dry_run fingerprints s))"

definition cleanup_unreferenced ::
  "store_env \<Rightarrow> usize \<Rightarrow> u64 \<Rightarrow> bool \<Rightarrow> gc_state \<Rightarrow> gc_report option \<times> gc_state" where
  "cleanup_unreferenced env batch_size retention_secs dry_run s =
     (let pn = cleanup_protection_snapshot_of s (collect_referenced_manifest_hashes env (gc_store s));
          ms = sweep_all_manifests (en_now env) retention_secs dry_run pn s;
          batches = chunks (max batch_size 1) (ms_retained ms)
      in case inspect_manifests (en_content env) (pool_content (gc_pool (ms_state ms))) (pn_owned_referenced_manifests pn)
                (concat batches) ([], []) of
           None \<Rightarrow> (None, ms_state ms)
         | Some (owned_chunks, fingerprints) \<Rightarrow>
             cleanup_chunks env retention_secs dry_run pn ms (fold max (map length batches) 0) owned_chunks fingerprints)"

section \<open>The pool as a content store\<close>

lemma map_of_map_filter_key:
  "map_of (List.map_filter (\<lambda>x. if P x then map_option (Pair (k x)) (g (k x)) else None) xs) h =
     (if \<exists>x\<in>set xs. P x \<and> k x = h then g h else None)"
  by (induction xs) (auto simp: map_filter_simps split: option.splits)

lemma map_of_kind_files [simp]: "map_of (kind_files s kind) = content_at s kind"
proof
  fix h
  have "map_of (kind_files s kind) h = (if \<exists>x\<in>set (hm_keys (ps_files s)). fst (snd x) = kind \<and> snd (snd x) = h then content_at s kind h else None)"
    unfolding kind_files_def using map_of_map_filter_key [of "\<lambda>x. fst (snd x) = kind" "\<lambda>x. snd (snd x)" "content_at s kind" "hm_keys (ps_files s)" h]
    by (simp add: case_prod_unfold)
  moreover have "\<exists>x\<in>set (hm_keys (ps_files s)). fst (snd x) = kind \<and> snd (snd x) = h" if "content_at s kind h = Some p" for p
    using that by (force simp: content_at_def split: option.splits dest!: map_of_SomeD)
  ultimately show "map_of (kind_files s kind) h = content_at s kind h" by (cases "content_at s kind h") (auto simp del: set_map)
qed

lemma load_manifest_cong:
  "map_of (cs_manifests a) h = map_of (cs_manifests b) h \<Longrightarrow> load_manifest_by_hash env a h = load_manifest_by_hash env b h"
  by (simp add: load_manifest_by_hash_def)

lemma assemble_cong:
  "(\<And>c. c \<in> set cs \<Longrightarrow> map_of a (cr_hash c) = map_of b (cr_hash c)) \<Longrightarrow> assemble env a cs acc = assemble env b cs acc"
  by (induction cs arbitrary: acc) (auto split: option.splits)

lemma read_object_cong:
  assumes "content_at s Manifest h = content_at t Manifest h"
    and "\<And>m c. load_manifest_by_hash env (pool_content s) h = Inr (Some m) \<Longrightarrow> c \<in> set (om_chunks m) \<Longrightarrow>
      content_at s Chunk (cr_hash c) = content_at t Chunk (cr_hash c)"
  shows "read_object_by_manifest_hash env (pool_content t) h = read_object_by_manifest_hash env (pool_content s) h"
proof -
  have "load_manifest_by_hash env (pool_content t) h = load_manifest_by_hash env (pool_content s) h"
    using assms(1) by (intro load_manifest_cong) (simp add: pool_content_def)
  moreover have "assemble env (cs_chunks (pool_content t)) (om_chunks m) [] = assemble env (cs_chunks (pool_content s)) (om_chunks m) []"
    if "load_manifest_by_hash env (pool_content s) h = Inr (Some m)" for m
    using assms(2) [OF that] by (intro assemble_cong) (simp add: pool_content_def)
  ultimately show ?thesis by (auto simp: read_object_by_manifest_hash_def split: sum.splits option.splits)
qed

section \<open>What a removal leaves alone\<close>

lemma forget_location_frame:
  "forget_location_at_path kind h i pool = (b, pool') \<Longrightarrow> (kind', h') \<noteq> (kind, h) \<Longrightarrow>
     pool_paths pool' = pool_paths pool \<and> location_of pool' kind' h' = location_of pool kind' h'"
  by (auto simp: forget_location_at_path_def split: option.splits if_splits)

lemma remove_content_frame:
  assumes "remove_content_file kind i h s = (b, s')" "(kind', h') \<noteq> (kind, h)"
  shows "same_at kind' h' s s'"
proof -
  obtain pool where p: "forget_location_at_path kind h i (ps_pool s) = (b, pool)"
    and s': "s' = s\<lparr>ps_files := hm_remove (i, kind, h) (ps_files s), ps_pool := pool,
       ps_db := if b then hm_remove (kind, h) (ps_db s) else ps_db s\<rparr>"
    using assms(1) by (auto simp: remove_content_file_def split: prod.splits)
  from forget_location_frame [OF p assms(2)] assms(2) show ?thesis by (auto simp: s' same_at_def delete_conv)
qed

lemma remove_content_files:
  "remove_content_file kind i h s = (b, s') \<Longrightarrow> map_of (ps_files s') = (map_of (ps_files s))((i, kind, h) := None)"
  by (auto simp: remove_content_file_def delete_conv split: prod.splits)

lemma remove_content_paths:
  "remove_content_file kind i h s = (b, s') \<Longrightarrow> pool_paths (ps_pool s') = pool_paths (ps_pool s)"
  by (auto simp: remove_content_file_def forget_location_at_path_def split: prod.splits option.splits if_splits)

lemma delete_manifest_pool: "gc_pool (delete_manifest_file i h s) = snd (remove_content_file Manifest i h (gc_pool s))"
  by (simp add: delete_manifest_file_def Let_def split: prod.splits)

lemma note_delta_pool [simp]:
  "gc_pool (note_chunk_store_delta d s) = gc_pool s" "gc_store (note_chunk_store_delta d s) = gc_store s"
  by (simp_all add: note_chunk_store_delta_def reconcile_chunk_store_bytes_state_def split: option.splits)

lemma delete_chunk_pool:
  "gc_pool (ks_state (delete_chunk_file cached i name is_hash n acc)) =
     (if is_hash then snd (remove_content_file Chunk i name (gc_pool (ks_state acc)))
      else (gc_pool (ks_state acc))\<lparr>ps_files := hm_remove (i, Chunk, name) (ps_files (gc_pool (ks_state acc)))\<rparr>)"
  "gc_store (ks_state (delete_chunk_file cached i name is_hash n acc)) = gc_store (ks_state acc)"
  by (simp_all add: delete_chunk_file_def Let_def split: prod.splits)

section \<open>The sweeps\<close>

text \<open>A sweep by files: each step removes the file it hits if it is old.\<close>

lemma sweep_fold:
  assumes "\<And>x a. x \<in> set xs \<Longrightarrow>
    stored (f x a) = (if hit x \<and> (case stored a of None \<Rightarrow> False | Some y \<Rightarrow> old y) then None else stored a)"
  shows "stored (fold f xs a) = (if (\<exists>x\<in>set xs. hit x) \<and> (case stored a of None \<Rightarrow> False | Some y \<Rightarrow> old y) then None else stored a)"
  using assms by (induction xs arbitrary: a) (auto split: option.splits)

abbreviation files_of :: "gc_state \<Rightarrow> file_key \<Rightarrow> stored_file option" where
  "files_of s \<equiv> map_of (ps_files (gc_pool s))"

text \<open>The tables that reads use.\<close>

definition kept_tables :: "gc_state \<Rightarrow> gc_state \<Rightarrow> bool" where
  "kept_tables s t \<longleftrightarrow> (gc_store t)\<lparr>st_owned_manifests := []\<rparr> = (gc_store s)\<lparr>st_owned_manifests := []\<rparr> \<and>
     pool_paths (ps_pool (gc_pool t)) = pool_paths (ps_pool (gc_pool s))"

lemma kept_tables_refl [simp]: "kept_tables s s"
  by (simp add: kept_tables_def)

lemma kept_tables_trans: "kept_tables s t \<Longrightarrow> kept_tables t u \<Longrightarrow> kept_tables s u"
  by (simp add: kept_tables_def)

lemma kept_tables_manifest: "kept_tables s (delete_manifest_file i h s)"
proof -
  obtain b p where p: "remove_content_file Manifest i h (gc_pool s) = (b, p)" by fastforce
  show ?thesis using remove_content_paths [OF p] by (simp add: kept_tables_def delete_manifest_file_def p Let_def)
qed

lemma kept_tables_chunk: "kept_tables (ks_state acc) (ks_state (delete_chunk_file cached i name b n acc))"
proof -
  obtain c p where p: "remove_content_file Chunk i name (gc_pool (ks_state acc)) = (c, p)" by fastforce
  show ?thesis using remove_content_paths [OF p] by (simp add: kept_tables_def delete_chunk_pool p)
qed

lemma sweep_manifests_tables:
  "kept_tables (ms_state a) (ms_state (fold (sweep_manifest now ret dry kept) xs a))"
  by (rule fold_invariant [where Q = "\<lambda>_. True" and P = "\<lambda>b. kept_tables (ms_state a) (ms_state b)"])
    (auto simp: sweep_manifest_def intro: kept_tables_trans [OF _ kept_tables_manifest] split: option.splits)

lemma sweep_chunks_tables:
  "kept_tables (ks_state a) (ks_state (fold (sweep_chunk now ret dry prot cached) xs a))"
  by (rule fold_invariant [where Q = "\<lambda>_. True" and P = "\<lambda>b. kept_tables (ks_state a) (ks_state b)"])
    (auto simp: sweep_chunk_def intro: kept_tables_trans [OF _ kept_tables_chunk] split: option.splits)

lemma sweep_manifests_frame:
  assumes "kind = Chunk \<or> h \<in> set kept"
  shows "same_at kind h (gc_pool (ms_state a)) (gc_pool (ms_state (fold (sweep_manifest now ret dry kept) xs a)))"
proof (rule fold_invariant [where Q = "\<lambda>_. True" and P = "\<lambda>b. same_at kind h (gc_pool (ms_state a)) (gc_pool (ms_state b))"])
  fix x and b :: manifest_sweep
  assume b: "same_at kind h (gc_pool (ms_state a)) (gc_pool (ms_state b))"
  have step: "same_at kind h (gc_pool t) (gc_pool (delete_manifest_file i h' t))" if "h' \<notin> set kept" for i h' t
  proof -
    from that assms have "(kind, h) \<noteq> (Manifest, h')" by auto
    from remove_content_frame [OF prod.collapse [symmetric] this] show ?thesis by (simp add: delete_manifest_pool)
  qed
  show "same_at kind h (gc_pool (ms_state a)) (gc_pool (ms_state (sweep_manifest now ret dry kept x b)))"
    using b by (auto simp: sweep_manifest_def intro: same_at_trans [OF b step] split: prod.splits option.splits)
qed auto

definition entry_ok :: "string \<times> string \<times> string option \<Rightarrow> bool" where
  "entry_ok x \<longleftrightarrow> snd (snd x) = (if manifest_hash_looks_safe_filename (fst (snd x)) then Some (fst (snd x)) else None)"

lemma chunk_entries_ok: "x \<in> set (collect_chunk_file_paths s) \<Longrightarrow> entry_ok x"
  by (auto simp: collect_chunk_file_paths_def entry_ok_def map_filter_def split: if_splits)

lemma sweep_chunk_frame:
  assumes "kind = Manifest \<or> h \<in> set prot" "content_name_ok kind h" "entry_ok x"
  shows "same_at kind h (gc_pool (ks_state b)) (gc_pool (ks_state (sweep_chunk now ret dry prot cached x b)))"
proof -
  obtain i name ho where x: "x = (i, name, ho)" by (cases x) auto
  show ?thesis
  proof (cases "(kind, h) = (Chunk, name)")
    case True
    with assms have "ho = Some h" "h \<in> set prot"
      by (auto simp: x entry_ok_def content_name_ok_def chunk_hash_ok_def manifest_hash_looks_safe_filename_def)
    then show ?thesis by (simp add: x sweep_chunk_def)
  next
    case False
    have "same_at kind h p (p\<lparr>ps_files := hm_remove (i, Chunk, name) (ps_files p)\<rparr>)" for p
      using False by (auto simp: same_at_def delete_conv)
    moreover have "same_at kind h p (snd (remove_content_file Chunk i name p))" for p
      using remove_content_frame [OF prod.collapse [symmetric] False] by simp
    ultimately show ?thesis by (auto simp: x sweep_chunk_def delete_chunk_pool split: option.splits)
  qed
qed

lemma sweep_chunks_frame:
  assumes "kind = Manifest \<or> h \<in> set prot" "content_name_ok kind h" "\<forall>x\<in>set xs. entry_ok x"
  shows "same_at kind h (gc_pool (ks_state a)) (gc_pool (ks_state (fold (sweep_chunk now ret dry prot cached) xs a)))"
  by (rule fold_invariant [where Q = entry_ok and P = "\<lambda>b. same_at kind h (gc_pool (ks_state a)) (gc_pool (ks_state b))"])
    (use assms in \<open>auto intro: same_at_trans sweep_chunk_frame\<close>)

lemma sweep_manifests_files:
  "files_of (ms_state (fold (sweep_manifest now ret False kept) xs a)) (i, Manifest, h) =
     (if (i, h) \<in> set xs \<and> h \<notin> set kept \<and>
         (case files_of (ms_state a) (i, Manifest, h) of None \<Rightarrow> False | Some f \<Rightarrow> ret \<le> now - sf_modified f)
      then None else files_of (ms_state a) (i, Manifest, h))"
proof -
  have "files_of (ms_state (sweep_manifest now ret False kept x b)) (i, Manifest, h) =
     (if (x = (i, h) \<and> h \<notin> set kept) \<and>
         (case files_of (ms_state b) (i, Manifest, h) of None \<Rightarrow> False | Some f \<Rightarrow> ret \<le> now - sf_modified f)
      then None else files_of (ms_state b) (i, Manifest, h))" for x b
    using remove_content_files [OF prod.collapse [symmetric]]
    by (cases x) (auto simp: sweep_manifest_def delete_manifest_pool split: option.splits)
  from sweep_fold [where f = "sweep_manifest now ret False kept" and stored = "\<lambda>b. files_of (ms_state b) (i, Manifest, h)"
      and hit = "\<lambda>x. x = (i, h) \<and> h \<notin> set kept" and xs = xs and a = a, OF this]
  show ?thesis by auto
qed

lemma sweep_chunks_files:
  assumes "manifest_hash_looks_safe_filename h" "\<forall>x\<in>set xs. entry_ok x"
  shows "files_of (ks_state (fold (sweep_chunk now ret False prot cached) xs a)) (i, Chunk, h) =
     (if (i, h, Some h) \<in> set xs \<and> h \<notin> set prot \<and>
         (case files_of (ks_state a) (i, Chunk, h) of None \<Rightarrow> False | Some f \<Rightarrow> ret \<le> now - sf_modified f)
      then None else files_of (ks_state a) (i, Chunk, h))"
proof -
  have "files_of (ks_state (sweep_chunk now ret False prot cached x b)) (i, Chunk, h) =
     (if (x = (i, h, Some h) \<and> h \<notin> set prot) \<and>
         (case files_of (ks_state b) (i, Chunk, h) of None \<Rightarrow> False | Some f \<Rightarrow> ret \<le> now - sf_modified f)
      then None else files_of (ks_state b) (i, Chunk, h))" if "x \<in> set xs" for x b
    using remove_content_files [OF prod.collapse [symmetric]] assms that
    by (cases x) (auto simp: sweep_chunk_def delete_chunk_pool entry_ok_def delete_conv split: option.splits)
  from sweep_fold [where f = "sweep_chunk now ret False prot cached" and stored = "\<lambda>b. files_of (ks_state b) (i, Chunk, h)"
      and hit = "\<lambda>x. x = (i, h, Some h) \<and> h \<notin> set prot" and xs = xs and a = a, OF this]
  show ?thesis by auto
qed

lemma sweep_dry:
  "ms_state (fold (sweep_manifest now ret True kept) xs a) = ms_state a"
  "ks_state (fold (sweep_chunk now ret True prot cached) ys b) = ks_state b"
  by (rule fold_invariant [where Q = "\<lambda>_. True" and P = "\<lambda>c. ms_state c = ms_state a"]; auto simp: sweep_manifest_def split: option.splits)
    (rule fold_invariant [where Q = "\<lambda>_. True" and P = "\<lambda>c. ks_state c = ks_state b"]; auto simp: sweep_chunk_def split: option.splits)

lemma sweep_retained: "set (ms_retained a) \<subseteq> set (ms_retained (fold (sweep_manifest now ret dry kept) xs a))"
  by (rule fold_invariant [where Q = "\<lambda>_. True" and P = "\<lambda>c. set (ms_retained a) \<subseteq> set (ms_retained c)"])
    (auto simp: sweep_manifest_def split: option.splits)

lemma sweep_records_keeps:
  "sweep_records owned rs n s = (r, s') \<Longrightarrow> gc_pool s' = gc_pool s \<and> gc_store s' = gc_store s"
  by (induction owned rs n s rule: sweep_records.induct) (auto simp: Let_def split: if_splits option.splits)

lemma sweep_media_keeps:
  "gc_pool (sweep_media dry fps s) = gc_pool s" "gc_store (sweep_media dry fps s) = gc_store s" "sweep_media True fps s = s"
proof -
  have "gc_pool (sweep_media dry fps s) = gc_pool s \<and> gc_store (sweep_media dry fps s) = gc_store s"
    unfolding sweep_media_def
    by (rule fold_invariant [where Q = "\<lambda>_. True" and P = "\<lambda>t. gc_pool t = gc_pool s \<and> gc_store t = gc_store s"]) auto
  then show "gc_pool (sweep_media dry fps s) = gc_pool s" "gc_store (sweep_media dry fps s) = gc_store s" by auto
  show "sweep_media True fps s = s"
    unfolding sweep_media_def by (rule fold_invariant [where Q = "\<lambda>_. True" and P = "\<lambda>t. t = s"]) auto
qed

lemma inspect_chunks:
  "inspect_manifests env cs owned hs acc = Some (oc, fps) \<Longrightarrow>
     set oc = set (fst acc) \<union> {cr_hash c |h m c. h \<in> set hs \<and> h \<in> set owned \<and>
       load_manifest_by_hash env cs h = Inr (Some m) \<and> c \<in> set (om_chunks m)}"
proof (induction env cs owned hs acc rule: inspect_manifests.induct)
  case (2 env cs owned h hs a b)
  have ins: "set (fold List.insert xs ys) = set xs \<union> set ys" for xs ys :: "string list"
    by (induction xs arbitrary: ys) auto
  show ?case
  proof (cases "load_manifest_by_hash env cs h")
    case (Inl e)
    with "2.prems" show ?thesis by simp
  next
    case (Inr r)
    show ?thesis
    proof (cases r)
      case None
      with "2.IH"(1) [OF Inr None] "2.prems" Inr show ?thesis by auto
    next
      case (Some m)
      with "2.IH"(2) [OF Inr Some] "2.prems" Inr show ?thesis by (auto simp: ins)
    qed
  qed
qed auto

section \<open>What reads resolve to\<close>

lemma head_record_in: "r \<in> set (head_records idx) \<Longrightarrow> r \<in> set (hm_values (vi_versions idx))"
  by (force simp: head_records_def map_filter_def dest: map_of_SomeD)

lemma read_mode_record:
  assumes "version_record_for_read_mode idx mode = Some r"
  shows "r \<in> set (hm_values (vi_versions idx))"
proof (cases mode)
  case Preferred
  with assms obtain v where "version_of idx v = Some r" by (auto split: if_splits option.splits)
  then show ?thesis by (force dest: map_of_SomeD)
next
  case ConfirmedOnly
  with assms have "r \<in> set (filter (\<lambda>r. vr_state r = Confirmed) (head_records idx))"
    by (metis first_opt_in_set set_sort_key_by(2) version_record_for_read_mode.simps(2))
  then show ?thesis by (intro head_record_in) simp
next
  case ProvisionalAllowed
  with assms have "r \<in> set (head_records idx)"
    by (metis first_opt_in_set set_sort_key_by(2) version_record_for_read_mode.simps(3))
  then show ?thesis by (rule head_record_in)
qed

lemma resolved_live:
  assumes "resolve_manifest_hash_for_key env st key snapshot_id version_id mode = Inr h"
  shows "h \<in> live_manifests env st"
proof (cases version_id)
  case (Some v)
  with assms obtain oid idx r where "load_version_index_by_object_id env st oid = Some idx" "version_of idx v = Some r" "h = vr_manifest_hash r"
    by (auto simp: resolve_manifest_hash_for_key_def Let_def bind_eq_Some_conv split: option.splits if_splits)
  moreover from this have "r \<in> set (hm_values (vi_versions idx))" by (force dest: map_of_SomeD)
  ultimately show ?thesis unfolding live_manifests_def by blast
next
  case None
  show ?thesis
  proof (cases snapshot_id)
    case (Some sid)
    with None assms obtain sn where "map_of (st_snapshots st) sid = Some sn" "map_of (sm_objects sn) key = Some h"
      by (auto simp: resolve_manifest_hash_for_key_def load_snapshot_manifest_def normalize_snapshot_manifest_object_ids_def
          Let_def bind_eq_Some_conv split: option.splits if_splits)
    then show ?thesis unfolding live_manifests_def by (blast dest: map_of_SomeD)
  next
    case none: None
    show ?thesis
    proof (cases "Option.bind (object_id_for_key st key) (load_version_index_by_object_id env st)")
      case None
      with none \<open>version_id = None\<close> assms obtain e where "map_of (st_current st) key = Some e" "h = coe_manifest_hash e"
        by (auto simp: resolve_manifest_hash_for_key_def current_entry_def Let_def split: option.splits if_splits)
      then show ?thesis unfolding live_manifests_def by (blast dest: map_of_SomeD)
    next
      case (Some idx)
      with none \<open>version_id = None\<close> assms obtain r where r: "version_record_for_read_mode idx mode = Some r" "h = vr_manifest_hash r"
        by (auto simp: resolve_manifest_hash_for_key_def manifest_hash_for_read_mode_def Let_def split: option.splits if_splits)
      from Some obtain oid where "load_version_index_by_object_id env st oid = Some idx" by (auto simp: bind_eq_Some_conv)
      with read_mode_record [OF r(1)] r(2) show ?thesis unfolding live_manifests_def by blast
    qed
  qed
qed

text \<open>Resolving looks at the files only through the manifests that are live.\<close>

lemma map_filter_cong': "(\<And>x. x \<in> set xs \<Longrightarrow> f x = g x) \<Longrightarrow> List.map_filter f xs = List.map_filter g xs"
proof (induction xs)
  case (Cons x xs)
  have "f x = g x" by (rule Cons.prems) simp
  moreover have "List.map_filter f xs = List.map_filter g xs" by (rule Cons.IH, rule Cons.prems) simp
  ultimately show ?case unfolding map_filter_simps by (simp only:)
qed (simp add: map_filter_simps)

definition other_content :: "content_store \<Rightarrow> (string, u64) hashmap \<Rightarrow> store \<Rightarrow> store" where
  "other_content c w st = st\<lparr>st_content := c, st_owned_manifests := w\<rparr>"

lemma other_content_index [simp]:
  "load_version_index_by_object_id env (other_content c w st) = load_version_index_by_object_id env st"
  by (auto simp: other_content_def load_version_index_by_object_id_def fun_eq_iff)

lemma other_content_simps [simp]:
  "load_all_version_indexes env (other_content c w st) = load_all_version_indexes env st"
  "object_id_for_key (other_content c w st) = object_id_for_key st"
  "current_entry (other_content c w st) = current_entry st"
  "load_snapshot_manifest (other_content c w st) = load_snapshot_manifest st"
  "st_content (other_content c w st) = c"
  unfolding load_all_version_indexes_def other_content_index
  by (auto simp: other_content_def object_id_for_key_def current_entry_def load_snapshot_manifest_def fun_eq_iff)

lemma resolve_other_content:
  assumes "\<And>h. h \<in> live_manifests env st \<Longrightarrow> load_manifest_by_hash (en_content env) c h = load_manifest_by_hash (en_content env) (st_content st) h"
  shows "resolve_manifest_hash_for_key env (other_content c w st) key snapshot_id version_id mode =
    resolve_manifest_hash_for_key env st key snapshot_id version_id mode"
proof -
  have live: "vr_manifest_hash r \<in> live_manifests env st" if i: "idx \<in> set (load_all_version_indexes env st)" and r: "r \<in> set (hm_values (vi_versions idx))" for idx r
  proof -
    obtain oid where "load_version_index_by_object_id env st oid = Some idx"
      using i by (auto simp: load_all_version_indexes_def map_filter_def)
    with r show ?thesis unfolding live_manifests_def by blast
  qed
  have key_of: "resolve_key_for_version_index env (other_content c w st) idx = resolve_key_for_version_index env st idx"
    if "idx \<in> set (load_all_version_indexes env st)" for idx
    unfolding resolve_key_for_version_index_def other_content_simps
    by (rule arg_cong2 [where f = or_else, OF refl], rule arg_cong2 [where f = or_else, OF refl], rule arg_cong [where f = first_opt],
        rule map_filter_cong') (use live [OF that] assms in \<open>simp del: set_map\<close>)
  have "resolve_key_for_version_record env (other_content c w st) idx r = resolve_key_for_version_record env st idx r"
    if "idx \<in> set (load_all_version_indexes env st)" "version_of idx v = Some r" for idx r v
  proof -
    from that(2) have "r \<in> set (hm_values (vi_versions idx))" by (force dest: map_of_SomeD)
    from assms [OF live [OF that(1) this]] show ?thesis
      by (simp only: resolve_key_for_version_record_def key_of [OF that(1)] other_content_simps)
  qed
  then have "resolve_object_id_for_key_version env (other_content c w st) key v = resolve_object_id_for_key_version env st key v" for v
    unfolding resolve_object_id_for_key_version_def other_content_simps
    by (intro option.case_cong refl arg_cong [where f = "map_option vi_object_id"] find_cong) (auto split: option.splits)
  then show ?thesis by (simp add: resolve_manifest_hash_for_key_def Let_def cong: option.case_cong)
qed

definition store_of :: "gc_state \<Rightarrow> store" where
  "store_of s = (gc_store s)\<lparr>st_content := pool_content (gc_pool s)\<rparr>"

lemma store_of_kept_tables:
  "kept_tables s t \<Longrightarrow> store_of t = other_content (pool_content (gc_pool t)) (st_owned_manifests (gc_store t)) (store_of s)"
  by (cases "gc_store s"; cases "gc_store t") (simp add: kept_tables_def store_of_def other_content_def)

section \<open>The collector\<close>

definition protection :: "store_env \<Rightarrow> gc_state \<Rightarrow> cleanup_protection_snapshot" where
  "protection env s = cleanup_protection_snapshot_of s (collect_referenced_manifest_hashes env (gc_store s))"

lemma cleanup_chunks_result:
  assumes "cleanup_chunks env ret dry pn ms peak oc fps = (r, s')"
  defines "ks \<equiv> sweep_all_chunks (en_now env) ret dry pn (remdups (recovery_chunks pn @ oc)) (ms_state ms)"
  shows "gc_pool s' = gc_pool (ks_state ks) \<and> gc_store s' = gc_store (ks_state ks) \<and> (dry \<longrightarrow> s' = ks_state ks)"
proof -
  obtain q s3 where q: "(if dry then (Some (ks_deleted_records ks), ks_state ks)
      else sweep_records oc (pn_cached_chunk_records pn) (ks_deleted_records ks) (ks_state ks)) = (q, s3)" by fastforce
  then have "gc_pool s3 = gc_pool (ks_state ks) \<and> gc_store s3 = gc_store (ks_state ks) \<and> (dry \<longrightarrow> s3 = ks_state ks \<and> q \<noteq> None)"
    by (auto split: if_splits dest: sweep_records_keeps)
  moreover have "s' = (if q = None then s3 else sweep_media dry fps s3)"
    using assms(1) unfolding cleanup_chunks_def Let_def ks_def [symmetric] q by (cases q) simp_all
  ultimately show ?thesis by (auto simp: sweep_media_keeps)
qed

lemma cleanup_cases:
  assumes "cleanup_unreferenced env bs ret dry s = (r, s')"
  defines "ms \<equiv> sweep_all_manifests (en_now env) ret dry (protection env s) s"
  obtains (aborted) "r = None" "s' = ms_state ms"
  | (swept) oc fps peak where
      "inspect_manifests (en_content env) (pool_content (gc_pool (ms_state ms))) (pn_owned_referenced_manifests (protection env s))
         (ms_retained ms) ([], []) = Some (oc, fps)"
      "cleanup_chunks env ret dry (protection env s) ms peak oc fps = (r, s')"
proof (cases "inspect_manifests (en_content env) (pool_content (gc_pool (ms_state ms)))
    (pn_owned_referenced_manifests (protection env s)) (ms_retained ms) ([], [])")
  case None
  with assms show ?thesis
    by (intro aborted) (auto simp: cleanup_unreferenced_def Let_def concat_chunks protection_def ms_def)
next
  case (Some p)
  with assms(1) obtain peak where "cleanup_chunks env ret dry (protection env s) ms peak (fst p) (snd p) = (r, s')"
    by (auto simp: cleanup_unreferenced_def Let_def concat_chunks protection_def [symmetric] ms_def split: prod.splits)
  with Some show ?thesis by (intro swept [of "fst p" "snd p"]) simp_all
qed

lemma kept_set:
  "set (remdups (pn_referenced_manifests (protection env s) @ recovery_manifests (protection env s))) =
     set (collect_referenced_manifest_hashes env (gc_store s)) \<union> rf_manifest_hash ` ct_reference ` set (gc_repair_tasks s)"
  by (auto simp: protection_def cleanup_protection_snapshot_of_def recovery_manifests_def)

lemma owned_set:
  "set (pn_owned_referenced_manifests (protection env s)) =
     set (collect_referenced_manifest_hashes env (gc_store s)) \<inter> fst ` set (st_owned_manifests (gc_store s))"
  by (auto simp: protection_def cleanup_protection_snapshot_of_def filter_locally_owned_manifests_def)

text \<open>The chunks of owned manifests that something refers to, and the chunks of repairs.\<close>

definition chunk_protected :: "store_env \<Rightarrow> gc_state \<Rightarrow> string \<Rightarrow> bool" where
  "chunk_protected env s x \<longleftrightarrow>
     (\<exists>t\<in>set (gc_repair_tasks s). x \<in> cr_hash ` set (ct_chunks t)) \<or>
     (\<exists>h m. h \<in> set (collect_referenced_manifest_hashes env (gc_store s)) \<and> h \<in> fst ` set (st_owned_manifests (gc_store s)) \<and>
        load_manifest_by_hash (en_content env) (pool_content (gc_pool s)) h = Inr (Some m) \<and> x \<in> cr_hash ` set (om_chunks m))"

definition manifest_protected :: "store_env \<Rightarrow> gc_state \<Rightarrow> string \<Rightarrow> bool" where
  "manifest_protected env s h \<longleftrightarrow> h \<in> set (collect_referenced_manifest_hashes env (gc_store s)) \<or>
     (\<exists>t\<in>set (gc_repair_tasks s). rf_manifest_hash (ct_reference t) = h)"

lemma manifests_swept_frame:
  assumes "kind = Chunk \<or> manifest_protected env s h"
  shows "same_at kind h (gc_pool s) (gc_pool (ms_state (sweep_all_manifests now ret dry (protection env s) s)))"
proof -
  have "kind = Chunk \<or> h \<in> set (remdups (pn_referenced_manifests (protection env s) @ recovery_manifests (protection env s)))"
    using assms unfolding kept_set manifest_protected_def by auto
  from sweep_manifests_frame [OF this] show ?thesis unfolding sweep_all_manifests_def Let_def by (metis manifest_sweep.select_convs(4))
qed

lemma protected_chunks_set:
  fixes env :: store_env and s :: gc_state and ret :: u64 and dry :: bool
  defines "ms \<equiv> sweep_all_manifests (en_now env) ret dry (protection env s) s"
  assumes "inspect_manifests (en_content env) (pool_content (gc_pool (ms_state ms))) (pn_owned_referenced_manifests (protection env s))
      (ms_retained ms) ([], []) = Some (oc, fps)"
  shows "x \<in> set (remdups (recovery_chunks (protection env s) @ oc)) \<longleftrightarrow> chunk_protected env s x"
proof -
  let ?refs = "set (collect_referenced_manifest_hashes env (gc_store s))"
  have load: "load_manifest_by_hash (en_content env) (pool_content (gc_pool (ms_state ms))) h =
      load_manifest_by_hash (en_content env) (pool_content (gc_pool s)) h" if "h \<in> ?refs" for h
    using content_at_same [OF manifests_swept_frame [of Manifest env s h "en_now env" ret dry]] that
    by (intro load_manifest_cong) (simp add: pool_content_def ms_def manifest_protected_def)
  have "?refs \<subseteq> set (ms_retained ms)"
    using sweep_retained [of "\<lparr>ms_retained = remdups (pn_referenced_manifests (protection env s) @ recovery_manifests (protection env s)),
        ms_skipped = 0, ms_deleted = 0, ms_state = s\<rparr>"] kept_set [of env s]
    unfolding ms_def sweep_all_manifests_def Let_def manifest_sweep.select_convs by blast
  with load have eq: "(h \<in> set (ms_retained ms) \<and> h \<in> set (pn_owned_referenced_manifests (protection env s)) \<and>
      load_manifest_by_hash (en_content env) (pool_content (gc_pool (ms_state ms))) h = Inr (Some m)) \<longleftrightarrow>
    (h \<in> ?refs \<and> h \<in> fst ` set (st_owned_manifests (gc_store s)) \<and>
      load_manifest_by_hash (en_content env) (pool_content (gc_pool s)) h = Inr (Some m))" for h m
    unfolding owned_set by auto
  have "x \<in> set oc \<longleftrightarrow> (\<exists>h m. (h \<in> set (ms_retained ms) \<and> h \<in> set (pn_owned_referenced_manifests (protection env s)) \<and>
      load_manifest_by_hash (en_content env) (pool_content (gc_pool (ms_state ms))) h = Inr (Some m)) \<and> x \<in> cr_hash ` set (om_chunks m))"
    unfolding inspect_chunks [OF assms(2)] by auto
  then have "x \<in> set oc \<longleftrightarrow> (\<exists>h m. h \<in> ?refs \<and> h \<in> fst ` set (st_owned_manifests (gc_store s)) \<and>
        load_manifest_by_hash (en_content env) (pool_content (gc_pool s)) h = Inr (Some m) \<and> x \<in> cr_hash ` set (om_chunks m))"
    unfolding eq by blast
  moreover have "x \<in> set (recovery_chunks (protection env s)) \<longleftrightarrow> (\<exists>t\<in>set (gc_repair_tasks s). x \<in> cr_hash ` set (ct_chunks t))"
    by (simp add: recovery_chunks_def protection_def cleanup_protection_snapshot_of_def)
  ultimately show ?thesis by (simp add: chunk_protected_def)
qed

lemma content_at_bad_name: "\<not> content_name_ok kind h \<Longrightarrow> content_at s kind h = None"
  by (auto simp: content_at_def dest: content_path_name_ok split: option.splits)

lemma chunks_swept_frame:
  assumes "kind = Manifest \<or> h \<in> set prot" "content_name_ok kind h"
  shows "same_at kind h (gc_pool s) (gc_pool (ks_state (sweep_all_chunks now ret dry pn prot s)))"
  using sweep_chunks_frame [OF assms, of "collect_chunk_file_paths (gc_pool s)"] chunk_entries_ok
  unfolding sweep_all_chunks_def by (metis chunk_sweep.select_convs(5))

lemma cleanup_keeps:
  assumes "cleanup_unreferenced env bs ret dry s = (r, s')"
  shows "manifest_protected env s h \<Longrightarrow> content_at (gc_pool s') Manifest h = content_at (gc_pool s) Manifest h"
    and "chunk_protected env s h \<Longrightarrow> content_at (gc_pool s') Chunk h = content_at (gc_pool s) Chunk h"
    and "kept_tables s s'"
proof -
  let ?ms = "sweep_all_manifests (en_now env) ret dry (protection env s) s"
  let ?ks = "\<lambda>oc. sweep_all_chunks (en_now env) ret dry (protection env s) (remdups (recovery_chunks (protection env s) @ oc)) (ms_state ?ms)"
  have tables: "kept_tables s (ms_state ?ms)"
    using sweep_manifests_tables unfolding sweep_all_manifests_def Let_def by (metis manifest_sweep.select_convs(4))
  have tables': "kept_tables (ms_state ?ms) (ks_state (?ks oc))" for oc
    using sweep_chunks_tables unfolding sweep_all_chunks_def by (metis chunk_sweep.select_convs(5))
  note frame = content_at_same [OF manifests_swept_frame, of _ env s _ "en_now env" ret dry, symmetric]
  show "kept_tables s s'"
    using assms
  proof (cases rule: cleanup_cases)
    case (swept oc fps peak)
    from cleanup_chunks_result [OF swept(2)] kept_tables_trans [OF tables tables', of oc] show ?thesis by (simp add: kept_tables_def)
  qed (use tables in simp)
  show "content_at (gc_pool s') Manifest h = content_at (gc_pool s) Manifest h" if "manifest_protected env s h"
    using assms
  proof (cases rule: cleanup_cases)
    case (swept oc fps peak)
    show ?thesis
    proof (cases "content_name_ok Manifest h")
      case True
      from cleanup_chunks_result [OF swept(2)] content_at_same [OF chunks_swept_frame [OF _ True]] frame [of Manifest h] that
      show ?thesis by simp
    qed (simp add: content_at_bad_name)
  qed (use frame [of Manifest h] that in simp)
  show "content_at (gc_pool s') Chunk h = content_at (gc_pool s) Chunk h" if "chunk_protected env s h"
    using assms
  proof (cases rule: cleanup_cases)
    case (swept oc fps peak)
    show ?thesis
    proof (cases "content_name_ok Chunk h")
      case True
      from protected_chunks_set [OF swept(1)] that have "h \<in> set (remdups (recovery_chunks (protection env s) @ oc))" by blast
      from cleanup_chunks_result [OF swept(2)] content_at_same [OF chunks_swept_frame [OF disjI2 [OF this] True]] frame [of Chunk h]
      show ?thesis by simp
    qed (simp add: content_at_bad_name)
  qed (use frame [of Chunk h] in simp)
qed

lemma live_store_of: "live_manifests env (store_of s) = live_manifests env (gc_store s)"
  by (simp add: live_manifests_def store_of_def load_version_index_by_object_id_def)

lemma in_map_filter: "y \<in> set (List.map_filter f xs) \<longleftrightarrow> (\<exists>x\<in>set xs. f x = Some y)"
  by (induction xs) (auto simp: map_filter_simps split: option.splits)

lemma listed_manifest:
  "manifest_hash_looks_safe_filename h \<Longrightarrow> map_of (ps_files s) (i, Manifest, h) \<noteq> None \<Longrightarrow>
     (i, h) \<in> set (list_manifest_paths s) \<longleftrightarrow> i \<in> set (available_ids (ps_pool s))"
  using listed_all [of s i Manifest h] by (auto simp: list_manifest_paths_def)

lemma listed_chunk:
  "manifest_hash_looks_safe_filename h \<Longrightarrow> map_of (ps_files s) (i, Chunk, h) \<noteq> None \<Longrightarrow>
     (i, h, Some h) \<in> set (collect_chunk_file_paths s) \<longleftrightarrow> i \<in> set (available_ids (ps_pool s))"
  using listed_all [of s i Chunk h] by (auto simp: collect_chunk_file_paths_def in_map_filter split: if_splits)

section \<open>Properties\<close>

definition sample_gc_env :: store_env where
  "sample_gc_env = \<lparr>en_content = sample_env, en_now = 100, en_nanos = [], en_object_id = [], en_snapshot_uuid = [], en_payload_hash = (\<lambda>_. [])\<rparr>"

definition sample_live :: object_manifest where
  "sample_live = \<lparr>om_key = ''k'', om_total_size_bytes = 2, om_chunks = [\<lparr>cr_hash = sample_hash ''yo'', cr_size_bytes = 2\<rparr>]\<rparr>"

definition sample_gc :: gc_state where
  "sample_gc =
     \<lparr>gc_store = \<lparr>st_content = \<lparr>cs_chunks = [], cs_manifests = []\<rparr>,
        st_current = [(''k'', \<lparr>coe_manifest_hash = sample_hash ''m'', coe_object_id = ''o''\<rparr>)], st_indexes = [], st_heads = [],
        st_snapshots = [], st_batch = None, st_owned_manifests = [(sample_hash ''m'', 1)], st_version_metadata = []\<rparr>,
      gc_pool = \<lparr>ps_pool = \<lparr>pool_paths = [sample_path ''p'' Active], pool_chunk_locations = [], pool_manifest_locations = []\<rparr>,
        ps_files = [((''p'', Manifest, sample_hash ''m''), \<lparr>sf_payload = ce_to_json sample_env sample_live, sf_modified = 1\<rparr>),
                    ((''p'', Chunk, sample_hash ''yo''), \<lparr>sf_payload = ''yo'', sf_modified = 1\<rparr>),
                    ((''p'', Chunk, sample_hash ''hello''), \<lparr>sf_payload = ''hello'', sf_modified = 1\<rparr>)], ps_db = []\<rparr>,
      gc_chunk_store_bytes = Some 7, gc_repair_tasks = [], gc_cached_chunks = [], gc_media = []\<rparr>"

lemma sample_refs: "collect_referenced_manifest_hashes sample_gc_env (gc_store sample_gc) = [sample_hash ''m'']"
  by (simp add: collect_referenced_manifest_hashes_def retained_load_def retain_current_def retained_insert_def replication_subject_def
      sample_gc_def Let_def sort_desc_def)

lemma sample_safe: "manifest_hash_looks_safe_filename (sample_hash b)" "sample_hash b \<noteq> TOMBSTONE_MANIFEST_HASH"
proof -
  show safe: "manifest_hash_looks_safe_filename (sample_hash b)" using sample_hash_name_ok [of Manifest b] by (simp add: content_name_ok_def)
  show "sample_hash b \<noteq> TOMBSTONE_MANIFEST_HASH"
    using safe by (auto simp: manifest_hash_looks_safe_filename_def TOMBSTONE_MANIFEST_HASH_def)
qed

lemma sample_load:
  "load_manifest_by_hash sample_env (pool_content (gc_pool sample_gc)) (sample_hash ''m'') = Inr (Some sample_live)"
proof -
  have "content_at (gc_pool sample_gc) Manifest (sample_hash ''m'') = Some (ce_to_json sample_env sample_live)"
    by (simp add: content_at_def content_path_def legacy_read_path_def sample_gc_def sample_path_def)
  then show ?thesis using sample_env_ok by (simp add: load_manifest_by_hash_def sample_safe pool_content_def env_ok_def)
qed

lemma sample_swept:
  "sweep_all_manifests 100 10 False (protection sample_gc_env sample_gc) sample_gc =
     \<lparr>ms_retained = [sample_hash ''m''], ms_skipped = 0, ms_deleted = 0, ms_state = sample_gc\<rparr>"
proof -
  have "list_manifest_paths (gc_pool sample_gc) = [(''p'', sample_hash ''m'')]"
    by (simp add: list_manifest_paths_def available_ids_def collect_storage_content_files_def sample_gc_def sample_path_def sample_safe)
  then show ?thesis
    by (simp add: sweep_all_manifests_def protection_def sample_refs cleanup_protection_snapshot_of_def recovery_manifests_def
        sweep_manifest_def Let_def) (simp add: sample_gc_def)
qed

lemma sample_cleanup_runs: "\<exists>report s'. cleanup_unreferenced sample_gc_env 4 10 False sample_gc = (Some report, s')"
proof -
  have env: "en_now sample_gc_env = 100" "en_content sample_gc_env = sample_env" by (simp_all add: sample_gc_env_def)
  let ?pn = "protection sample_gc_env sample_gc"
  obtain oc fps where i: "inspect_manifests sample_env (pool_content (gc_pool sample_gc)) (pn_owned_referenced_manifests ?pn)
      [sample_hash ''m''] ([], []) = Some (oc, fps)" by (simp add: sample_load)
  have cached: "pn_cached_chunk_records ?pn = []"
    by (simp add: protection_def cleanup_protection_snapshot_of_def sort_asc_def) (simp add: sample_gc_def)
  have "\<exists>report s'. cleanup_chunks sample_gc_env 10 False ?pn ms peak oc fps = (Some report, s')" for ms peak
    by (simp add: cleanup_chunks_def cached Let_def)
  then show ?thesis
    unfolding cleanup_unreferenced_def Let_def protection_def [symmetric] env sample_swept by (simp add: concat_chunks i del: inspect_manifests.simps)
qed

text \<open>C8: Garbage collection takes away nothing that can be read: where every manifest that something refers
  to is locally owned, reading any key, at any version or snapshot and in any mode, gives the same result
  after a collection, whatever its retention time and wherever it stopped.\<close>

theorem cleanup_keeps_reads:
  assumes "snapshot_rows_ok (gc_store s)"
    and "live_manifests env (gc_store s) \<subseteq> insert TOMBSTONE_MANIFEST_HASH (fst ` set (st_owned_manifests (gc_store s)))"
    and "cleanup_unreferenced env batch_size retention_secs dry_run s = (r, s')"
  shows "get_object env (store_of s') key snapshot_id version_id mode = get_object env (store_of s) key snapshot_id version_id mode"
proof -
  note keeps = cleanup_keeps [OF assms(3)]
  have live: "manifest_protected env s h" if "h \<in> live_manifests env (store_of s)" for h
    using that collect_referenced_set [OF assms(1), of env] by (simp add: manifest_protected_def live_store_of)
  have "load_manifest_by_hash (en_content env) (pool_content (gc_pool s')) h = load_manifest_by_hash (en_content env) (st_content (store_of s)) h"
    if "h \<in> live_manifests env (store_of s)" for h
    using keeps(1) [OF live [OF that]] by (intro load_manifest_cong) (simp add: pool_content_def store_of_def)
  then have resolve: "resolve_manifest_hash_for_key env (store_of s') key snapshot_id version_id mode =
      resolve_manifest_hash_for_key env (store_of s) key snapshot_id version_id mode"
    unfolding store_of_kept_tables [OF keeps(3)] by (rule resolve_other_content)
  have "read_object_by_manifest_hash (en_content env) (pool_content (gc_pool s')) h =
      read_object_by_manifest_hash (en_content env) (pool_content (gc_pool s)) h"
    if h: "resolve_manifest_hash_for_key env (store_of s) key snapshot_id version_id mode = Inr h" for h
  proof (rule read_object_cong)
    note l = resolved_live [OF h]
    show "content_at (gc_pool s) Manifest h = content_at (gc_pool s') Manifest h" using keeps(1) [OF live [OF l]] by simp
    fix m c
    assume m: "load_manifest_by_hash (en_content env) (pool_content (gc_pool s)) h = Inr (Some m)" and c: "c \<in> set (om_chunks m)"
    have "h \<noteq> TOMBSTONE_MANIFEST_HASH" using m by (auto simp: load_manifest_by_hash_def)
    with l assms(2) have "h \<in> fst ` set (st_owned_manifests (gc_store s))" by (auto simp: live_store_of)
    moreover have "h \<in> set (collect_referenced_manifest_hashes env (gc_store s))"
      using l collect_referenced_set [OF assms(1), of env] by (simp add: live_store_of)
    ultimately have "chunk_protected env s (cr_hash c)" using m c unfolding chunk_protected_def by blast
    then show "content_at (gc_pool s) Chunk (cr_hash c) = content_at (gc_pool s') Chunk (cr_hash c)" using keeps(2) by simp
  qed
  then show ?thesis unfolding get_object_def resolve by (auto simp: store_of_def split: sum.splits)
qed

theorem cleanup_keeps_reads_witness:
  "get_object sample_gc_env (store_of (snd (cleanup_unreferenced sample_gc_env 4 10 False sample_gc))) ''k'' None None Preferred =
     get_object sample_gc_env (store_of sample_gc) ''k'' None None Preferred"
proof -
  have rows: "snapshot_rows_ok (gc_store sample_gc)" by (simp add: snapshot_rows_ok_def hm_ok_def sample_gc_def)
  have "live_manifests sample_gc_env (gc_store sample_gc) \<subseteq>
      insert TOMBSTONE_MANIFEST_HASH (fst ` set (st_owned_manifests (gc_store sample_gc)))"
  proof -
    have "live_manifests sample_gc_env (gc_store sample_gc) = {sample_hash ''m''}"
      by (simp only: collect_referenced_set [OF rows, symmetric] sample_refs) simp
    moreover have "fst ` set (st_owned_manifests (gc_store sample_gc)) = {sample_hash ''m''}" by (simp add: sample_gc_def)
    ultimately show ?thesis by blast
  qed
  from cleanup_keeps_reads [OF rows this prod.collapse [symmetric]] show ?thesis .
qed

text \<open>C9: A collection that completes deletes exactly the garbage: a content file disappears if and only if
  its directory is available, nothing protects it (a reference or a repair, and for a chunk an owned manifest that
  something refers to) and it is at least as old as the retention time; every other content file is unchanged.\<close>

theorem cleanup_deletes_exactly:
  assumes "cleanup_unreferenced env batch_size retention_secs False s = (Some report, s')" "content_name_ok kind h"
  shows "files_of s' (i, kind, h) =
    (if i \<in> set (available_ids (ps_pool (gc_pool s))) \<and>
        \<not> (case kind of Manifest \<Rightarrow> manifest_protected env s h | Chunk \<Rightarrow> chunk_protected env s h) \<and>
        (case files_of s (i, kind, h) of None \<Rightarrow> False | Some f \<Rightarrow> retention_secs \<le> en_now env - sf_modified f)
     then None else files_of s (i, kind, h))"
  using assms(1)
proof (cases rule: cleanup_cases)
  case (swept oc fps peak)
  let ?ms = "sweep_all_manifests (en_now env) retention_secs False (protection env s) s"
  let ?prot = "remdups (recovery_chunks (protection env s) @ oc)"
  let ?ks = "sweep_all_chunks (en_now env) retention_secs False (protection env s) ?prot (ms_state ?ms)"
  have s': "gc_pool s' = gc_pool (ks_state ?ks)" using cleanup_chunks_result [OF swept(2)] by simp
  have safe: "manifest_hash_looks_safe_filename h"
    using assms(2) by (auto simp: content_name_ok_def chunk_hash_ok_def manifest_hash_looks_safe_filename_def split: storage_content_kind.splits)
  show ?thesis
  proof (cases kind)
    case Manifest
    have "files_of s' (i, Manifest, h) = files_of (ms_state ?ms) (i, Manifest, h)"
      using chunks_swept_frame [of Manifest h ?prot "ms_state ?ms"] assms(2) Manifest by (simp add: s' same_at_def)
    moreover have "h \<in> set (remdups (pn_referenced_manifests (protection env s) @ recovery_manifests (protection env s))) \<longleftrightarrow> manifest_protected env s h"
      unfolding kept_set by (auto simp: manifest_protected_def)
    ultimately show ?thesis
      using listed_manifest [OF safe, of "gc_pool s" i] Manifest
      by (auto simp: sweep_all_manifests_def sweep_manifests_files Let_def split: option.splits)
  next
    case Chunk
    have files: "files_of (ms_state ?ms) (i, Chunk, h) = files_of s (i, Chunk, h)"
      using manifests_swept_frame [of Chunk env s h] by (simp add: same_at_def)
    have ids: "available_ids (ps_pool (gc_pool (ms_state ?ms))) = available_ids (ps_pool (gc_pool s))"
      using manifests_swept_frame [of Chunk env s h] by (simp add: same_at_def available_ids_def)
    have "files_of s' (i, Chunk, h) = (if (i, h, Some h) \<in> set (collect_chunk_file_paths (gc_pool (ms_state ?ms))) \<and> h \<notin> set ?prot \<and>
         (case files_of s (i, Chunk, h) of None \<Rightarrow> False | Some f \<Rightarrow> retention_secs \<le> en_now env - sf_modified f)
      then None else files_of s (i, Chunk, h))"
      using sweep_chunks_files [OF safe, of "collect_chunk_file_paths (gc_pool (ms_state ?ms))"] chunk_entries_ok
      unfolding s' sweep_all_chunks_def by (simp add: files)
    then show ?thesis
      using listed_chunk [OF safe, of "gc_pool (ms_state ?ms)" i] protected_chunks_set [OF swept(1), of h] Chunk
      by (auto simp: files ids split: option.splits)
  qed
qed simp

theorem cleanup_deletes_exactly_witness:
  "\<exists>report s'. cleanup_unreferenced sample_gc_env 4 10 False sample_gc = (Some report, s') \<and>
     files_of s' (''p'', Chunk, sample_hash ''hello'') = None \<and>
     files_of s' (''p'', Chunk, sample_hash ''yo'') = Some \<lparr>sf_payload = ''yo'', sf_modified = 1\<rparr>"
proof -
  obtain report s' where run: "cleanup_unreferenced sample_gc_env 4 10 False sample_gc = (Some report, s')"
    using sample_cleanup_runs by blast
  have prot: "chunk_protected sample_gc_env sample_gc x \<longleftrightarrow> x = sample_hash ''yo''" for x
  proof -
    have t: "gc_repair_tasks sample_gc = []" "fst ` set (st_owned_manifests (gc_store sample_gc)) = {sample_hash ''m''}"
      "en_content sample_gc_env = sample_env" by (simp_all add: sample_gc_def sample_gc_env_def)
    show ?thesis unfolding chunk_protected_def sample_refs t by (simp add: sample_load) (simp add: sample_live_def)
  qed
  have "sample_hash ''hello'' \<noteq> sample_hash ''yo''" by (simp add: sample_hash_def)
  with cleanup_deletes_exactly [OF run, of Chunk "sample_hash ''hello''" "''p''"]
    cleanup_deletes_exactly [OF run, of Chunk "sample_hash ''yo''" "''p''"] prot
  have "files_of s' (''p'', Chunk, sample_hash ''hello'') = None"
    "files_of s' (''p'', Chunk, sample_hash ''yo'') = Some \<lparr>sf_payload = ''yo'', sf_modified = 1\<rparr>"
    by (simp_all add: sample_gc_def sample_gc_env_def available_ids_def sample_path_def)
  with run show ?thesis by blast
qed

text \<open>A dry run changes nothing.\<close>

lemma cleanup_dry_run:
  "snd (cleanup_unreferenced env batch_size retention_secs True s) = s"
proof -
  obtain r s' where run: "cleanup_unreferenced env batch_size retention_secs True s = (r, s')" by fastforce
  have ms: "ms_state (sweep_all_manifests (en_now env) retention_secs True (protection env s) s) = s"
    by (simp add: sweep_all_manifests_def sweep_dry Let_def)
  from run have "s' = s"
  proof (cases rule: cleanup_cases)
    case (swept oc fps peak)
    with cleanup_chunks_result [OF swept(2)] ms show ?thesis by (simp add: sweep_all_chunks_def sweep_dry)
  qed (simp add: ms)
  with run show ?thesis by simp
qed

end
