(* ===== verification/Index_Invariant.thy ===== *)
theory Index_Invariant
  imports Object_Store
begin

text \<open>
  Every operation of the store that changes a version index (adding, copying, confirming and
  dropping a version) keeps \<open>index_ok\<close>: the lemmas the store invariant of theory
  \<open>Store_Invariant\<close> rests on.
\<close>

lemma head_records_cong:
  "vi_versions a = vi_versions b \<Longrightarrow> vi_head_version_ids a = vi_head_version_ids b \<Longrightarrow>
   head_records a = head_records b"
  by (simp add: head_records_def)

lemma choose_preferred_head_cong:
  "vi_versions a = vi_versions b \<Longrightarrow> vi_head_version_ids a = vi_head_version_ids b \<Longrightarrow>
   choose_preferred_head a = choose_preferred_head b"
  using head_records_cong [of a b] by (simp add: choose_preferred_head_first)

lemma choose_preferred_head_other [simp]:
  "choose_preferred_head (idx\<lparr>vi_preferred_head_version_id := p\<rparr>) = choose_preferred_head idx"
  "choose_preferred_head (idx\<lparr>vi_identity_was_normalized := b\<rparr>) = choose_preferred_head idx"
  "choose_preferred_head (idx\<lparr>vi_persisted_object_id := o1\<rparr>) = choose_preferred_head idx"
  by (rule choose_preferred_head_cong; simp)+

lemma leaf_other [simp]:
  "leaf (idx\<lparr>vi_preferred_head_version_id := p\<rparr>) = leaf idx"
  "leaf (idx\<lparr>vi_identity_was_normalized := b\<rparr>) = leaf idx"
  "leaf (idx\<lparr>vi_persisted_object_id := o1\<rparr>) = leaf idx"
  "leaf (idx\<lparr>vi_head_version_ids := hs\<rparr>) = leaf idx"
  by (simp_all add: leaf_def fun_eq_iff)

lemma index_ok_other [simp]:
  "index_ok (idx\<lparr>vi_identity_was_normalized := b\<rparr>) = index_ok idx"
  "index_ok (idx\<lparr>vi_persisted_object_id := o1\<rparr>) = index_ok idx"
  by (simp_all add: index_ok_def keyed_by_id_def)

lemma index_okI:
  assumes "hm_ok (vi_versions idx)" "keyed_by_id idx"
    "\<forall>v r. version_of idx v = Some r \<longrightarrow> vr_object_id r = vi_object_id idx"
    "sorted_wrt (<) (vi_head_version_ids idx)"
    "\<forall>v \<in> set (vi_head_version_ids idx). version_of idx v \<noteq> None"
    "\<forall>v. leaf idx v \<longrightarrow> v \<in> set (vi_head_version_ids idx)"
  shows "index_ok (idx\<lparr>vi_preferred_head_version_id := choose_preferred_head idx\<rparr>)"
  using assms by (simp add: index_ok_def keyed_by_id_def)

lemma add_version_index_ok [bk_inv]:
  assumes "index_ok idx" "version_of idx (vr_version_id r) = None" "vr_object_id r = vi_object_id idx"
  shows "index_ok (add_version r idx)"
proof -
  let ?v = "vr_version_id r"
  let ?hs = "filter (\<lambda>h. h \<notin> set (vr_parent_version_ids r)) (vi_head_version_ids idx)"
  let ?idx1 = "idx\<lparr>vi_versions := hm_insert ?v r (vi_versions idx), vi_head_version_ids := bts_collect (?v # ?hs)\<rparr>"
  note ok = assms(1) [unfolded index_ok_def]
  have vs: "version_of ?idx1 u = (if u = ?v then Some r else version_of idx u)" for u
    by (simp add: update_conv')
  have "index_ok (?idx1\<lparr>vi_preferred_head_version_id := choose_preferred_head ?idx1\<rparr>)"
  proof (rule index_okI)
    show "hm_ok (vi_versions ?idx1)" using ok by simp
    show "keyed_by_id ?idx1" using ok unfolding keyed_by_id_def vs by simp
    show "\<forall>v r. version_of ?idx1 v = Some r \<longrightarrow> vr_object_id r = vi_object_id ?idx1"
      using ok assms(3) unfolding vs by simp
    show "sorted_wrt (<) (vi_head_version_ids ?idx1)"
      by (simp del: remdups.simps)
    show "\<forall>v \<in> set (vi_head_version_ids ?idx1). version_of ?idx1 v \<noteq> None"
      using ok unfolding vs by auto
    show "\<forall>v. leaf ?idx1 v \<longrightarrow> v \<in> set (vi_head_version_ids ?idx1)"
    proof (intro allI impI)
      fix v assume "leaf ?idx1 v"
      then have l: "version_of ?idx1 v \<noteq> None"
          "\<And>u q. version_of ?idx1 u = Some q \<Longrightarrow> v \<notin> set (vr_parent_version_ids q)"
        unfolding leaf_def by blast+
      show "v \<in> set (vi_head_version_ids ?idx1)"
      proof (cases "v = ?v")
        case False
        have "v \<notin> set (vr_parent_version_ids r)" using l(2) [of ?v r] unfolding vs by simp
        moreover have "v \<notin> set (vr_parent_version_ids q)" if "version_of idx u = Some q" for u q
        proof -
          have "u \<noteq> ?v" using that assms(2) by auto
          then show ?thesis using l(2) [of u q] that unfolding vs by simp
        qed
        then have "leaf idx v" using l(1) False unfolding leaf_def vs by auto
        ultimately show ?thesis using ok by simp
      qed simp
    qed
  qed
  then show ?thesis by (simp add: add_version_def Let_def)
qed

lemma recomputed_index_ok:
  assumes "hm_ok (vi_versions idx)" "keyed_by_id idx"
    "\<forall>v r. version_of idx v = Some r \<longrightarrow> vr_object_id r = vi_object_id idx"
  shows "index_ok (let idx2 = idx\<lparr>vi_head_version_ids := recompute_head_version_ids idx\<rparr>
    in idx2\<lparr>vi_preferred_head_version_id := choose_preferred_head idx2\<rparr>)"
  unfolding Let_def
  by (rule index_okI)
    (use assms in \<open>auto simp: keyed_by_id_def recompute_heads_strict set_recompute_heads leaf_def\<close>)

lemma add_version_recomputed_index_ok [bk_inv]:
  assumes "index_ok idx" "vr_object_id r = vi_object_id idx"
  shows "index_ok (add_version_recomputed r idx)"
proof -
  let ?idx = "idx\<lparr>vi_versions := hm_insert (vr_version_id r) r (vi_versions idx)\<rparr>"
  have vs: "version_of ?idx u = (if u = vr_version_id r then Some r else version_of idx u)" for u
    by (simp add: update_conv')
  have "hm_ok (vi_versions ?idx)" using assms(1) by (simp add: index_ok_def)
  moreover have "keyed_by_id ?idx" using assms(1) unfolding index_ok_def keyed_by_id_def vs by simp
  moreover have "\<forall>v r. version_of ?idx v = Some r \<longrightarrow> vr_object_id r = vi_object_id ?idx"
    using assms unfolding index_ok_def vs by simp
  ultimately show ?thesis unfolding add_version_recomputed_def Let_def
    using recomputed_index_ok [of ?idx] by (simp add: Let_def)
qed

lemma drop_version_index_ok [bk_inv]:
  assumes "index_ok idx"
  shows "index_ok (drop_version v idx)"
proof -
  let ?idx = "idx\<lparr>vi_versions := hm_remove v (vi_versions idx)\<rparr>"
  have vs: "version_of ?idx u = (if u = v then None else version_of idx u)" for u
    by (simp add: delete_conv')
  have "hm_ok (vi_versions ?idx)" using assms by (simp add: index_ok_def)
  moreover have "keyed_by_id ?idx" using assms unfolding index_ok_def keyed_by_id_def vs by simp
  moreover have "\<forall>v r. version_of ?idx v = Some r \<longrightarrow> vr_object_id r = vi_object_id ?idx"
    using assms unfolding index_ok_def vs by simp
  ultimately show ?thesis unfolding drop_version_def Let_def
    using recomputed_index_ok [of ?idx] by (simp add: Let_def)
qed

lemma set_confirmed_versions:
  "version_of (set_confirmed v idx) u =
     map_option (\<lambda>r. if u = v then r\<lparr>vr_state := Confirmed\<rparr> else r) (version_of idx u)"
proof -
  have "map_of (map (\<lambda>(k, r). (k, if k = v then r\<lparr>vr_state := Confirmed\<rparr> else r)) m) u =
      map_option (\<lambda>r. if u = v then r\<lparr>vr_state := Confirmed\<rparr> else r) (map_of m u)" for m
    by (induction m) auto
  then show ?thesis by (simp add: set_confirmed_def Let_def)
qed

lemma set_confirmed_index_ok [bk_inv]:
  assumes "index_ok idx"
  shows "index_ok (set_confirmed v idx)"
proof -
  let ?m = "map (\<lambda>(k, r). (k, if k = v then r\<lparr>vr_state := Confirmed\<rparr> else r)) (vi_versions idx)"
  let ?idx = "idx\<lparr>vi_versions := ?m\<rparr>"
  note ok = assms [unfolded index_ok_def]
  have vs: "version_of ?idx u = map_option (\<lambda>r. if u = v then r\<lparr>vr_state := Confirmed\<rparr> else r) (version_of idx u)" for u
    using set_confirmed_versions [of v idx u] by (simp add: set_confirmed_def Let_def)
  have "map fst ?m = map fst (vi_versions idx)" by (auto simp: case_prod_unfold)
  then have "hm_ok ?m" using ok unfolding hm_ok_def by metis
  moreover have "keyed_by_id ?idx" using ok unfolding keyed_by_id_def vs by (auto split: if_splits)
  moreover have "leaf ?idx u = leaf idx u" for u
    unfolding leaf_def vs by (auto split: if_splits) (metis (no_types, lifting) file_version_record.select_convs(5) file_version_record.surjective file_version_record.update_convs(6))+
  moreover have "\<forall>u r. version_of ?idx u = Some r \<longrightarrow> vr_object_id r = vi_object_id ?idx"
    using ok unfolding vs by (auto split: if_splits)
  moreover have "\<forall>u \<in> set (vi_head_version_ids ?idx). version_of ?idx u \<noteq> None"
    using ok unfolding vs by auto
  ultimately have "index_ok (?idx\<lparr>vi_preferred_head_version_id := choose_preferred_head ?idx\<rparr>)"
    using ok by (intro index_okI) simp_all
  then show ?thesis by (simp add: set_confirmed_def Let_def)
qed

end
