(* ===== verification/Store_Invariant.thy ===== *)
theory Store_Invariant
  imports Index_Invariant
begin

text \<open>
  The invariant of the object store and its preservation.  \<open>store_inv X\<close> states it with the objects
  in \<open>X\<close> exempted from having their current binding in line with their index, which is how the
  store is between persisting an index and synchronising the bindings; \<open>store_ok\<close> exempts none.
\<close>

section \<open>The invariant\<close>

text \<open>Some head of the index is a version with this content.\<close>

definition live_manifest :: "file_version_index \<Rightarrow> string \<Rightarrow> bool" where
  "live_manifest idx h \<longleftrightarrow> (\<exists>v r. v \<in> set (vi_head_version_ids idx) \<and> version_of idx v = Some r \<and>
     \<not> is_tombstone r \<and> vr_manifest_hash r = h)"

definition store_inv :: "string set \<Rightarrow> store \<Rightarrow> bool" where
  "store_inv X st \<longleftrightarrow>
     hm_ok (st_current st) \<and> hm_ok (st_indexes st) \<and>
     (\<forall>oid idx. map_of (st_indexes st) oid = Some idx \<longrightarrow>
        index_ok idx \<and> vi_object_id idx = oid \<and> \<not> is_blank oid) \<and>
     (\<forall>oid. map_of (st_heads st) oid = map_option (head_projection oid) (map_of (st_indexes st) oid)) \<and>
     (\<forall>k e. current_entry st k = Some e \<longrightarrow> coe_object_id e \<notin> X \<longrightarrow>
        (\<exists>idx. map_of (st_indexes st) (coe_object_id e) = Some idx \<and> live_manifest idx (coe_manifest_hash e))) \<and>
     (\<forall>k k' e e'. current_entry st k = Some e \<longrightarrow> current_entry st k' = Some e' \<longrightarrow>
        coe_object_id e = coe_object_id e' \<longrightarrow> k = k')"

abbreviation store_ok :: "store \<Rightarrow> bool" where
  "store_ok \<equiv> store_inv {}"

definition empty_store :: store where
  "empty_store = \<lparr>st_content = \<lparr>cs_chunks = [], cs_manifests = []\<rparr>, st_current = [], st_indexes = [],
     st_heads = [], st_snapshots = [], st_batch = None, st_owned_manifests = [], st_version_metadata = []\<rparr>"

lemma empty_store_ok: "store_ok empty_store"
  by (simp add: store_inv_def empty_store_def current_entry_def hm_ok_def)

text \<open>Tables the invariant does not mention.\<close>

lemma store_inv_cong:
  "st_current a = st_current b \<Longrightarrow> st_indexes a = st_indexes b \<Longrightarrow> st_heads a = st_heads b \<Longrightarrow>
   store_inv X a = store_inv X b"
  by (simp add: store_inv_def current_entry_def)

lemma frame_simps [simp]:
  "st_current (maybe_rotate_snapshot_batch now ps st) = st_current st"
  "st_indexes (maybe_rotate_snapshot_batch now ps st) = st_indexes st"
  "st_heads (maybe_rotate_snapshot_batch now ps st) = st_heads st"
  "st_content (maybe_rotate_snapshot_batch now ps st) = st_content st"
  "st_current (rotate_if b now ps st) = st_current st"
  "st_indexes (rotate_if b now ps st) = st_indexes st"
  "st_heads (rotate_if b now ps st) = st_heads st"
  "st_content (rotate_if b now ps st) = st_content st"
  "st_current (mark_manifest_locally_owned now h st) = st_current st"
  "st_indexes (mark_manifest_locally_owned now h st) = st_indexes st"
  "st_heads (mark_manifest_locally_owned now h st) = st_heads st"
  "st_content (mark_manifest_locally_owned now h st) = st_content st"
  by (simp_all add: maybe_rotate_snapshot_batch_def rotate_if_def mark_manifest_locally_owned_def
      split: option.splits)

lemma frame_inv [simp]:
  "store_inv X (maybe_rotate_snapshot_batch now ps st) = store_inv X st"
  "store_inv X (rotate_if b now ps st) = store_inv X st"
  "store_inv X (mark_manifest_locally_owned now h st) = store_inv X st"
  "store_inv X (st\<lparr>st_content := cs\<rparr>) = store_inv X st"
  "store_inv X (st\<lparr>st_version_metadata := vm\<rparr>) = store_inv X st"
  by (rule store_inv_cong; simp)+

lemma frame_entry [simp]:
  "current_entry (maybe_rotate_snapshot_batch now ps st) = current_entry st"
  "current_entry (rotate_if b now ps st) = current_entry st"
  "current_entry (mark_manifest_locally_owned now h st) = current_entry st"
  "current_entry (st\<lparr>st_content := cs\<rparr>) = current_entry st"
  "object_id_for_key (maybe_rotate_snapshot_batch now ps st) = object_id_for_key st"
  "object_id_for_key (rotate_if b now ps st) = object_id_for_key st"
  "object_id_for_key (mark_manifest_locally_owned now h st) = object_id_for_key st"
  "object_id_for_key (st\<lparr>st_content := cs\<rparr>) = object_id_for_key st"
  by (simp_all add: current_entry_def object_id_for_key_def fun_eq_iff)

lemma record_snapshot_frame [simp]:
  "st_current (snd (record_snapshot_batch env changed t st)) = st_current st"
  "st_indexes (snd (record_snapshot_batch env changed t st)) = st_indexes st"
  "st_heads (snd (record_snapshot_batch env changed t st)) = st_heads st"
  "st_content (snd (record_snapshot_batch env changed t st)) = st_content st"
  by (simp_all add: record_snapshot_batch_def Let_def)

lemma record_snapshot_nonempty: "changed \<noteq> [] \<Longrightarrow> \<exists>sid. fst (record_snapshot_batch env changed t st) = Inr sid"
  by (simp add: record_snapshot_batch_def Let_def)

lemma persist_snapshot_cases:
  obtains sid where "persist_current_state_with_snapshot_batch env changed create t st =
    (Inr sid, if \<not> create \<or> changed = [] then st else snd (record_snapshot_batch env changed t st))"
proof (cases "\<not> create \<or> changed = []")
  case True
  then show ?thesis using that by (simp add: persist_current_state_with_snapshot_batch_def)
next
  case False
  then obtain sid where sid: "fst (record_snapshot_batch env changed t st) = Inr sid"
    using record_snapshot_nonempty by blast
  obtain r st1 where r: "record_snapshot_batch env changed t st = (r, st1)" by (rule prod.exhaust)
  then have "persist_current_state_with_snapshot_batch env changed create t st = (Inr (Some sid), st1)"
    using False sid by (simp add: persist_current_state_with_snapshot_batch_def)
  then show ?thesis using that [of "Some sid"] False r by simp
qed

text \<open>Recording a snapshot always succeeds and leaves the other tables alone.\<close>

lemma persist_snapshot:
  assumes "persist_current_state_with_snapshot_batch env changed create t st = (r, st')"
  shows "\<exists>sid. r = Inr sid" "st_current st' = st_current st" "st_indexes st' = st_indexes st"
    "st_heads st' = st_heads st" "st_content st' = st_content st" "store_inv X st' = store_inv X st"
proof -
  obtain sid where "persist_current_state_with_snapshot_batch env changed create t st =
      (Inr sid, if \<not> create \<or> changed = [] then st else snd (record_snapshot_batch env changed t st))"
    by (rule persist_snapshot_cases)
  with assms have r: "r = Inr sid"
    and st': "st' = (if \<not> create \<or> changed = [] then st else snd (record_snapshot_batch env changed t st))"
    by simp_all
  show "\<exists>sid. r = Inr sid" using r by simp
  show *: "st_current st' = st_current st" "st_indexes st' = st_indexes st"
    "st_heads st' = st_heads st" "st_content st' = st_content st" unfolding st' by simp_all
  show "store_inv X st' = store_inv X st" by (rule store_inv_cong) (rule *)+
qed

section \<open>Loading and persisting an index\<close>

lemma store_inv_index:
  assumes "store_inv X st" "map_of (st_indexes st) oid = Some idx"
  shows "index_ok idx" "vi_object_id idx = oid" "\<not> is_blank oid"
  using assms unfolding store_inv_def by metis+

lemma store_inv_unique:
  assumes "store_inv X st" "current_entry st k = Some e" "current_entry st k' = Some e'"
    "coe_object_id e = coe_object_id e'"
  shows "k = k'"
  using assms unfolding store_inv_def by metis

lemma store_inv_live:
  assumes "store_inv X st" "current_entry st k = Some e" "coe_object_id e \<notin> X"
  obtains idx where "map_of (st_indexes st) (coe_object_id e) = Some idx"
    "live_manifest idx (coe_manifest_hash e)"
  using assms unfolding store_inv_def by metis

lemma load_index:
  assumes "store_inv X st"
  shows "load_version_index_by_object_id env st oid =
    map_option (\<lambda>idx. idx\<lparr>vi_persisted_object_id := oid, vi_identity_was_normalized := False\<rparr>)
      (map_of (st_indexes st) oid)"
proof (cases "map_of (st_indexes st) oid")
  case None
  then show ?thesis by (simp add: load_version_index_by_object_id_def)
next
  case (Some idx)
  note ok = store_inv_index [OF assms Some]
  then have "\<forall>r \<in> set (hm_values (vi_versions idx)). vr_object_id r = oid"
    using hm_value_iff [of "vi_versions idx"] by (auto simp: index_ok_def)
  from normalize_unchanged [OF ok(3,2) this] Some show ?thesis
    by (simp add: load_version_index_by_object_id_def)
qed

lemma load_index_ok:
  assumes "store_inv X st" "load_version_index_by_object_id env st oid = Some idx"
  shows "index_ok idx" "vi_object_id idx = oid" "\<not> is_blank oid"
proof -
  from assms(2) obtain row where row: "map_of (st_indexes st) oid = Some row"
      "idx = row\<lparr>vi_persisted_object_id := oid, vi_identity_was_normalized := False\<rparr>"
    unfolding load_index [OF assms(1)] by auto
  note ok = store_inv_index [OF assms(1) row(1)]
  show "index_ok idx" "vi_object_id idx = oid" "\<not> is_blank oid" using ok row(2) by simp_all
qed

lemma index_or_empty_ok:
  assumes "store_inv X st"
  shows "index_ok (index_or_empty env st oid) \<and> vi_object_id (index_or_empty env st oid) = oid"
proof (cases "load_version_index_by_object_id env st oid")
  case None
  then show ?thesis by (simp add: index_or_empty_def empty_index_ok) (simp add: empty_version_index_def)
next
  case (Some idx)
  then show ?thesis using load_index_ok [OF assms Some] by (simp add: index_or_empty_def)
qed

lemma recover_loop_cong:
  "vi_versions b = vi_versions a \<Longrightarrow> recover_loop b pending visited = recover_loop a pending visited"
proof (induction a pending visited rule: recover_loop.induct)
  case (1 a pending visited)
  show ?case
  proof (cases pending rule: rev_cases)
    case Nil
    then show ?thesis by (simp add: recover_loop_Nil)
  next
    case (snoc rest v)
    have ne: "pending \<noteq> []" and last: "v = last pending" and butlast: "rest = butlast pending"
      using snoc by simp_all
    note IH = "1.IH" [OF ne last butlast]
    consider "v \<in> set visited" | "v \<notin> set visited" "version_of a v = None"
      | r where "v \<notin> set visited" "version_of a v = Some r" by fastforce
    then show ?thesis
    proof cases
      case c: 1
      then show ?thesis using IH(1) [OF c "1.prems"] by (simp add: snoc recover_loop_snoc)
    next
      case c: 2
      then show ?thesis using IH(2) [OF c "1.prems"] "1.prems" by (simp add: snoc recover_loop_snoc)
    next
      case c: 3
      then show ?thesis using IH(3) [OF c _ "1.prems"] "1.prems" by (simp add: snoc recover_loop_snoc)
    qed
  qed
qed

lemma recoverable_cong:
  "vi_versions b = vi_versions a \<Longrightarrow> recoverable_tombstone_ancestor b t = recoverable_tombstone_ancestor a t"
  unfolding recoverable_tombstone_ancestor_def by (rule recover_loop_cong)

lemma restore_source_cong:
  "vi_versions b = vi_versions a \<Longrightarrow> projection_restore_source oid b head path = projection_restore_source oid a head path"
  unfolding projection_restore_source_def by (simp only: recoverable_cong [of b a])

lemma head_projection_cong:
  assumes "vi_versions b = vi_versions a" "vi_head_version_ids b = vi_head_version_ids a"
    "vi_preferred_head_version_id b = vi_preferred_head_version_id a"
  shows "head_projection oid b = head_projection oid a"
  unfolding head_projection_def restore_source_cong [OF assms(1)] assms
    choose_preferred_head_cong [OF assms(1,2)] by (rule refl)

lemma head_projection_other [simp]:
  "head_projection oid (idx\<lparr>vi_identity_was_normalized := b\<rparr>) = head_projection oid idx"
  "head_projection oid (idx\<lparr>vi_persisted_object_id := p\<rparr>) = head_projection oid idx"
  by (rule head_projection_cong; simp)+

lemma validate_ok:
  assumes "index_ok idx" "vi_object_id idx = oid" "\<not> is_blank oid"
  shows "validate_version_index_identity oid idx"
proof -
  have "hm_ok (vi_versions idx)" using assms(1) by (simp add: index_ok_def)
  then have "\<forall>r \<in> set (hm_values (vi_versions idx)). vr_object_id r = oid"
    using hm_value_iff [of "vi_versions idx"] assms(1,2) by (auto simp: index_ok_def)
  then show ?thesis
    using assms(2,3) by (simp add: validate_version_index_identity_def find_None_iff)
qed

text \<open>The row written by \<open>persist_version_index_by_object_id\<close>.\<close>

abbreviation index_row :: "file_version_index \<Rightarrow> file_version_index" where
  "index_row idx \<equiv> idx\<lparr>vi_identity_was_normalized := False, vi_persisted_object_id := []\<rparr>"

lemma persist_index:
  assumes "store_inv X st" "index_ok idx" "vi_object_id idx = oid" "\<not> is_blank oid"
  shows "\<exists>st'. persist_version_index_by_object_id oid idx st = (Inr (), st') \<and> store_inv (insert oid X) st' \<and>
    st_current st' = st_current st \<and> st_content st' = st_content st \<and>
    map_of (st_indexes st') = (map_of (st_indexes st))(oid \<mapsto> index_row idx)"
proof -
  let ?st = "st\<lparr>st_indexes := hm_insert oid (index_row idx) (st_indexes st),
    st_heads := hm_insert oid (head_projection oid idx) (st_heads st)\<rparr>"
  have "persist_version_index_by_object_id oid idx st = (Inr (), ?st)"
    using validate_ok [OF assms(2-4)] by (simp add: persist_version_index_by_object_id_def)
  moreover have "store_inv (insert oid X) ?st"
    using assms by (auto simp: store_inv_def update_conv' current_entry_def)
  moreover have "map_of (st_indexes ?st) = (map_of (st_indexes st))(oid \<mapsto> index_row idx)"
    by (simp add: fun_eq_iff update_conv')
  ultimately show ?thesis by simp
qed


section \<open>Changing current bindings\<close>

lemma remove_bindings_frame [simp]:
  "st_indexes (remove_bindings ps st) = st_indexes st" "st_heads (remove_bindings ps st) = st_heads st"
  "st_content (remove_bindings ps st) = st_content st"
  by (induction ps arbitrary: st) (simp_all add: remove_bindings_def remove_current_object_def)

lemma remove_bindings_entry:
  "current_entry (remove_bindings ps st) k = (if k \<in> set ps then None else current_entry st k)"
  by (induction ps arbitrary: st)
    (auto simp: remove_bindings_def remove_current_object_def current_entry_def delete_conv')

lemma hm_ok_remove_bindings: "hm_ok (st_current st) \<Longrightarrow> hm_ok (st_current (remove_bindings ps st))"
  by (induction ps arbitrary: st) (simp_all add: remove_bindings_def remove_current_object_def)

lemma list_keys_iff:
  "hm_ok (st_current st) \<Longrightarrow>
   k \<in> set (list_keys_for_object_id st oid) \<longleftrightarrow> object_id_for_key st k = Some oid"
  by (force simp: list_keys_for_object_id_def object_id_for_key_def current_entry_def hm.mem_iff)

lemma set_remdups_adj_sort [simp]: "set (remdups_adj (sort xs)) = set xs"
  by simp

text \<open>Dropping every binding of an object brings it back in line.\<close>

lemma remove_object_bindings_ok:
  assumes "store_inv (insert oid X) st"
    and "\<forall>k. object_id_for_key st k = Some oid \<longrightarrow> k \<in> set ps"
  shows "store_inv X (remove_bindings ps st)"
proof -
  note inv = assms(1) [unfolded store_inv_def]
  have entry: "current_entry st k = Some e" "coe_object_id e \<noteq> oid"
    if "current_entry (remove_bindings ps st) k = Some e" for k e
    using that assms(2) by (auto simp: remove_bindings_entry object_id_for_key_def split: if_splits)
  show ?thesis
    unfolding store_inv_def remove_bindings_frame
  proof (intro conjI allI impI)
    fix k e assume *: "current_entry (remove_bindings ps st) k = Some e" "coe_object_id e \<notin> X"
    then have "coe_object_id e \<notin> insert oid X" using entry(2) [of k e] by simp
    then show "\<exists>idx. map_of (st_indexes st) (coe_object_id e) = Some idx \<and> live_manifest idx (coe_manifest_hash e)"
      using store_inv_live [OF assms(1) entry(1)] * by metis
  next
    fix k k' e e'
    assume "current_entry (remove_bindings ps st) k = Some e" "current_entry (remove_bindings ps st) k' = Some e'"
      "coe_object_id e = coe_object_id e'"
    then show "k = k'" using store_inv_unique [OF assms(1)] entry(1) by metis
  qed (use inv hm_ok_remove_bindings in blast)+
qed

lemma remove_bindings_inv:
  assumes "store_inv X st"
  shows "store_inv X (remove_bindings ps st)"
proof -
  note inv = assms [unfolded store_inv_def]
  have entry: "current_entry st k = Some e" if "current_entry (remove_bindings ps st) k = Some e" for k e
    using that by (auto simp: remove_bindings_entry split: if_splits)
  show ?thesis
    unfolding store_inv_def remove_bindings_frame
  proof (intro conjI allI impI)
    fix k e assume "current_entry (remove_bindings ps st) k = Some e" "coe_object_id e \<notin> X"
    then show "\<exists>idx. map_of (st_indexes st) (coe_object_id e) = Some idx \<and> live_manifest idx (coe_manifest_hash e)"
      using store_inv_live [OF assms] entry by metis
  next
    fix k k' e e'
    assume "current_entry (remove_bindings ps st) k = Some e" "current_entry (remove_bindings ps st) k' = Some e'"
      "coe_object_id e = coe_object_id e'"
    then show "k = k'" using store_inv_unique [OF assms] entry by metis
  qed (use inv hm_ok_remove_bindings in blast)+
qed

lemma upsert_frame [simp]:
  "st_indexes (upsert_current_object k e st) = st_indexes st"
  "st_heads (upsert_current_object k e st) = st_heads st"
  "st_content (upsert_current_object k e st) = st_content st"
  "current_entry (upsert_current_object k e st) k' = (if k' = k then Some e else current_entry st k')"
  by (auto simp: upsert_current_object_def current_entry_def update_conv')

text \<open>Binding one path to a live version of the object brings the object back in line.\<close>

lemma upsert_ok:
  assumes "store_inv (insert oid X) st" "map_of (st_indexes st) oid = Some idx" "live_manifest idx h"
    and "\<forall>k. object_id_for_key st k = Some oid \<longrightarrow> k = key" "oid \<notin> X"
  shows "store_inv X (upsert_current_object key \<lparr>coe_manifest_hash = h, coe_object_id = oid\<rparr> st)"
    (is "store_inv X ?st")
proof -
  note inv = assms(1) [unfolded store_inv_def]
  have other: "coe_object_id e \<noteq> oid" if "current_entry st k = Some e" "k \<noteq> key" for k e
    using assms(4) that by (auto simp: object_id_for_key_def)
  show ?thesis
    unfolding store_inv_def upsert_frame
  proof (intro conjI allI impI)
    show "hm_ok (st_current ?st)" using inv by (simp add: upsert_current_object_def)
    fix k e assume e: "(if k = key then Some \<lparr>coe_manifest_hash = h, coe_object_id = oid\<rparr> else current_entry st k) = Some e"
      "coe_object_id e \<notin> X"
    show "\<exists>idx. map_of (st_indexes st) (coe_object_id e) = Some idx \<and> live_manifest idx (coe_manifest_hash e)"
    proof (cases "k = key")
      case True
      then show ?thesis using e assms(2,3) by auto
    next
      case False
      then have c: "current_entry st k = Some e" using e(1) by simp
      then have "coe_object_id e \<notin> insert oid X" using other [OF c False] e(2) by simp
      then show ?thesis using store_inv_live [OF assms(1) c] by metis
    qed
  next
    fix k k' e e'
    assume e: "(if k = key then Some \<lparr>coe_manifest_hash = h, coe_object_id = oid\<rparr> else current_entry st k) = Some e"
      "(if k' = key then Some \<lparr>coe_manifest_hash = h, coe_object_id = oid\<rparr> else current_entry st k') = Some e'"
      "coe_object_id e = coe_object_id e'"
    then show "k = k'"
      using other [of k] other [of k'] store_inv_unique [OF assms(1), of k e k' e']
      by (auto split: if_splits)
  qed (use inv in blast)+
qed


section \<open>Synchronising the bindings with an index\<close>

lemma live_manifest_other [simp]:
  "live_manifest (idx\<lparr>vi_identity_was_normalized := b\<rparr>) = live_manifest idx"
  "live_manifest (idx\<lparr>vi_persisted_object_id := p\<rparr>) = live_manifest idx"
  by (simp_all add: live_manifest_def fun_eq_iff)

lemma preferred_is_head:
  assumes "index_ok idx" "vi_preferred_head_version_id idx = Some v"
  obtains r where "version_of idx v = Some r" "v \<in> set (vi_head_version_ids idx)" "vr_version_id r = v"
    "\<forall>q \<in> set (head_records idx). head_key q \<le> head_key r"
proof -
  have keyed: "keyed_by_id idx" and pref: "choose_preferred_head idx = Some v"
    using assms by (auto simp: index_ok_def)
  then have "head_records idx \<noteq> []" using choose_preferred_head_None [of idx] by auto
  then obtain r where "choose_preferred_head idx = Some (vr_version_id r)"
    "version_of idx (vr_version_id r) = Some r" "vr_version_id r \<in> set (vi_head_version_ids idx)"
    "\<forall>q \<in> set (head_records idx). head_key q \<le> head_key r"
    by (rule preferred_record [OF keyed])
  with pref have "version_of idx v = Some r" "v \<in> set (vi_head_version_ids idx)" "vr_version_id r = v"
    "\<forall>q \<in> set (head_records idx). head_key q \<le> head_key r" by simp_all
  then show ?thesis by (rule that)
qed

text \<open>The binding an index asks for.\<close>

definition wanted_entry :: "file_version_index \<Rightarrow> current_object_entry option" where
  "wanted_entry idx =
     (case Option.bind (vi_preferred_head_version_id idx) (version_of idx) of
        None \<Rightarrow> None
      | Some r \<Rightarrow> if is_tombstone r then None
          else Some \<lparr>coe_manifest_hash = vr_manifest_hash r, coe_object_id = vi_object_id idx\<rparr>)"

lemma wanted_live:
  assumes "index_ok idx" "wanted_entry idx = Some e"
  shows "live_manifest idx (coe_manifest_hash e)" "coe_object_id e = vi_object_id idx"
proof -
  from assms(2) obtain v r where v: "vi_preferred_head_version_id idx = Some v" "version_of idx v = Some r"
      "\<not> is_tombstone r" "e = \<lparr>coe_manifest_hash = vr_manifest_hash r, coe_object_id = vi_object_id idx\<rparr>"
    by (auto simp: wanted_entry_def bind_eq_Some_conv split: option.splits if_splits)
  have "v \<in> set (vi_head_version_ids idx)" by (rule preferred_is_head [OF assms(1) v(1)])
  with v show "live_manifest idx (coe_manifest_hash e)" "coe_object_id e = vi_object_id idx"
    unfolding live_manifest_def by auto
qed

lemma remove_all_bindings:
  assumes "hm_ok (st_current st)"
  shows "\<exists>ps qs. remove_current_state_bindings_for_object_id oid st = (ps, remove_bindings qs st) \<and>
    (\<forall>k. k \<in> set qs \<longleftrightarrow> object_id_for_key st k = Some oid)"
proof -
  let ?qs = "remdups_adj (sort (list_keys_for_object_id st oid))"
  have "remove_current_state_bindings_for_object_id oid st = (bts_collect ?qs, remove_bindings ?qs st)"
    by (simp add: remove_current_state_bindings_for_object_id_def
        remove_current_state_bindings_for_object_id_except_def Let_def)
  moreover have "\<forall>k. k \<in> set ?qs \<longleftrightarrow> object_id_for_key st k = Some oid"
    using list_keys_iff [OF assms, of _ oid] by simp
  ultimately show ?thesis by blast
qed

lemma bind_only_path:
  assumes "hm_ok (st_current st)" "\<forall>k. object_id_for_key st k = Some (vi_object_id idx) \<longrightarrow> k = key"
  shows "\<exists>ps. bind_current_state_to_preferred_index_record key idx r st =
    (ps, if current_entry st key = Some \<lparr>coe_manifest_hash = vr_manifest_hash r, coe_object_id = vi_object_id idx\<rparr>
         then st else upsert_current_object key
           \<lparr>coe_manifest_hash = vr_manifest_hash r, coe_object_id = vi_object_id idx\<rparr> st)"
proof -
  have "filter (\<lambda>p. p \<noteq> key) (remdups_adj (sort (list_keys_for_object_id st (vi_object_id idx)))) = []"
    using list_keys_iff [OF assms(1)] assms(2) by (simp add: filter_empty_conv)
  then show ?thesis
    by (simp add: bind_current_state_to_preferred_index_record_def Let_def remove_bindings_def)
qed

end
