(* ===== verification/Store_Operations.thy ===== *)
theory Store_Operations
  imports Store_Invariant
begin

text \<open>
  Preservation of the store invariant by the operations of \<open>Object_Store\<close>, and what each operation
  does to the bindings and the indexes.  The central lemma is about the common tail of all
  mutations, \<open>persist_and_sync\<close>.
\<close>

section \<open>Synchronisation\<close>

lemma sync_ok:
  assumes inv: "store_inv {oid} st" and row: "map_of (st_indexes st) oid = Some row" "live_manifest row = live_manifest idx"
    and idx: "index_ok idx" "vi_object_id idx = oid"
    and only: "\<forall>k. object_id_for_key st k = Some oid \<longrightarrow> k = key"
    and cur: "object_id_for_key st key = None \<or> object_id_for_key st key = Some oid"
  shows "\<exists>ps st'. sync_current_state_for_key_from_index key idx st = (Inr ps, st') \<and> store_ok st' \<and>
    st_indexes st' = st_indexes st \<and> st_content st' = st_content st \<and>
    current_entry st' key = wanted_entry idx \<and> (\<forall>k. k \<noteq> key \<longrightarrow> current_entry st' k = current_entry st k)"
proof (cases "wanted_entry idx")
  case None
  have hm: "hm_ok (st_current st)" using inv by (simp add: store_inv_def)
  obtain ps qs where r: "remove_current_state_bindings_for_object_id oid st = (ps, remove_bindings qs st)"
      and qs: "\<forall>k. k \<in> set qs \<longleftrightarrow> object_id_for_key st k = Some oid"
    using remove_all_bindings [OF hm] by blast
  have "sync_current_state_for_key_from_index key idx st = (Inr ps, remove_bindings qs st)"
  proof (cases "vi_preferred_head_version_id idx")
    case p: None
    then show ?thesis using r idx by (simp add: sync_current_state_for_key_from_index_def)
  next
    case (Some v)
    obtain rec where "version_of idx v = Some rec" by (rule preferred_is_head [OF idx(1) Some])
    then show ?thesis
      using None Some r idx
      by (simp add: sync_current_state_for_key_from_index_def wanted_entry_def split: if_splits)
  qed
  moreover have "store_ok (remove_bindings qs st)"
    by (rule remove_object_bindings_ok [OF inv]) (use qs in simp)
  moreover have "current_entry (remove_bindings qs st) key = None"
    using qs cur by (auto simp: remove_bindings_entry object_id_for_key_def)
  moreover have "current_entry (remove_bindings qs st) k = current_entry st k" if "k \<noteq> key" for k
    using qs only that by (auto simp: remove_bindings_entry)
  ultimately show ?thesis using None by auto
next
  case (Some e)
  have hm: "hm_ok (st_current st)" using inv by (simp add: store_inv_def)
  note live = wanted_live [OF idx(1) Some]
  from Some obtain v r where v: "vi_preferred_head_version_id idx = Some v" "version_of idx v = Some r"
      "\<not> is_tombstone r" "e = \<lparr>coe_manifest_hash = vr_manifest_hash r, coe_object_id = oid\<rparr>"
    using idx(2) by (auto simp: wanted_entry_def bind_eq_Some_conv split: option.splits if_splits)
  obtain ps where "bind_current_state_to_preferred_index_record key idx r st =
      (ps, if current_entry st key = Some e then st else upsert_current_object key e st)"
    using bind_only_path [OF hm, of idx key r] only idx(2) v(4) by auto
  then have s: "sync_current_state_for_key_from_index key idx st =
      (Inr ps, if current_entry st key = Some e then st else upsert_current_object key e st)"
    using v cur idx(2) by (auto simp: sync_current_state_for_key_from_index_def)
  have "store_ok (upsert_current_object key \<lparr>coe_manifest_hash = vr_manifest_hash r, coe_object_id = oid\<rparr> st)"
    by (rule upsert_ok [OF inv row(1)]) (use live v only row(2) in simp_all)
  then have up: "store_ok (upsert_current_object key e st)" using v(4) by simp
  have same: "store_ok st" if "current_entry st key = Some e"
  proof -
    have "st_current (upsert_current_object key e st) = hm_insert key e (st_current st)"
      by (simp add: upsert_current_object_def)
    also have "\<dots> = st_current st" using that hm
      by (metis current_entry_def map_of_SomeD update_triv)
    finally show ?thesis using up store_inv_cong [of "upsert_current_object key e st" st] by simp
  qed
  show ?thesis using s up same Some by auto
qed


lemma store_inv_mono: "store_inv X st \<Longrightarrow> X \<subseteq> Y \<Longrightarrow> store_inv Y st"
  unfolding store_inv_def by blast

lemma sync_and_snapshot_ok:
  assumes "store_inv {oid} st" "map_of (st_indexes st) oid = Some row" "live_manifest row = live_manifest idx"
    "index_ok idx" "vi_object_id idx = oid" "\<forall>k. object_id_for_key st k = Some oid \<longrightarrow> k = key"
    "object_id_for_key st key = None \<or> object_id_for_key st key = Some oid"
  shows "\<exists>sid st'. sync_and_snapshot env key idx touched prior create st = (Inr sid, st') \<and> store_ok st' \<and>
    st_indexes st' = st_indexes st \<and> st_content st' = st_content st \<and>
    current_entry st' key = wanted_entry idx \<and> (\<forall>k. k \<noteq> key \<longrightarrow> current_entry st' k = current_entry st k)"
proof -
  from sync_ok [OF assms] obtain ps st1 where
    s: "sync_current_state_for_key_from_index key idx st = (Inr ps, st1)" "store_ok st1"
      "st_indexes st1 = st_indexes st" "st_content st1 = st_content st" "current_entry st1 key = wanted_entry idx"
      "\<forall>k. k \<noteq> key \<longrightarrow> current_entry st1 k = current_entry st k" by blast
  define changed where "changed = (if current_state_binding st1 key \<noteq> prior then bts_collect (ps @ touched) else ps)"
  obtain r st2 where p: "persist_current_state_with_snapshot_batch env changed create (en_now env) st1 = (r, st2)"
    by (rule prod.exhaust)
  have "sync_and_snapshot env key idx touched prior create st = (r, st2)"
    using s(1) p by (simp add: sync_and_snapshot_def changed_def Let_def)
  moreover have "current_entry st2 = current_entry st1"
    using persist_snapshot(2) [OF p] by (simp add: current_entry_def fun_eq_iff)
  ultimately show ?thesis using persist_snapshot [OF p] s by auto
qed

lemma persist_and_sync_ok:
  assumes "store_ok st" "index_ok idx" "vi_object_id idx = oid" "\<not> is_blank oid"
    "\<forall>k. object_id_for_key st k = Some oid \<longrightarrow> k = key"
    "object_id_for_key st key = None \<or> object_id_for_key st key = Some oid"
  shows "\<exists>sid st'. persist_and_sync env oid key idx touched prior create st = (Inr sid, st') \<and> store_ok st' \<and>
    map_of (st_indexes st') = (map_of (st_indexes st))(oid \<mapsto> index_row idx) \<and> st_content st' = st_content st \<and>
    current_entry st' key = wanted_entry idx \<and> (\<forall>k. k \<noteq> key \<longrightarrow> current_entry st' k = current_entry st k)"
proof -
  from persist_index [OF assms(1-4)] obtain st1 where
    p: "persist_version_index_by_object_id oid idx st = (Inr (), st1)" "store_inv {oid} st1"
      "st_current st1 = st_current st" "st_content st1 = st_content st"
      "map_of (st_indexes st1) = (map_of (st_indexes st))(oid \<mapsto> index_row idx)" by blast
  have cur: "current_entry st1 = current_entry st" "object_id_for_key st1 = object_id_for_key st"
    using p(3) by (simp_all add: current_entry_def object_id_for_key_def fun_eq_iff)
  have "map_of (st_indexes st1) oid = Some (index_row idx)" using p(5) by simp
  from sync_and_snapshot_ok [OF p(2) this _ assms(2,3), of key env touched prior create] cur assms(5,6)
  obtain sid st' where "sync_and_snapshot env key idx touched prior create st1 = (Inr sid, st')" "store_ok st'"
      "st_indexes st' = st_indexes st1" "st_content st' = st_content st1" "current_entry st' key = wanted_entry idx"
      "\<forall>k. k \<noteq> key \<longrightarrow> current_entry st' k = current_entry st1 k" by auto
  then show ?thesis using p cur by (auto simp: persist_and_sync_def)
qed

section \<open>Fresh object ids\<close>

text \<open>What \<open>generate_object_id\<close> (a version-7 UUID) is relied on for: an id no object has yet.\<close>

definition fresh_id :: "store_env \<Rightarrow> store \<Rightarrow> bool" where
  "fresh_id env st \<longleftrightarrow> \<not> is_blank (en_object_id env) \<and> map_of (st_indexes st) (en_object_id env) = None \<and>
     (\<forall>k. object_id_for_key st k \<noteq> Some (en_object_id env))"

text \<open>A fresh id is only needed where the key has no object.\<close>

definition id_ok :: "store_env \<Rightarrow> store \<Rightarrow> string \<Rightarrow> bool" where
  "id_ok env st key \<longleftrightarrow> object_id_for_key st key \<noteq> None \<or> fresh_id env st"

lemma fresh_id_ok: "fresh_id env st \<Longrightarrow> id_ok env st key"
  by (simp add: id_ok_def)

lemma object_id_or_new_only:
  assumes "store_ok st" "id_ok env st key"
  shows "\<not> is_blank (object_id_or_new env st key)"
    "\<forall>k. object_id_for_key st k = Some (object_id_or_new env st key) \<longrightarrow> k = key"
    "object_id_for_key st key = None \<or> object_id_for_key st key = Some (object_id_or_new env st key)"
proof -
  show "\<not> is_blank (object_id_or_new env st key)"
  proof (cases "current_entry st key")
    case None
    then show ?thesis using assms(2) by (simp add: object_id_or_new_def object_id_for_key_def fresh_id_def id_ok_def)
  next
    case (Some e)
    from store_inv_live [OF assms(1) Some] obtain idx where
      "map_of (st_indexes st) (coe_object_id e) = Some idx" by auto
    from store_inv_index(3) [OF assms(1) this] show ?thesis
      using Some by (simp add: object_id_or_new_def object_id_for_key_def)
  qed
  show "\<forall>k. object_id_for_key st k = Some (object_id_or_new env st key) \<longrightarrow> k = key"
  proof (intro allI impI)
    fix k assume k: "object_id_for_key st k = Some (object_id_or_new env st key)"
    show "k = key"
    proof (cases "current_entry st key")
      case None
      then show ?thesis
        using k assms(2) by (auto simp: object_id_or_new_def object_id_for_key_def fresh_id_def id_ok_def)
    next
      case (Some e)
      then obtain e' where "current_entry st k = Some e'" "coe_object_id e' = coe_object_id e"
        using k by (auto simp: object_id_or_new_def object_id_for_key_def)
      then show ?thesis using store_inv_unique [OF assms(1) _ Some] by blast
    qed
  qed
  show "object_id_for_key st key = None \<or> object_id_for_key st key = Some (object_id_or_new env st key)"
    by (cases "object_id_for_key st key") (simp_all add: object_id_or_new_def)
qed


section \<open>Adding a version: put and tombstone\<close>

lemma index_or_empty_row:
  assumes "store_ok st" "version_of (index_or_empty env st oid) v = Some r"
  obtains row where "map_of (st_indexes st) oid = Some row"
    "index_or_empty env st oid = row\<lparr>vi_persisted_object_id := oid, vi_identity_was_normalized := False\<rparr>"
proof -
  have "load_version_index_by_object_id env st oid \<noteq> None"
    using assms(2) by (cases "load_version_index_by_object_id env st oid")
      (simp_all add: index_or_empty_def empty_version_index_def)
  then obtain row where "map_of (st_indexes st) oid = Some row"
    using load_index [OF assms(1), of env oid] by auto
  then show ?thesis using that load_index [OF assms(1), of env oid] by (simp add: index_or_empty_def)
qed

lemma resync_ok:
  assumes "store_ok st" "id_ok env st key" "oid = object_id_or_new env st key"
    "version_of (index_or_empty env st oid) v = Some r"
  shows "\<exists>sid st'. sync_and_snapshot env key (index_or_empty env st oid) touched prior create st = (Inr sid, st') \<and>
    store_ok st' \<and> st_indexes st' = st_indexes st \<and> st_content st' = st_content st"
proof -
  obtain row where row: "map_of (st_indexes st) oid = Some row"
    "index_or_empty env st oid = row\<lparr>vi_persisted_object_id := oid, vi_identity_was_normalized := False\<rparr>"
    by (rule index_or_empty_row [OF assms(1,4)])
  have idx: "index_ok (index_or_empty env st oid)" "vi_object_id (index_or_empty env st oid) = oid"
    using index_or_empty_ok [OF assms(1)] by blast+
  have "live_manifest row = live_manifest (index_or_empty env st oid)" using row(2) by simp
  from sync_and_snapshot_ok [OF store_inv_mono [OF assms(1)] row(1) this idx] object_id_or_new_only [OF assms(1,2)]
  show ?thesis unfolding assms(3) by (metis empty_subsetI)
qed

lemma new_version_ok:
  assumes "store_ok st" "id_ok env st key" "oid = object_id_or_new env st key"
    "version_of (index_or_empty env st oid) (vr_version_id r) = None" "vr_object_id r = oid"
  shows "\<exists>sid st'. persist_and_sync env oid key (add_version r (index_or_empty env st oid)) touched prior create st
      = (Inr sid, st') \<and> store_ok st' \<and> st_content st' = st_content st \<and>
    map_of (st_indexes st') = (map_of (st_indexes st))
      (oid \<mapsto> index_row (add_version r (index_or_empty env st oid))) \<and>
    current_entry st' key = wanted_entry (add_version r (index_or_empty env st oid)) \<and>
    (\<forall>k. k \<noteq> key \<longrightarrow> current_entry st' k = current_entry st k)"
proof -
  let ?idx = "index_or_empty env st oid"
  have idx: "index_ok ?idx" "vi_object_id ?idx = oid" using index_or_empty_ok [OF assms(1)] by blast+
  have "index_ok (add_version r ?idx)" using add_version_index_ok [OF idx(1) assms(4)] idx(2) assms(5) by simp
  moreover have "vi_object_id (add_version r ?idx) = oid" using idx(2) by (simp add: add_version_def Let_def)
  ultimately show ?thesis
    using persist_and_sync_ok [OF assms(1), of "add_version r ?idx" oid key env touched prior create]
      object_id_or_new_only [OF assms(1,2)] unfolding assms(3) by blast
qed


text \<open>States that differ outside the tables of current objects and indexes.\<close>

definition same_tables :: "store \<Rightarrow> store \<Rightarrow> bool" where
  "same_tables a b \<longleftrightarrow> st_current a = st_current b \<and> st_indexes a = st_indexes b \<and> st_heads a = st_heads b"

lemma same_tables_facts:
  assumes "same_tables a b"
  shows "store_inv X a = store_inv X b" "current_entry a = current_entry b"
    "object_id_for_key a = object_id_for_key b" "index_or_empty env a = index_or_empty env b"
    "object_id_or_new env a = object_id_or_new env b" "fresh_id env a = fresh_id env b" "id_ok env a = id_ok env b"
    "load_version_index_by_object_id env a = load_version_index_by_object_id env b"
    "st_indexes a = st_indexes b" "list_keys_for_object_id a = list_keys_for_object_id b"
    "current_state_binding a = current_state_binding b"
proof -
  show "store_inv X a = store_inv X b" using assms by (intro store_inv_cong) (simp_all add: same_tables_def)
  show c: "current_entry a = current_entry b" and "st_indexes a = st_indexes b"
    and "list_keys_for_object_id a = list_keys_for_object_id b"
    using assms by (auto simp: same_tables_def current_entry_def list_keys_for_object_id_def)
  then show o: "object_id_for_key a = object_id_for_key b"
    and "current_state_binding a = current_state_binding b"
    by (auto simp: object_id_for_key_def current_state_binding_def)
  show l: "load_version_index_by_object_id env a = load_version_index_by_object_id env b"
    using assms by (simp add: fun_eq_iff load_version_index_by_object_id_def same_tables_def)
  show "index_or_empty env a = index_or_empty env b" using l by (simp add: fun_eq_iff index_or_empty_def)
  show "object_id_or_new env a = object_id_or_new env b" using o by (simp add: fun_eq_iff object_id_or_new_def)
  show f: "fresh_id env a = fresh_id env b" using o assms by (simp add: fresh_id_def same_tables_def)
  show "id_ok env a = id_ok env b" using o f by (simp add: id_ok_def fun_eq_iff)
qed

lemma same_tables_frame [simp]:
  "same_tables (maybe_rotate_snapshot_batch now ps st) st"
  "same_tables (rotate_if b now ps st) st"
  "same_tables (mark_manifest_locally_owned now h st) st"
  "same_tables (st\<lparr>st_content := cs\<rparr>) st" "same_tables st st"
  by (simp_all add: same_tables_def)

lemma same_tables_trans: "same_tables a b \<Longrightarrow> same_tables b c \<Longrightarrow> same_tables a c"
  by (simp add: same_tables_def)

text \<open>Versions are only added: an index of \<open>st\<close> is still there, with every version it had, of which
  at most the state was changed, to confirmed.\<close>

definition confirms :: "file_version_record \<Rightarrow> file_version_record \<Rightarrow> bool" where
  "confirms r r' \<longleftrightarrow> r' = r \<or> r' = r\<lparr>vr_state := Confirmed\<rparr>"

lemma confirms_trans: "confirms a b \<Longrightarrow> confirms b c \<Longrightarrow> confirms a c"
  by (auto simp: confirms_def)

definition versions_kept :: "store \<Rightarrow> store \<Rightarrow> bool" where
  "versions_kept st st' \<longleftrightarrow>
     (\<forall>oid idx v r. map_of (st_indexes st) oid = Some idx \<longrightarrow> version_of idx v = Some r \<longrightarrow>
        (\<exists>idx' r'. map_of (st_indexes st') oid = Some idx' \<and> version_of idx' v = Some r' \<and> confirms r r'))"

lemma versions_kept_refl: "st_indexes st' = st_indexes st \<Longrightarrow> versions_kept st st'"
  by (simp add: versions_kept_def confirms_def)

lemma versions_kept_trans:
  assumes "versions_kept a b" "versions_kept b c"
  shows "versions_kept a c"
  unfolding versions_kept_def
proof (intro allI impI)
  fix oid idx v r assume "map_of (st_indexes a) oid = Some idx" "version_of idx v = Some r"
  then obtain idx1 r1 where 1: "map_of (st_indexes b) oid = Some idx1" "version_of idx1 v = Some r1" "confirms r r1"
    using assms(1) unfolding versions_kept_def by blast
  then obtain idx2 r2 where "map_of (st_indexes c) oid = Some idx2" "version_of idx2 v = Some r2" "confirms r1 r2"
    using assms(2) unfolding versions_kept_def by blast
  then show "\<exists>idx' r'. map_of (st_indexes c) oid = Some idx' \<and> version_of idx' v = Some r' \<and> confirms r r'"
    using confirms_trans [OF 1(3)] by blast
qed

lemma index_or_empty_versions:
  assumes "store_ok st" "map_of (st_indexes st) oid = Some idx"
  shows "version_of (index_or_empty env st oid) = version_of idx"
  using load_index [OF assms(1), of env oid] assms(2) by (simp add: index_or_empty_def)

lemma versions_kept_update:
  assumes "store_ok st" "map_of (st_indexes st') = (map_of (st_indexes st))(oid \<mapsto> idx')"
    "\<And>v r. version_of (index_or_empty env st oid) v = Some r \<Longrightarrow> \<exists>r'. version_of idx' v = Some r' \<and> confirms r r'"
  shows "versions_kept st st'"
  unfolding versions_kept_def
proof (intro allI impI)
  fix o1 idx v r assume *: "map_of (st_indexes st) o1 = Some idx" "version_of idx v = Some r"
  show "\<exists>idx' r'. map_of (st_indexes st') o1 = Some idx' \<and> version_of idx' v = Some r' \<and> confirms r r'"
  proof (cases "o1 = oid")
    case True
    then show ?thesis
      using * assms(2) assms(3) [of v r] index_or_empty_versions [OF assms(1), of oid idx env] by simp
  next
    case False
    then show ?thesis using * assms(2) by (simp add: confirms_def)
  qed
qed

lemma add_version_lookup:
  "version_of (add_version r idx) u = (if u = vr_version_id r then Some r else version_of idx u)"
  "version_of (add_version_recomputed r idx) u = (if u = vr_version_id r then Some r else version_of idx u)"
  by (simp_all add: add_version_def add_version_recomputed_def Let_def update_conv')


lemma versions_kept_tables: "same_tables a st \<Longrightarrow> versions_kept a st' \<Longrightarrow> versions_kept st st'"
  by (simp add: versions_kept_def same_tables_def)

text \<open>The two ways a put or a tombstone changes the tables, from any state with the same tables.\<close>

lemma resync_step:
  assumes "store_ok st" "id_ok env st key" "same_tables a st" "oid = object_id_or_new env st key"
    "version_of (index_or_empty env st oid) v = Some r"
  shows "\<exists>sid st'. sync_and_snapshot env key (index_or_empty env st oid) touched prior create a = (Inr sid, st') \<and>
    store_ok st' \<and> st_indexes st' = st_indexes st \<and> st_content st' = st_content a"
proof -
  note eq = same_tables_facts [OF assms(3)]
  show ?thesis
    using resync_ok [of a env key oid v r touched prior create] assms(1,2,4,5)
    unfolding eq(1) eq(4)[of env] eq(5)[of env] eq(7)[of env] eq(9) by blast
qed

lemma new_version_step:
  assumes "store_ok st" "id_ok env st key" "same_tables a st" "oid = object_id_or_new env st key"
    "version_of (index_or_empty env st oid) (vr_version_id r) = None" "vr_object_id r = oid"
  shows "\<exists>sid st'. persist_and_sync env oid key (add_version r (index_or_empty env st oid)) touched prior create a
      = (Inr sid, st') \<and> store_ok st' \<and> st_content st' = st_content a \<and> versions_kept st st' \<and>
    map_of (st_indexes st') = (map_of (st_indexes st))
      (oid \<mapsto> index_row (add_version r (index_or_empty env st oid))) \<and>
    current_entry st' key = wanted_entry (add_version r (index_or_empty env st oid)) \<and>
    (\<forall>k. k \<noteq> key \<longrightarrow> current_entry st' k = current_entry st k)"
proof -
  note eq = same_tables_facts [OF assms(3)]
  from new_version_ok [of a env key oid r touched prior create] assms(1,2,4-6)
  obtain sid st' where st': "persist_and_sync env oid key (add_version r (index_or_empty env st oid)) touched prior create a
      = (Inr sid, st')" "store_ok st'" "st_content st' = st_content a"
    "map_of (st_indexes st') = (map_of (st_indexes st))
      (oid \<mapsto> index_row (add_version r (index_or_empty env st oid)))"
    "current_entry st' key = wanted_entry (add_version r (index_or_empty env st oid))"
    "\<forall>k. k \<noteq> key \<longrightarrow> current_entry st' k = current_entry st k"
    unfolding eq(1) eq(2) eq(4)[of env] eq(5)[of env] eq(7)[of env] eq(9) by blast
  have "versions_kept st st'"
    by (rule versions_kept_update [OF assms(1) st'(4), of env])
      (use assms(5) in \<open>auto simp: add_version_lookup confirms_def\<close>)
  then show ?thesis using st' by blast
qed

lemma put_cases:
  fixes key :: string
  assumes "store_ok st" "id_ok env st key"
  defines "oid \<equiv> object_id_or_new env st key"
  defines "idx \<equiv> index_or_empty env st oid"
  obtains
    (failed) e st' where "finalize_put_from_manifest_hash env key h opts n d st = (Inl e, st')" "same_tables st' st"
      "st_content st' = st_content st"
      "(\<exists>p \<in> set (put_parents opts idx). version_of idx p = None) \<or> put_version_id env opts h = None \<or>
         (\<exists>v r. put_version_id env opts h = Some v \<and> version_of idx v = Some r \<and> vr_manifest_hash r \<noteq> h)"
  | (unchanged) pv r st' pr where "finalize_put_from_manifest_hash env key h opts n d st = (Inr pr, st')"
      "same_tables st' st" "st_content st' = st_content st" "same_as_preferred opts idx h = Some (pv, r)"
      "pr_version_id pr = pv" "pr_created_new_version pr = False"
  | (existing) v r st' pr where "finalize_put_from_manifest_hash env key h opts n d st = (Inr pr, st')"
      "store_ok st'" "st_indexes st' = st_indexes st" "st_content st' = st_content st"
      "version_of idx v = Some r" "pr_version_id pr = v" "pr_created_new_version pr = False"
      "vr_manifest_hash r = h" "put_version_id env opts h = Some v"
  | (created) v st' pr where "finalize_put_from_manifest_hash env key h opts n d st = (Inr pr, st')"
      "store_ok st'" "versions_kept st st'" "st_content st' = st_content st"
      "pr_version_id pr = v" "pr_object_id pr = oid" "pr_created_new_version pr = True" "version_of idx v = None"
      "map_of (st_indexes st') = (map_of (st_indexes st))
         (oid \<mapsto> index_row (add_version (put_record env opts v oid h (put_parents opts idx) key) idx))"
      "current_entry st' key = wanted_entry (add_version (put_record env opts v oid h (put_parents opts idx) key) idx)"
      "\<forall>k. k \<noteq> key \<longrightarrow> current_entry st' k = current_entry st k"
      "\<forall>p \<in> set (put_parents opts idx). version_of idx p \<noteq> None" "put_version_id env opts h = Some v"
proof (cases "find (\<lambda>p. version_of idx p = None) (put_parents opts idx)")
  case (Some p)
  then have "finalize_put_from_manifest_hash env key h opts n d st = (Inl (ParentMissing p), st)"
    by (simp add: finalize_put_from_manifest_hash_def oid_def idx_def Let_def)
  then show ?thesis by (rule failed) (use Some in \<open>auto simp: find_Some_iff\<close>)
next
  case None
  let ?st1 = "mark_manifest_locally_owned (en_now env) h st"
  note defs = finalize_put_from_manifest_hash_def Let_def
  note folds = oid_def [symmetric] idx_def [symmetric]
  have parents: "\<forall>p \<in> set (put_parents opts idx). version_of idx p \<noteq> None"
    using None by (simp add: find_None_iff)
  show ?thesis
  proof (cases "put_version_id env opts h")
    case v: None
    then have "finalize_put_from_manifest_hash env key h opts n d st = (Inl Panic, ?st1)"
      using None by (simp add: defs folds)
    then show ?thesis by (rule failed) (use v in simp_all)
  next
    case v: (Some v)
    define touched where "touched = current_state_touched_paths_for_object_id ?st1 oid key"
    define prior where "prior = current_state_binding ?st1 key"
    let ?st2 = "rotate_if (po_create_snapshot opts) (en_now env) touched ?st1"
    have same: "same_tables ?st2 st" by (rule same_tables_trans [OF same_tables_frame(2,3)])
    show ?thesis
    proof (cases "version_of idx v")
      case r: (Some r)
      show ?thesis
      proof (cases "vr_manifest_hash r = h")
        case False
        then have "finalize_put_from_manifest_hash env key h opts n d st = (Inl VersionIdCollision, ?st1)"
          using None v r by (simp add: defs folds)
        then show ?thesis by (rule failed) (use v r False in simp_all)
      next
        case True
        from resync_step [OF assms(1,2) same oid_def [THEN meta_eq_to_obj_eq] r [unfolded idx_def],
            of touched prior "po_create_snapshot opts"]
        obtain sid st' where st': "sync_and_snapshot env key idx touched prior (po_create_snapshot opts) ?st2 = (Inr sid, st')"
            "store_ok st'" "st_indexes st' = st_indexes st" "st_content st' = st_content st"
          unfolding idx_def by auto
        then obtain pr where "finalize_put_from_manifest_hash env key h opts n d st = (Inr pr, st')"
            "pr_version_id pr = v" "pr_created_new_version pr = False"
          using None v r True by (simp add: defs folds touched_def prior_def)
        then show ?thesis using existing st' r True v by blast
      qed
    next
      case nv: None
      show ?thesis
      proof (cases "same_as_preferred opts idx h")
        case (Some pr)
        obtain pv r where pr: "pr = (pv, r)" by (rule prod.exhaust)
        then obtain res where "finalize_put_from_manifest_hash env key h opts n d st = (Inr res, ?st1)"
            "pr_version_id res = pv" "pr_created_new_version res = False"
          using None v nv Some by (simp add: defs folds)
        then show ?thesis using unchanged Some pr by (metis frame_simps(12) same_tables_frame(3))
      next
        case ns: None
        let ?r = "put_record env opts v oid h (put_parents opts idx) key"
        have "version_of (index_or_empty env st oid) (vr_version_id ?r) = None" "vr_object_id ?r = oid"
          using nv by (simp_all add: put_record_def idx_def)
        from new_version_step [OF assms(1,2) same oid_def [THEN meta_eq_to_obj_eq] this,
            of touched prior "po_create_snapshot opts"]
        obtain sid st' where st': "persist_and_sync env oid key (add_version ?r idx) touched prior (po_create_snapshot opts) ?st2 = (Inr sid, st')"
            "store_ok st'" "st_content st' = st_content st" "versions_kept st st'"
            "map_of (st_indexes st') = (map_of (st_indexes st))(oid \<mapsto> index_row (add_version ?r idx))"
            "current_entry st' key = wanted_entry (add_version ?r idx)"
            "\<forall>k. k \<noteq> key \<longrightarrow> current_entry st' k = current_entry st k"
          unfolding idx_def by auto
        then obtain pr where "finalize_put_from_manifest_hash env key h opts n d st = (Inr pr, st')"
            "pr_version_id pr = v" "pr_object_id pr = oid" "pr_created_new_version pr = True"
          using None v nv ns by (simp add: defs folds touched_def prior_def)
        then show ?thesis using created st' nv parents v by blast
      qed
    qed
  qed
qed

end
