(* ===== verification/Store_Mutations.thy ===== *)
theory Store_Mutations
  imports Store_Operations
begin

text \<open>
  The remaining mutations of the store: tombstones, commits, deletion of a version, renaming,
  copying and restoring.  Each keeps the store invariant, and all but deletion keep every version.
\<close>

section \<open>Tombstones\<close>

lemma tombstone_cases:
  fixes key :: string and opts :: put_options
  assumes "store_ok st" "id_ok env st key"
  defines "oid \<equiv> object_id_or_new env st key"
  defines "idx \<equiv> index_or_empty env st oid"
  defines "v \<equiv> unwrap_or (''tomb-'' @ en_nanos env) (po_explicit_version_id opts)"
  obtains
    (failed) e where "tombstone_object_single env key opts st = (Inl e, st)"
      "(\<exists>p \<in> set (put_parents opts idx). version_of idx p = None) \<or> (\<exists>r. version_of idx v = Some r \<and> \<not> is_tombstone r)"
  | (existing) r st' tr where "tombstone_object_single env key opts st = (Inr tr, st')"
      "store_ok st'" "st_indexes st' = st_indexes st" "st_content st' = st_content st"
      "version_of idx v = Some r" "is_tombstone r"
  | (created) st' tr where "tombstone_object_single env key opts st = (Inr tr, st')"
      "store_ok st'" "versions_kept st st'" "st_content st' = st_content st"
      "tr_version_id tr = v" "tr_object_id tr = oid" "version_of idx v = None"
      "map_of (st_indexes st') = (map_of (st_indexes st))
         (oid \<mapsto> index_row (add_version (put_record env opts v oid TOMBSTONE_MANIFEST_HASH (put_parents opts idx) key) idx))"
      "current_entry st' key =
         wanted_entry (add_version (put_record env opts v oid TOMBSTONE_MANIFEST_HASH (put_parents opts idx) key) idx)"
      "\<forall>k. k \<noteq> key \<longrightarrow> current_entry st' k = current_entry st k"
proof (cases "find (\<lambda>p. version_of idx p = None) (put_parents opts idx)")
  case (Some p)
  then have "tombstone_object_single env key opts st = (Inl (ParentMissing p), st)"
    by (simp add: tombstone_object_single_def oid_def idx_def Let_def)
  then show ?thesis by (rule failed) (use Some in \<open>auto simp: find_Some_iff\<close>)
next
  case None
  note defs = tombstone_object_single_def Let_def
  note folds = oid_def [symmetric] idx_def [symmetric] v_def [simplified, symmetric]
  define touched where "touched = current_state_touched_paths_for_object_id st oid key"
  define prior where "prior = current_state_binding st key"
  let ?st1 = "rotate_if (po_create_snapshot opts) (en_now env) touched st"
  have same: "same_tables ?st1 st" by simp
  show ?thesis
  proof (cases "version_of idx v")
    case r: (Some r)
    show ?thesis
    proof (cases "is_tombstone r")
      case False
      then have "tombstone_object_single env key opts st = (Inl VersionIdCollision, st)"
        using None r by (simp add: defs folds)
      then show ?thesis by (rule failed) (use r False in simp)
    next
      case True
      from resync_step [OF assms(1,2) same oid_def [THEN meta_eq_to_obj_eq] r [unfolded idx_def],
          of touched prior "po_create_snapshot opts"]
      obtain sid st' where st': "sync_and_snapshot env key idx touched prior (po_create_snapshot opts) ?st1 = (Inr sid, st')"
          "store_ok st'" "st_indexes st' = st_indexes st" "st_content st' = st_content st"
        unfolding idx_def by auto
      then obtain tr where "tombstone_object_single env key opts st = (Inr tr, st')"
        using None r True by (simp add: defs folds touched_def prior_def)
      then show ?thesis using existing st' r True by blast
    qed
  next
    case nv: None
    let ?r = "put_record env opts v oid TOMBSTONE_MANIFEST_HASH (put_parents opts idx) key"
    have "version_of (index_or_empty env st oid) (vr_version_id ?r) = None" "vr_object_id ?r = oid"
      using nv by (simp_all add: put_record_def idx_def)
    from new_version_step [OF assms(1,2) same oid_def [THEN meta_eq_to_obj_eq] this,
        of touched prior "po_create_snapshot opts"]
    obtain sid st' where st': "persist_and_sync env oid key (add_version ?r idx) touched prior (po_create_snapshot opts) ?st1 = (Inr sid, st')"
        "store_ok st'" "st_content st' = st_content st" "versions_kept st st'"
        "map_of (st_indexes st') = (map_of (st_indexes st))(oid \<mapsto> index_row (add_version ?r idx))"
        "current_entry st' key = wanted_entry (add_version ?r idx)"
        "\<forall>k. k \<noteq> key \<longrightarrow> current_entry st' k = current_entry st k"
      unfolding idx_def by auto
    then obtain tr where "tombstone_object_single env key opts st = (Inr tr, st')"
        "tr_version_id tr = v" "tr_object_id tr = oid"
      using None nv by (simp add: defs folds touched_def prior_def)
    then show ?thesis using created st' nv by blast
  qed
qed

text \<open>What every operation that only adds versions promises.\<close>

definition grows :: "store \<Rightarrow> store \<Rightarrow> bool" where
  "grows st st' \<longleftrightarrow> store_ok st' \<and> versions_kept st st'"

lemma growsI: "store_ok st' \<Longrightarrow> versions_kept st st' \<Longrightarrow> grows st st'"
  by (simp add: grows_def)

lemma grows_refl: "store_ok st \<Longrightarrow> grows st st"
  by (simp add: grows_def versions_kept_refl)

lemma grows_same: "same_tables st' st \<Longrightarrow> store_ok st \<Longrightarrow> grows st st'"
  by (simp add: grows_def same_tables_facts versions_kept_refl)

lemma grows_indexes: "store_ok st' \<Longrightarrow> st_indexes st' = st_indexes st \<Longrightarrow> grows st st'"
  by (simp add: grows_def versions_kept_refl)

lemma grows_trans: "grows a b \<Longrightarrow> grows b c \<Longrightarrow> grows a c"
  using versions_kept_trans by (auto simp: grows_def)

lemma put_grows:
  assumes "store_ok st" "id_ok env st key"
  shows "grows st (snd (finalize_put_from_manifest_hash env key h opts n d st))"
  by (rule put_cases [OF assms, of h opts n d])
    (auto intro: grows_same [OF _ assms(1)] grows_indexes growsI)

lemma tombstone_grows:
  assumes "store_ok st" "id_ok env st key"
  shows "grows st (snd (tombstone_object_single env key opts st))"
  by (rule tombstone_cases [OF assms, of opts])
    (auto intro: grows_refl [OF assms(1)] grows_indexes growsI)


section \<open>Commit\<close>

lemma entry_only:
  assumes "store_ok st" "object_id_for_key st key = Some oid"
  shows "\<forall>k. object_id_for_key st k = Some oid \<longrightarrow> k = key"
proof -
  from assms(2) obtain e where e: "current_entry st key = Some e" "coe_object_id e = oid"
    by (auto simp: object_id_for_key_def)
  show ?thesis
    using store_inv_unique [OF assms(1) _ e(1)] e(2) by (auto simp: object_id_for_key_def)
qed

lemma loaded_versions_kept:
  assumes "store_ok st" "load_version_index_by_object_id env st oid = Some idx"
    "map_of (st_indexes st') = (map_of (st_indexes st))(oid \<mapsto> idx')"
    "\<And>v r. version_of idx v = Some r \<Longrightarrow> \<exists>r'. version_of idx' v = Some r' \<and> confirms r r'"
  shows "versions_kept st st'"
  by (rule versions_kept_update [OF assms(1,3), of env])
    (use assms(2,4) in \<open>simp add: index_or_empty_def\<close>)

lemma commit_cases:
  assumes "store_ok st"
  obtains (unchanged) b where "commit_version env key v st = (Inr b, st)"
      "b \<longleftrightarrow> (\<exists>oid idx r. object_id_for_key st key = Some oid \<and>
         load_version_index_by_object_id env st oid = Some idx \<and> version_of idx v = Some r \<and> vr_state r = Confirmed)"
  | (confirmed) st' oid idx r where "commit_version env key v st = (Inr True, st')" "store_ok st'"
      "object_id_for_key st key = Some oid" "load_version_index_by_object_id env st oid = Some idx"
      "version_of idx v = Some r" "vr_state r = Provisional"
      "map_of (st_indexes st') = (map_of (st_indexes st))(oid \<mapsto> index_row (set_confirmed v idx))"
      "st_content st' = st_content st" "current_entry st' key = wanted_entry (set_confirmed v idx)"
      "\<forall>k. k \<noteq> key \<longrightarrow> current_entry st' k = current_entry st k"
proof (cases "Option.bind (Option.bind (object_id_for_key st key) (load_version_index_by_object_id env st)) (\<lambda>idx. version_of idx v)")
  case None
  then show ?thesis
    by (intro unchanged [of False]) (auto simp: commit_version_def bind_eq_None_conv split: option.splits)
next
  case (Some r)
  then obtain oid idx where c: "object_id_for_key st key = Some oid"
      "load_version_index_by_object_id env st oid = Some idx" "version_of idx v = Some r"
    by (auto simp: bind_eq_Some_conv)
  show ?thesis
  proof (cases "vr_state r = Confirmed")
    case True
    then show ?thesis using c by (intro unchanged [of True]) (simp_all add: commit_version_def)
  next
    case False
    then have p: "vr_state r = Provisional" by (cases "vr_state r") simp_all
  define touched where "touched = current_state_touched_paths_for_object_id st oid key"
  define prior where "prior = current_state_binding st key"
  let ?st1 = "maybe_rotate_snapshot_batch (en_now env) touched st"
  note idx = load_index_ok [OF assms c(2)]
  have "vi_object_id (set_confirmed v idx) = oid" using idx(2) by (simp add: set_confirmed_def Let_def)
  moreover have "store_ok ?st1" using assms by simp
  moreover have "\<forall>k. object_id_for_key ?st1 k = Some oid \<longrightarrow> k = key" using entry_only [OF assms c(1)] by simp
  moreover have "object_id_for_key ?st1 key = None \<or> object_id_for_key ?st1 key = Some oid" using c(1) by simp
  ultimately obtain sid st' where st': "persist_and_sync env oid key (set_confirmed v idx) touched prior True ?st1 = (Inr sid, st')"
      "store_ok st'" "map_of (st_indexes st') = (map_of (st_indexes st))(oid \<mapsto> index_row (set_confirmed v idx))"
      "st_content st' = st_content st" "current_entry st' key = wanted_entry (set_confirmed v idx)"
      "\<forall>k. k \<noteq> key \<longrightarrow> current_entry st' k = current_entry st k"
    using persist_and_sync_ok [of ?st1 "set_confirmed v idx" oid key env touched prior True]
      set_confirmed_index_ok [OF idx(1)] idx(3) unfolding frame_simps frame_entry by blast
  then have "commit_version env key v st = (Inr True, st')"
    using c p by (simp add: commit_version_def Let_def touched_def prior_def)
  then show ?thesis using confirmed c p st' by blast
  qed
qed

lemma commit_grows:
  assumes "store_ok st"
  shows "grows st (snd (commit_version env key v st))"
proof (rule commit_cases [OF assms, of env key v])
  fix b assume "commit_version env key v st = (Inr b, st)"
  then show ?thesis using grows_refl [OF assms] by simp
next
  fix st' oid idx r
  assume *: "commit_version env key v st = (Inr True, st')" "store_ok st'"
    "load_version_index_by_object_id env st oid = Some idx"
    "map_of (st_indexes st') = (map_of (st_indexes st))(oid \<mapsto> index_row (set_confirmed v idx))"
  have "versions_kept st st'"
    by (rule loaded_versions_kept [OF assms *(3,4)]) (auto simp: set_confirmed_versions confirms_def)
  then show ?thesis using * by (simp add: growsI)
qed


section \<open>Copying and restoring\<close>

text \<open>What the clock is relied on for when a version id is made from it: no version has that id.\<close>

definition fresh_clock :: "store_env \<Rightarrow> store \<Rightarrow> bool" where
  "fresh_clock env st \<longleftrightarrow> fresh_id env st \<and>
     (\<forall>kind h v oid idx. fresh_version_id kind env h = Some v \<longrightarrow> map_of (st_indexes st) oid = Some idx \<longrightarrow>
        version_of idx v = None)"

lemma fresh_clock_same: "same_tables a b \<Longrightarrow> fresh_clock env a = fresh_clock env b"
  by (simp add: fresh_clock_def same_tables_facts)

lemma fresh_clock_version:
  assumes "fresh_clock env st" "store_ok st" "fresh_version_id kind env h = Some v"
  shows "version_of (index_or_empty env st oid) v = None"
proof (cases "map_of (st_indexes st) oid")
  case None
  then show ?thesis
    using load_index [OF assms(2), of env oid] by (simp add: index_or_empty_def empty_version_index_def)
next
  case (Some idx)
  then have "version_of idx v = None" using assms(1,3) unfolding fresh_clock_def by blast
  then show ?thesis using index_or_empty_versions [OF assms(2) Some, of env] by simp
qed

lemma object_id_or_new_index:
  assumes "store_ok st"
  shows "object_id_or_new env st key = en_object_id env \<or> map_of (st_indexes st) (object_id_or_new env st key) \<noteq> None"
proof (cases "current_entry st key")
  case None
  then show ?thesis by (simp add: object_id_or_new_def object_id_for_key_def)
next
  case (Some e)
  from store_inv_live [OF assms Some] obtain idx where "map_of (st_indexes st) (coe_object_id e) = Some idx" by auto
  then show ?thesis using Some by (simp add: object_id_or_new_def object_id_for_key_def)
qed

text \<open>Only the id of this instant may be a new object.\<close>

definition ids_added :: "store_env \<Rightarrow> store \<Rightarrow> store \<Rightarrow> bool" where
  "ids_added env st st' \<longleftrightarrow> (\<forall>oid. map_of (st_indexes st') oid \<noteq> None \<longrightarrow>
     map_of (st_indexes st) oid \<noteq> None \<or> oid = en_object_id env)"

lemma persist_copied_cases:
  assumes "store_ok st" "fresh_clock env st"
  obtains (panic) "persist_copied_version_to_target env source target h src kind create st = (Inl Panic, st)"
      "fresh_version_id kind env h = None"
  | (copied) v st' where "persist_copied_version_to_target env source target h src kind create st = (Inr Applied, st')"
      "grows st st'" "ids_added env st st'" "fresh_version_id kind env h = Some v" "st_content st' = st_content st"
      "current_entry st' target = wanted_entry (add_version_recomputed (copied_record env v (object_id_or_new env st target) h src
         (opt_list (vi_preferred_head_version_id (index_or_empty env st (object_id_or_new env st target)))) source target)
         (index_or_empty env st (object_id_or_new env st target)))"
      "\<forall>k. k \<noteq> target \<longrightarrow> current_entry st' k = current_entry st k"
proof (cases "fresh_version_id kind env h")
  case None
  then show ?thesis using panic by (simp add: persist_copied_version_to_target_def Let_def)
next
  case (Some v)
  let ?oid = "object_id_or_new env st target"
  let ?idx = "index_or_empty env st ?oid"
  define r where "r = copied_record env v ?oid h src (opt_list (vi_preferred_head_version_id ?idx)) source target"
  let ?idx1 = "add_version_recomputed r ?idx"
  have fresh: "fresh_id env st" using assms(2) by (simp add: fresh_clock_def)
  have idx: "index_ok ?idx" "vi_object_id ?idx = ?oid" using index_or_empty_ok [OF assms(1)] by blast+
  have r: "vr_version_id r = v" "vr_object_id r = vi_object_id ?idx"
    by (simp_all add: r_def copied_record_def idx(2))
  have "index_ok ?idx1" by (rule add_version_recomputed_index_ok [OF idx(1) r(2)])
  moreover have "vi_object_id ?idx1 = ?oid" by (simp add: add_version_recomputed_def Let_def idx(2))
  ultimately obtain sid st' where st': "persist_and_sync env ?oid target ?idx1
      (current_state_touched_paths_for_object_id st ?oid target) (current_state_binding st target) create st = (Inr sid, st')"
      "store_ok st'" "map_of (st_indexes st') = (map_of (st_indexes st))(?oid \<mapsto> index_row ?idx1)"
      "st_content st' = st_content st" "current_entry st' target = wanted_entry ?idx1"
      "\<forall>k. k \<noteq> target \<longrightarrow> current_entry st' k = current_entry st k"
    using persist_and_sync_ok [OF assms(1), of ?idx1 ?oid target env]
      object_id_or_new_only [OF assms(1) fresh_id_ok [OF fresh, of target]] by blast
  have "versions_kept st st'"
    by (rule versions_kept_update [OF assms(1) st'(3), of env])
      (use fresh_clock_version [OF assms(2,1) Some] r(1) in \<open>auto simp: add_version_lookup confirms_def\<close>)
  then have "grows st st'" using st'(2) by (simp add: growsI)
  moreover have "persist_copied_version_to_target env source target h src kind create st = (Inr Applied, st')"
    using Some st'(1) by (simp add: persist_copied_version_to_target_def Let_def r_def)
  moreover have "ids_added env st st'"
    using st'(3) object_id_or_new_index [OF assms(1), of env target] by (auto simp: ids_added_def)
  ultimately show ?thesis using copied Some st'(4-6) unfolding r_def by blast
qed

lemma persist_copied_grows:
  assumes "store_ok st" "fresh_clock env st"
  shows "grows st (snd (persist_copied_version_to_target env source target h src kind create st))"
  by (rule persist_copied_cases [OF assms, of source target h src kind create]) (auto intro: grows_refl assms(1))

lemma clone_same:
  assumes "clone_for_target env h target st = Some (h1, st1)"
  shows "same_tables st1 st"
  using assms same_tables_trans [OF same_tables_frame(3,4)]
  by (auto simp: clone_for_target_def split: option.splits)

lemma grows_from: "same_tables a st \<Longrightarrow> grows a st' \<Longrightarrow> grows st st'"
  using versions_kept_tables by (auto simp: grows_def)

lemma restore_grows:
  assumes "store_ok st" "fresh_clock env st"
  shows "grows st (snd (restore_object_path_from_source env src source target create overwrite st))"
proof -
  let ?st1 = "rotate_if create (en_now env) [target] st"
  note base = grows_refl [OF assms(1)] grows_same [OF same_tables_frame(2) assms(1), of create "en_now env" "[target]"]
  show ?thesis
  proof (cases "clone_for_target env (cs_manifest_hash src) target ?st1")
    case None
    then show ?thesis using base by (simp add: restore_object_path_from_source_def Let_def)
  next
    case (Some hs)
    obtain h st2 where hs: "hs = (h, st2)" by (rule prod.exhaust)
    then have same: "same_tables st2 st"
      using clone_same Some same_tables_trans same_tables_frame(2) by blast
    then have "store_ok st2" "fresh_clock env st2"
      using assms same_tables_facts [OF same] fresh_clock_same [OF same] by simp_all
    from persist_copied_grows [OF this] same
    have "grows st (snd (persist_copied_version_to_target env source target h src ''restore'' create st2))"
      by (rule grows_from [rotated])
    then show ?thesis using base Some hs by (simp add: restore_object_path_from_source_def Let_def)
  qed
qed


section \<open>Renaming\<close>

lemma live_head_loaded:
  assumes "live_head env st oid = Some (idx, head)"
  shows "load_version_index_by_object_id env st oid = Some idx"
    "vi_preferred_head_version_id idx = Some (vr_version_id head) \<or> \<not> keyed_by_id idx" "\<not> is_tombstone head"
    "\<exists>v. vi_preferred_head_version_id idx = Some v \<and> version_of idx v = Some head"
  using assms by (auto simp: live_head_def bind_eq_Some_conv keyed_by_id_def split: if_splits)

lemma rename_tombstone_index_ok:
  "index_ok (rename_tombstone_index env source head from)"
  "vi_object_id (rename_tombstone_index env source head from) = en_object_id env"
  "\<not> live_manifest (rename_tombstone_index env source head from) h"
proof -
  define v where "v = ''rename-tomb-'' @ en_nanos env"
  define r where "r = \<lparr>vr_version_id = v, vr_object_id = en_object_id env, vr_manifest_hash = TOMBSTONE_MANIFEST_HASH,
    vr_logical_path = Some from, vr_parent_version_ids = [vr_version_id head], vr_state = vr_state head,
    vr_created_at_unix = en_now env, vr_copied_from_object_id = Some source,
    vr_copied_from_version_id = Some (vr_version_id head), vr_copied_from_path = Some from\<rparr>"
  let ?idx = "(empty_version_index (en_object_id env))\<lparr>vi_versions := [(v, r)], vi_head_version_ids := [v]\<rparr>"
  have eq: "rename_tombstone_index env source head from =
      ?idx\<lparr>vi_preferred_head_version_id := choose_preferred_head ?idx\<rparr>"
    unfolding rename_tombstone_index_def Let_def v_def r_def ..
  show "index_ok (rename_tombstone_index env source head from)"
    unfolding eq by (rule index_okI) (auto simp: keyed_by_id_def leaf_def r_def empty_version_index_def hm_ok_def)
  show "vi_object_id (rename_tombstone_index env source head from) = en_object_id env"
    unfolding eq by (simp add: empty_version_index_def)
  show "\<not> live_manifest (rename_tombstone_index env source head from) h"
    unfolding eq by (simp add: live_manifest_def r_def)
qed

lemma add_version_head:
  "vr_version_id r \<in> set (vi_head_version_ids (add_version r idx))"
  by (simp add: add_version_def Let_def)

lemma add_version_live:
  "\<not> is_tombstone r \<Longrightarrow> live_manifest (add_version r idx) (vr_manifest_hash r)"
  using add_version_head [of r idx] by (auto simp: live_manifest_def add_version_lookup)

text \<open>Persisting an index of an object without bindings keeps the invariant.\<close>

lemma persist_unbound:
  assumes "store_inv X st" "index_ok idx" "vi_object_id idx = oid" "\<not> is_blank oid"
    "\<forall>k. object_id_for_key st k \<noteq> Some oid"
  shows "\<exists>st'. persist_version_index_by_object_id oid idx st = (Inr (), st') \<and> store_inv X st' \<and>
    st_current st' = st_current st \<and> st_content st' = st_content st \<and>
    map_of (st_indexes st') = (map_of (st_indexes st))(oid \<mapsto> index_row idx)"
proof -
  from persist_index [OF assms(1-4)] obtain st' where
    p: "persist_version_index_by_object_id oid idx st = (Inr (), st')" "store_inv (insert oid X) st'"
      "st_current st' = st_current st" "st_content st' = st_content st"
      "map_of (st_indexes st') = (map_of (st_indexes st))(oid \<mapsto> index_row idx)" by blast
  have "\<forall>k. object_id_for_key st' k = Some oid \<longrightarrow> k \<in> set []"
    using assms(5) p(3) by (simp add: object_id_for_key_def current_entry_def)
  from remove_object_bindings_ok [OF p(2) this] have "store_inv X st'" by (simp add: remove_bindings_def)
  then show ?thesis using p by blast
qed

lemma rename_media_ok:
  assumes "store_ok st" "fresh_clock env st" "current_entry st from = Some src" "coe_object_id src = oid"
    "from \<noteq> target" "live_head env st oid = Some (idx, head)"
    "clone_manifest_for_key (en_content env) (vr_manifest_hash head) target (st_content st) = Some (h, cs)"
    "fresh_version_id ''ren'' env h = Some v" "h \<noteq> TOMBSTONE_MANIFEST_HASH"
  shows "\<exists>st'. rename_media env from target oid idx head st = (Inr (), st') \<and> store_ok st' \<and>
    st_content st' = cs \<and>
    map_of (st_indexes st') = (map_of (st_indexes st))
      (oid \<mapsto> index_row (add_version (rename_record env v oid h head target) idx),
       en_object_id env \<mapsto> index_row (rename_tombstone_index env oid head from)) \<and>
    (\<forall>k. current_entry st' k = (if k = target then Some \<lparr>coe_manifest_hash = h, coe_object_id = oid\<rparr>
       else if k = from then None else current_entry st k))"
proof -
  define touched where "touched = bts_collect [from, target]"
  define st2 where "st2 = mark_manifest_locally_owned (en_now env) h
    ((maybe_rotate_snapshot_batch (en_now env) touched st)\<lparr>st_content := cs\<rparr>)"
  have same: "same_tables st2 st" unfolding st2_def
    by (intro same_tables_trans [OF same_tables_frame(3)] same_tables_trans [OF same_tables_frame(4)] same_tables_frame(1))
  have ok2: "store_ok st2" using same_tables_facts(1) [OF same] assms(1) by simp
  let ?r = "rename_record env v oid h head target"
  let ?idx1 = "add_version ?r idx" and ?tomb = "rename_tombstone_index env oid head from"
  note loaded = live_head_loaded [OF assms(6)]
  note idx = load_index_ok [OF assms(1) loaded(1)]
  have fresh: "fresh_id env st" using assms(2) by (simp add: fresh_clock_def)
  have src: "object_id_for_key st from = Some oid" using assms(3,4) by (simp add: object_id_for_key_def)
  have only: "k = from" if "object_id_for_key st k = Some oid" for k
    using entry_only [OF assms(1) src] that by blast
  have new: "version_of idx v = None"
    using fresh_clock_version [OF assms(2,1,8), of oid] loaded(1) by (simp add: index_or_empty_def)
  have idx1: "index_ok ?idx1" "vi_object_id ?idx1 = oid"
    using add_version_index_ok [OF idx(1), of ?r] new idx(2)
    by (simp_all add: rename_record_def add_version_def Let_def)
  from persist_index [OF ok2 idx1 idx(3)] obtain st3 where st3:
    "persist_version_index_by_object_id oid ?idx1 st2 = (Inr (), st3)" "store_inv {oid} st3"
    "st_current st3 = st_current st2" "st_content st3 = st_content st2"
    "map_of (st_indexes st3) = (map_of (st_indexes st2))(oid \<mapsto> index_row ?idx1)" by blast
  define st4 where "st4 = upsert_current_object target \<lparr>coe_manifest_hash = h, coe_object_id = oid\<rparr>
    (remove_bindings [from] st3)"
  have cur3: "current_entry st3 = current_entry st"
    using st3(3) same by (simp add: fun_eq_iff current_entry_def same_tables_def)
  have live: "live_manifest (index_row ?idx1) h"
    using add_version_live [of ?r idx] assms(9) by (simp add: rename_record_def)
  have ok4: "store_ok st4" unfolding st4_def
  proof (rule upsert_ok [where idx = "index_row ?idx1"])
    show "store_inv {oid} (remove_bindings [from] st3)" by (rule remove_bindings_inv [OF st3(2)])
    show "map_of (st_indexes (remove_bindings [from] st3)) oid = Some (index_row ?idx1)" using st3(5) by simp
    show "\<forall>k. object_id_for_key (remove_bindings [from] st3) k = Some oid \<longrightarrow> k = target"
      using only by (auto simp: object_id_for_key_def remove_bindings_entry cur3 split: if_splits)
  qed (use live in simp_all)
  have entry4: "current_entry st4 k = (if k = target then Some \<lparr>coe_manifest_hash = h, coe_object_id = oid\<rparr>
      else if k = from then None else current_entry st k)" for k
    by (simp add: st4_def remove_bindings_entry cur3)
  have "en_object_id env \<noteq> oid" using fresh src unfolding fresh_id_def by metis
  then have "\<forall>k. object_id_for_key st4 k \<noteq> Some (en_object_id env)"
    using fresh by (auto simp: object_id_for_key_def entry4 fresh_id_def split: if_splits)
  moreover have "\<not> is_blank (en_object_id env)" using fresh by (simp add: fresh_id_def)
  ultimately obtain st5 where st5:
    "persist_version_index_by_object_id (en_object_id env) ?tomb st4 = (Inr (), st5)" "store_ok st5"
    "st_current st5 = st_current st4" "st_content st5 = st_content st4"
    "map_of (st_indexes st5) = (map_of (st_indexes st4))(en_object_id env \<mapsto> index_row ?tomb)"
    using persist_unbound [OF ok4 rename_tombstone_index_ok(1,2)] by metis
  obtain r st6 where p: "persist_current_state_with_snapshot_batch env touched True (en_now env) st5 = (r, st6)"
    by (rule prod.exhaust)
  note p6 = persist_snapshot [OF p]
  have st4_eq: "upsert_current_object target \<lparr>coe_manifest_hash = h, coe_object_id = oid\<rparr>
      (remove_current_object from st3) = st4"
    by (simp add: st4_def remove_bindings_def)
  have "rename_media env from target oid idx head st = (Inr (), st6)"
    unfolding rename_media_def Let_def touched_def [symmetric]
    using assms(7,8) st3(1) st5(1) p p6(1) idx1(2) st4_eq by (auto simp: st2_def [symmetric])
  moreover have "store_ok st6" using p6(6) st5(2) by simp
  moreover have "current_entry st6 = current_entry st4"
    using p6(2) st5(3) by (simp add: fun_eq_iff current_entry_def)
  moreover have "st_content st6 = cs"
    using p6(5) st5(4) st3(4) by (simp add: st4_def) (simp add: st2_def)
  moreover have "map_of (st_indexes st6) = (map_of (st_indexes st))(oid \<mapsto> index_row ?idx1,
      en_object_id env \<mapsto> index_row ?tomb)"
    using p6(3) st5(5) st3(5) same by (simp add: st4_def same_tables_def)
  ultimately show ?thesis using entry4 by metis
qed


lemma safe_hash:
  assumes "manifest_hash_looks_safe_filename h"
  shows "h \<noteq> TOMBSTONE_MANIFEST_HASH" "\<exists>v. fresh_version_id kind env h = Some v"
  using assms
  by (auto simp: manifest_hash_looks_safe_filename_def TOMBSTONE_MANIFEST_HASH_def fresh_version_id_def hash_prefix_def)

lemma clone_hash:
  assumes "clone_manifest_for_key env h key cs = Some (h1, cs1)"
  shows "manifest_hash_looks_safe_filename h1"
  using assms by (auto simp: clone_manifest_for_key_def persist_manifest_def Let_def
      split: sum.splits option.splits if_splits prod.splits)

lemma renamed_versions_kept:
  assumes "store_ok st" "load_version_index_by_object_id env st oid = Some idx" "version_of idx (vr_version_id r) = None"
    "map_of (st_indexes st) new = None" "version_of idx1 = version_of (add_version r idx)"
    "map_of (st_indexes st') = (map_of (st_indexes st))(oid \<mapsto> idx1, new \<mapsto> idx2)"
  shows "versions_kept st st'"
  unfolding versions_kept_def
proof (intro allI impI)
  fix o1 i v q assume *: "map_of (st_indexes st) o1 = Some i" "version_of i v = Some q"
  have "o1 \<noteq> new" using assms(4) * by auto
  moreover have "version_of idx v = Some q" if "o1 = oid"
    using that * assms(2) by (auto simp: load_index [OF assms(1)])
  ultimately show "\<exists>idx' r'. map_of (st_indexes st') o1 = Some idx' \<and> version_of idx' v = Some r' \<and> confirms q r'"
    using * assms(3,5,6) by (auto simp: add_version_lookup confirms_def)
qed

text \<open>The state a step of a rename or copy leaves behind.\<close>

fun step_store :: "mutation_step \<Rightarrow> store" where
  "step_store (Ends (r, st)) = st"
| "step_store (Sidecar f t st) = st"

lemma finish_sidecar_grows:
  assumes "store_ok st" "fresh_id env st"
  shows "grows st (step_store (finish_sidecar env m st))"
proof (cases m)
  case (ClearTarget t)
  obtain r st1 where t: "tombstone_object_single env t default_put_options st = (r, st1)" by (rule prod.exhaust)
  then have "grows st st1"
    using tombstone_grows [OF assms(1) fresh_id_ok [OF assms(2)], of t default_put_options] by simp
  then show ?thesis using ClearTarget t by (cases r) (simp_all add: finish_sidecar_def)
qed (use grows_refl [OF assms(1)] in \<open>simp_all add: finish_sidecar_def\<close>)

lemma fresh_id_after:
  assumes "store_ok st'" "fresh_id env st" "map_of (st_indexes st') (en_object_id env) = None"
  shows "fresh_id env st'"
proof -
  have "object_id_for_key st' k \<noteq> Some (en_object_id env)" for k
  proof
    assume "object_id_for_key st' k = Some (en_object_id env)"
    then obtain e where e: "current_entry st' k = Some e" "coe_object_id e = en_object_id env"
      by (auto simp: object_id_for_key_def)
    obtain idx where "map_of (st_indexes st') (coe_object_id e) = Some idx"
      by (rule store_inv_live [OF assms(1) e(1)]) auto
    then show False using assms(3) e(2) by simp
  qed
  then show ?thesis using assms(2,3) by (simp add: fresh_id_def)
qed

text \<open>Two instants in order: each has a fresh id of its own.\<close>

definition fresh_pair :: "store_env \<Rightarrow> store_env \<Rightarrow> store \<Rightarrow> bool" where
  "fresh_pair env env2 st \<longleftrightarrow> fresh_clock env st \<and> fresh_id env2 st \<and> en_object_id env2 \<noteq> en_object_id env"

lemma rename_step_cases:
  assumes "store_ok st" "fresh_pair env env2 st"
  obtains (ends) r where "rename_step env env2 from target overwrite st = Ends (Inr r, st)"
  | (failed) src idx head where "from \<noteq> target" "current_entry st from = Some src"
      "live_head env st (coe_object_id src) = Some (idx, head)"
      "rename_step env env2 from target overwrite st =
         Ends (Inl MissingManifest, maybe_rotate_snapshot_batch (en_now env) (bts_collect [from, target]) st)"
  | (moved) src idx head h v st1 where "from \<noteq> target" "current_entry st from = Some src" "current_entry st target = None"
      "live_head env st (coe_object_id src) = Some (idx, head)"
      "clone_manifest_for_key (en_content env) (vr_manifest_hash head) target (st_content st) = Some (h, st_content st1)"
      "fresh_version_id ''ren'' env h = Some v"
      "prepare_sidecar_path_mutation st from target overwrite \<noteq> SidecarTargetExists"
      "rename_step env env2 from target overwrite st =
         finish_sidecar env2 (prepare_sidecar_path_mutation st from target overwrite) st1"
      "grows st st1" "fresh_id env2 st1"
      "map_of (st_indexes st1) = (map_of (st_indexes st))
        (coe_object_id src \<mapsto> index_row (add_version (rename_record env v (coe_object_id src) h head target) idx),
         en_object_id env \<mapsto> index_row (rename_tombstone_index env (coe_object_id src) head from))"
      "\<forall>k. current_entry st1 k = (if k = target then Some \<lparr>coe_manifest_hash = h, coe_object_id = coe_object_id src\<rparr>
         else if k = from then None else current_entry st k)"
proof (cases "from = target \<or> current_entry st from = None \<or> current_entry st target \<noteq> None \<or>
    prepare_sidecar_path_mutation st from target overwrite = SidecarTargetExists \<or>
    live_head env st (coe_object_id (the (current_entry st from))) = None")
  case True
  then have "\<exists>r. rename_step env env2 from target overwrite st = Ends (Inr r, st)"
    by (auto simp: rename_step_def Let_def split: option.splits)
  then show ?thesis using ends by blast
next
  case False
  then obtain src idx head where c: "from \<noteq> target" "current_entry st from = Some src" "current_entry st target = None"
      "prepare_sidecar_path_mutation st from target overwrite \<noteq> SidecarTargetExists"
      "live_head env st (coe_object_id src) = Some (idx, head)"
    by (cases "current_entry st from") auto
  have clock: "fresh_clock env st" and f2: "fresh_id env2 st" "en_object_id env2 \<noteq> en_object_id env"
    using assms(2) by (simp_all add: fresh_pair_def)
  show ?thesis
  proof (cases "clone_manifest_for_key (en_content env) (vr_manifest_hash head) target (st_content st)")
    case None
    then have "rename_media env from target (coe_object_id src) idx head st =
        (Inl MissingManifest, maybe_rotate_snapshot_batch (en_now env) (bts_collect [from, target]) st)"
      unfolding rename_media_def Let_def by simp
    then show ?thesis using c by (intro failed) (simp_all add: rename_step_def Let_def)
  next
    case (Some hcs)
    obtain h cs where hcs: "hcs = (h, cs)" by (rule prod.exhaust)
    note clone = Some [unfolded hcs]
    note safe = safe_hash [OF clone_hash [OF clone]]
    from safe(2) obtain v where v: "fresh_version_id ''ren'' env h = Some v" by blast
    from rename_media_ok [OF assms(1) clock c(2) refl c(1,5) clone v safe(1)] obtain st1 where
      st1: "rename_media env from target (coe_object_id src) idx head st = (Inr (), st1)" "store_ok st1"
        "st_content st1 = cs"
        "map_of (st_indexes st1) = (map_of (st_indexes st))
          (coe_object_id src \<mapsto> index_row (add_version (rename_record env v (coe_object_id src) h head target) idx),
           en_object_id env \<mapsto> index_row (rename_tombstone_index env (coe_object_id src) head from))"
        "\<forall>k. current_entry st1 k = (if k = target then Some \<lparr>coe_manifest_hash = h, coe_object_id = coe_object_id src\<rparr>
           else if k = from then None else current_entry st k)" by blast
    have "versions_kept st st1"
    proof (rule renamed_versions_kept [OF assms(1) live_head_loaded(1) [OF c(5)] _ _ _ st1(4)])
      show "map_of (st_indexes st) (en_object_id env) = None" using clock by (simp add: fresh_clock_def fresh_id_def)
      show "version_of idx (vr_version_id (rename_record env v (coe_object_id src) h head target)) = None"
        using fresh_clock_version [OF clock assms(1) v, of "coe_object_id src"] live_head_loaded(1) [OF c(5)]
        by (simp add: index_or_empty_def rename_record_def)
    qed simp
    then have g: "grows st st1" using st1(2) by (rule growsI [rotated])
    have "object_id_for_key st from = Some (coe_object_id src)" using c(2) by (simp add: object_id_for_key_def)
    then have "coe_object_id src \<noteq> en_object_id env2" using f2(1) unfolding fresh_id_def by metis
    then have "fresh_id env2 st1"
      using fresh_id_after [OF st1(2) f2(1)] f2 st1(4) by (auto simp: fresh_id_def)
    moreover have "rename_step env env2 from target overwrite st =
        finish_sidecar env2 (prepare_sidecar_path_mutation st from target overwrite) st1"
      using c st1(1) by (simp add: rename_step_def Let_def)
    ultimately show ?thesis using moved c clone v g st1 by metis
  qed
qed

lemma rename_step_grows:
  assumes "store_ok st" "fresh_pair env env2 st"
  shows "grows st (step_store (rename_step env env2 from target overwrite st))"
proof (rule rename_step_cases [OF assms, of "from" target overwrite])
  fix st1 assume "grows st st1" "fresh_id env2 st1"
    "rename_step env env2 from target overwrite st =
       finish_sidecar env2 (prepare_sidecar_path_mutation st from target overwrite) st1"
  then show ?thesis
    using finish_sidecar_grows [of st1 env2] grows_trans by (simp add: grows_def)
qed (use grows_refl [OF assms(1)] grows_same [OF same_tables_frame(1) assms(1)] in simp_all)


lemma copy_step_grows:
  assumes "store_ok st" "fresh_pair env env2 st"
  shows "grows st (step_store (copy_step env env2 from target overwrite st))"
proof (cases "from = target \<or> object_id_for_key st from = None \<or> (current_entry st target \<noteq> None \<and> \<not> overwrite) \<or>
    prepare_sidecar_path_mutation st from target overwrite = SidecarTargetExists \<or>
    live_head env st (the (object_id_for_key st from)) = None")
  case True
  then have "\<exists>r. copy_step env env2 from target overwrite st = Ends (Inr r, st)"
    by (auto simp: copy_step_def Let_def split: option.splits)
  then show ?thesis using grows_refl [OF assms(1)] by auto
next
  case False
  then obtain oid idx head where c: "from \<noteq> target" "object_id_for_key st from = Some oid"
      "\<not> (current_entry st target \<noteq> None \<and> \<not> overwrite)"
      "prepare_sidecar_path_mutation st from target overwrite \<noteq> SidecarTargetExists"
      "live_head env st oid = Some (idx, head)"
    by (cases "object_id_for_key st from") auto
  let ?st1 = "maybe_rotate_snapshot_batch (en_now env) [target] st"
  let ?src = "\<lparr>cs_manifest_hash = vr_manifest_hash head, cs_object_id = Some oid,
               cs_version_id = Some (vr_version_id head), cs_state = vr_state head\<rparr>"
  show ?thesis
  proof (cases "clone_for_target env (vr_manifest_hash head) target ?st1")
    case None
    then have "copy_step env env2 from target overwrite st = Ends (Inl MissingManifest, ?st1)"
      using c by (auto simp: copy_step_def Let_def)
    then show ?thesis using grows_same [OF same_tables_frame(1) assms(1)] by simp
  next
    case (Some hs)
    obtain h st2 where hs: "hs = (h, st2)" by (rule prod.exhaust)
    then have same: "same_tables st2 st"
      using clone_same Some same_tables_trans same_tables_frame(1) by blast
    then have ok2: "store_ok st2" "fresh_clock env st2" "fresh_id env2 st2"
      using assms same_tables_facts [OF same] fresh_clock_same [OF same] by (simp_all add: fresh_pair_def)
    have step: "copy_step env env2 from target overwrite st =
        (case persist_copied_version_to_target env from target h ?src ''copy'' True st2 of
           (Inr Applied, st3) \<Rightarrow> finish_sidecar env2 (prepare_sidecar_path_mutation st from target overwrite) st3
         | other \<Rightarrow> Ends other)"
      using c Some hs by (auto simp: copy_step_def Let_def)
    show ?thesis
    proof (rule persist_copied_cases [OF ok2(1,2), of "from" target h ?src "''copy''" True])
      assume "persist_copied_version_to_target env from target h ?src ''copy'' True st2 = (Inl Panic, st2)"
      then show ?thesis using step grows_same [OF same assms(1)] by simp
    next
      fix st3 assume st3: "persist_copied_version_to_target env from target h ?src ''copy'' True st2 = (Inr Applied, st3)"
        "grows st2 st3" "ids_added env st2 st3"
      have "map_of (st_indexes st3) (en_object_id env2) = None"
      proof (rule ccontr)
        assume "map_of (st_indexes st3) (en_object_id env2) \<noteq> None"
        then have "map_of (st_indexes st2) (en_object_id env2) \<noteq> None \<or> en_object_id env2 = en_object_id env"
          using st3(3) unfolding ids_added_def by blast
        then show False using ok2(3) assms(2) by (simp add: fresh_id_def fresh_pair_def)
      qed
      then have "fresh_id env2 st3" using fresh_id_after [OF _ ok2(3)] st3(2) by (simp add: grows_def)
      from finish_sidecar_grows [OF _ this] st3(2)
      have "grows st3 (step_store (finish_sidecar env2 (prepare_sidecar_path_mutation st from target overwrite) st3))"
        by (simp add: grows_def)
      then show ?thesis using step st3(1) grows_trans [OF grows_from [OF same st3(2)]] by simp
    qed
  qed
qed


section \<open>Deleting a version\<close>

lemma delete_index_ok:
  assumes "store_ok st"
  shows "store_inv {oid} (delete_version_index_by_object_id oid st)"
    "st_current (delete_version_index_by_object_id oid st) = st_current st"
    "st_content (delete_version_index_by_object_id oid st) = st_content st"
    "map_of (st_indexes (delete_version_index_by_object_id oid st)) = (map_of (st_indexes st))(oid := None)"
proof -
  let ?st = "delete_version_index_by_object_id oid st"
  show "st_current ?st = st_current st" "st_content ?st = st_content st"
    "map_of (st_indexes ?st) = (map_of (st_indexes st))(oid := None)"
    by (simp_all add: delete_version_index_by_object_id_def fun_eq_iff delete_conv')
  show "store_inv {oid} ?st"
    using assms
    by (auto simp: store_inv_def delete_version_index_by_object_id_def delete_conv' current_entry_def)
qed

text \<open>The object a delete is about is bound at the key it is given, or nowhere.\<close>

definition bound_here :: "store \<Rightarrow> string \<Rightarrow> string \<Rightarrow> bool" where
  "bound_here st key oid \<longleftrightarrow> (\<forall>k. object_id_for_key st k = Some oid \<longrightarrow> k = key) \<and>
     (object_id_for_key st key = None \<or> object_id_for_key st key = Some oid)"

lemma bound_hereI: "store_ok st \<Longrightarrow> object_id_for_key st key = Some oid \<Longrightarrow> bound_here st key oid"
  using entry_only by (simp add: bound_here_def)

text \<open>The tail of a deletion: the version metadata goes and a snapshot is recorded.\<close>

lemma delete_cases:
  assumes "store_ok st" "resolve_object_id_for_key_version env st key v = Some oid" "bound_here st key oid"
    "load_version_index_by_object_id env st oid = Some idx" "version_of idx v = Some r"
  obtains out st' where "delete_object_version_for_key env key v st = (Inr (Some out), st')" "store_ok st'"
    "do_version_id out = v" "do_was_delete_marker out = is_tombstone r" "st_content st' = st_content st"
    "map_of (st_indexes st') = (map_of (st_indexes st))
       (oid := if vi_versions (drop_version v idx) = [] then None else Some (index_row (drop_version v idx)))"
    "current_entry st' key = wanted_entry (drop_version v idx)"
    "\<forall>k. k \<noteq> key \<longrightarrow> current_entry st' k = current_entry st k"
proof -
  note idx = load_index_ok [OF assms(1,4)]
  let ?idx1 = "drop_version v idx"
  have idx1: "index_ok ?idx1" "vi_object_id ?idx1 = oid"
    using drop_version_index_ok [OF idx(1)] idx(2) by (simp_all add: drop_version_def Let_def)
  define touched where "touched = current_state_touched_paths_for_object_id st oid key"
  let ?st1 = "maybe_rotate_snapshot_batch (en_now env) touched st"
  have ok1: "store_ok ?st1" using assms(1) by simp
  define synced where "synced = (if vi_versions ?idx1 = []
      then (case remove_current_state_bindings_for_object_id oid (delete_version_index_by_object_id oid ?st1) of
              (ps, st2) \<Rightarrow> (Inr ps, st2))
      else (case persist_version_index_by_object_id oid ?idx1 ?st1 of
              (Inl e, st2) \<Rightarrow> (Inl e, st2)
            | (Inr _, st2) \<Rightarrow> sync_current_state_for_key_from_index key ?idx1 st2))"
  have "\<exists>ps st2. synced = (Inr ps, st2) \<and> store_ok st2 \<and> st_content st2 = st_content st \<and>
      map_of (st_indexes st2) = (map_of (st_indexes st))
        (oid := if vi_versions ?idx1 = [] then None else Some (index_row ?idx1)) \<and>
      current_entry st2 key = wanted_entry ?idx1 \<and> (\<forall>k. k \<noteq> key \<longrightarrow> current_entry st2 k = current_entry st k)"
  proof (cases "vi_versions ?idx1 = []")
    case True
    let ?st2 = "delete_version_index_by_object_id oid ?st1"
    note del = delete_index_ok [OF ok1, of oid]
    have cur: "object_id_for_key ?st2 = object_id_for_key st" "current_entry ?st2 = current_entry st"
      using del(2) by (simp_all add: fun_eq_iff object_id_for_key_def current_entry_def)
    have "hm_ok (st_current ?st2)" using del(1) by (simp add: store_inv_def)
    from remove_all_bindings [OF this, of oid] obtain ps qs where
      r: "remove_current_state_bindings_for_object_id oid ?st2 = (ps, remove_bindings qs ?st2)"
        "\<forall>k. k \<in> set qs \<longleftrightarrow> object_id_for_key ?st2 k = Some oid" by blast
    have "store_ok (remove_bindings qs ?st2)"
      by (rule remove_object_bindings_ok [OF del(1)]) (use r(2) in simp)
    moreover have "wanted_entry ?idx1 = None"
      using True by (cases "vi_preferred_head_version_id ?idx1") (simp_all add: wanted_entry_def)
    moreover have "current_entry (remove_bindings qs ?st2) key = None"
      using r(2) cur assms(3) by (auto simp: remove_bindings_entry bound_here_def object_id_for_key_def)
    moreover have "\<forall>k. k \<noteq> key \<longrightarrow> current_entry (remove_bindings qs ?st2) k = current_entry st k"
      using r(2) cur assms(3) by (auto simp: remove_bindings_entry bound_here_def)
    ultimately show ?thesis using True r(1) del(3,4) by (simp add: synced_def)
  next
    case False
    from persist_index [OF ok1 idx1 idx(3)] obtain st2 where st2:
      "persist_version_index_by_object_id oid ?idx1 ?st1 = (Inr (), st2)" "store_inv {oid} st2"
      "st_current st2 = st_current st" "st_content st2 = st_content st"
      "map_of (st_indexes st2) = (map_of (st_indexes st))(oid \<mapsto> index_row ?idx1)" by auto
    have cur: "object_id_for_key st2 = object_id_for_key st" "current_entry st2 = current_entry st"
      using st2(3) by (simp_all add: fun_eq_iff object_id_for_key_def current_entry_def)
    have "map_of (st_indexes st2) oid = Some (index_row ?idx1)" using st2(5) by simp
    from sync_ok [OF st2(2) this _ idx1, of key] assms(3) cur
    obtain ps st3 where "sync_current_state_for_key_from_index key ?idx1 st2 = (Inr ps, st3)" "store_ok st3"
        "st_indexes st3 = st_indexes st2" "st_content st3 = st_content st2" "current_entry st3 key = wanted_entry ?idx1"
        "\<forall>k. k \<noteq> key \<longrightarrow> current_entry st3 k = current_entry st2 k"
      by (auto simp: bound_here_def)
    then show ?thesis using False st2 cur by (auto simp: synced_def)
  qed
  then obtain ps st2 where st2: "synced = (Inr ps, st2)" "store_ok st2" "st_content st2 = st_content st"
      "map_of (st_indexes st2) = (map_of (st_indexes st))
        (oid := if vi_versions ?idx1 = [] then None else Some (index_row ?idx1))"
      "current_entry st2 key = wanted_entry ?idx1" "\<forall>k. k \<noteq> key \<longrightarrow> current_entry st2 k = current_entry st k" by blast
  define st3 where "st3 = st2\<lparr>st_version_metadata := removeAll v (st_version_metadata st2)\<rparr>"
  define changed where "changed = (if current_state_binding st3 key \<noteq> current_state_binding st key
     then bts_collect (ps @ touched) else ps)"
  obtain sid st4 where p: "persist_current_state_with_snapshot_batch env changed True (en_now env) st3 = (sid, st4)"
    by (rule prod.exhaust)
  note p4 = persist_snapshot [OF p]
  from p4(1) obtain sid' where sid: "sid = Inr sid'" by blast
  define out where "out = \<lparr>do_version_id = v, do_was_delete_marker = is_tombstone r,
    do_current_object_exists = object_id_for_key st4 key \<noteq> None\<rparr>"
  have "delete_object_version_for_key env key v st = (Inr (Some out), st4)"
    unfolding delete_object_version_for_key_def Let_def touched_def [symmetric] assms(2) option.case assms(4,5)
      synced_def [symmetric] st2(1) sum.case prod.case st3_def [symmetric] changed_def [symmetric] p sid out_def ..
  moreover have "store_ok st4" using p4(6) st2(2) by (simp add: st3_def)
  moreover have "current_entry st4 = current_entry st2" using p4(2) by (simp add: fun_eq_iff current_entry_def st3_def)
  moreover have "st_content st4 = st_content st" "st_indexes st4 = st_indexes st2"
    using p4(3,5) st2(3) by (simp_all add: st3_def)
  ultimately show ?thesis using that [of out st4] st2(4-6) by (simp add: out_def)
qed

section \<open>Dropping a replica\<close>

lemma drop_replica_cases:
  assumes "store_ok st"
  obtains (unchanged) "drop_replica_subject env key version st = (Inr False, st)"
      "\<And>v oid idx. version = Some v \<Longrightarrow> object_id_for_key st key = Some oid \<Longrightarrow>
         load_version_index_by_object_id env st oid = Some idx \<Longrightarrow> version_of idx v = None"
  | (dropped) st' v oid idx where "drop_replica_subject env key version st = (Inr True, st')" "store_ok st'"
      "version = Some v" "object_id_for_key st key = Some oid" "load_version_index_by_object_id env st oid = Some idx"
      "version_of idx v \<noteq> None" "map_of (st_indexes st') = (map_of (st_indexes st))(oid \<mapsto> index_row (drop_version v idx))"
      "st_content st' = st_content st" "current_entry st' key = wanted_entry (drop_version v idx)"
      "\<forall>k. k \<noteq> key \<longrightarrow> current_entry st' k = current_entry st k"
proof (cases "\<exists>v oid idx. version = Some v \<and> object_id_for_key st key = Some oid \<and>
    load_version_index_by_object_id env st oid = Some idx \<and> version_of idx v \<noteq> None")
  case False
  then have "drop_replica_subject env key version st = (Inr False, st)"
    by (auto simp: drop_replica_subject_def split: option.splits)
  then show ?thesis using False by (intro unchanged) auto
next
  case True
  then obtain v oid idx where c: "version = Some v" "object_id_for_key st key = Some oid"
      "load_version_index_by_object_id env st oid = Some idx" "version_of idx v \<noteq> None" by blast
  define touched where "touched = current_state_touched_paths_for_object_id st oid key"
  define prior where "prior = current_state_binding st key"
  let ?st1 = "maybe_rotate_snapshot_batch (en_now env) touched st"
  note idx = load_index_ok [OF assms c(3)]
  have "vi_object_id (drop_version v idx) = oid" using idx(2) by (simp add: drop_version_def Let_def)
  moreover have "store_ok ?st1" using assms by simp
  moreover have "\<forall>k. object_id_for_key ?st1 k = Some oid \<longrightarrow> k = key" using entry_only [OF assms c(2)] by simp
  moreover have "object_id_for_key ?st1 key = None \<or> object_id_for_key ?st1 key = Some oid" using c(2) by simp
  ultimately obtain sid st' where st': "persist_and_sync env oid key (drop_version v idx) touched prior True ?st1 = (Inr sid, st')"
      "store_ok st'" "map_of (st_indexes st') = (map_of (st_indexes st))(oid \<mapsto> index_row (drop_version v idx))"
      "st_content st' = st_content st" "current_entry st' key = wanted_entry (drop_version v idx)"
      "\<forall>k. k \<noteq> key \<longrightarrow> current_entry st' k = current_entry st k"
    using persist_and_sync_ok [of ?st1 "drop_version v idx" oid key env touched prior True]
      drop_version_index_ok [OF idx(1)] idx(3) unfolding frame_simps frame_entry by blast
  then have "drop_replica_subject env key version st = (Inr True, st')"
    using c by (auto simp: drop_replica_subject_def touched_def prior_def Let_def)
  then show ?thesis using dropped c st' by blast
qed

end
