(* ===== verification/Store_Properties.thy ===== *)
theory Store_Properties
  imports Store_Mutations
begin

text \<open>
  What the object store promises its callers: the invariant of every reachable store, that no
  version is lost, that a put is read back, that it is idempotent, and what removing and renaming do.
\<close>

section \<open>The store as a step system\<close>

inductive grow_step :: "store \<Rightarrow> store \<Rightarrow> bool" where
  put: "fresh_id env st \<Longrightarrow> grow_step st (snd (put_object_versioned env key payload opts st))"
| commit: "grow_step st (snd (commit_version env key v st))"
| tombstone: "fresh_id env st \<Longrightarrow> grow_step st (snd (tombstone_object_single env key opts st))"
| rename: "fresh_pair env env2 st \<Longrightarrow> grow_step st (step_store (rename_step env env2 from target overwrite st))"
| copy: "fresh_pair env env2 st \<Longrightarrow> grow_step st (step_store (copy_step env env2 from target overwrite st))"
| restore: "fresh_clock env st \<Longrightarrow>
    grow_step st (snd (restore_object_path_from_source env src source target create overwrite st))"

inductive store_step :: "store \<Rightarrow> store \<Rightarrow> bool" where
  grow: "grow_step st st' \<Longrightarrow> store_step st st'"
| delete: "(\<And>oid. resolve_object_id_for_key_version env st key v = Some oid \<Longrightarrow> bound_here st key oid) \<Longrightarrow>
    store_step st (snd (delete_object_version_for_key env key v st))"
| drop: "store_step st (snd (drop_replica_subject env key version st))"

lemma put_payload_grows:
  assumes "store_ok st" "fresh_id env st"
  shows "grows st (snd (put_object_versioned env key payload opts st))"
proof (cases "put_payload (en_content env) key payload (st_content st)")
  case None
  then show ?thesis using grows_refl [OF assms(1)] by (simp add: put_object_versioned_def)
next
  case (Some r)
  obtain h n d cs where r: "r = (h, n, d, cs)" by (cases r) auto
  let ?st = "st\<lparr>st_content := cs\<rparr>"
  have same: "same_tables ?st st" by simp
  have "grows ?st (snd (finalize_put_from_manifest_hash env key h opts n d ?st))"
    using assms same_tables_facts(1,6) [OF same] by (intro put_grows fresh_id_ok) simp_all
  then show ?thesis using grows_from [OF same] Some r by (simp add: put_object_versioned_def)
qed

lemma grow_step_grows: "grow_step st st' \<Longrightarrow> store_ok st \<Longrightarrow> grows st st'"
  by (induction rule: grow_step.induct)
    (simp_all add: put_payload_grows commit_grows tombstone_grows [OF _ fresh_id_ok] rename_step_grows
      copy_step_grows restore_grows)

lemma delete_ok:
  assumes "store_ok st" "\<And>oid. resolve_object_id_for_key_version env st key v = Some oid \<Longrightarrow> bound_here st key oid"
  shows "store_ok (snd (delete_object_version_for_key env key v st))"
proof (cases "Option.bind (resolve_object_id_for_key_version env st key v) (\<lambda>oid.
    Option.bind (load_version_index_by_object_id env st oid) (\<lambda>idx. version_of idx v))")
  case None
  then have "delete_object_version_for_key env key v st = (Inr None, st)"
    by (auto simp: delete_object_version_for_key_def bind_eq_None_conv split: option.splits)
  then show ?thesis using assms(1) by simp
next
  case (Some r)
  then obtain oid idx where "resolve_object_id_for_key_version env st key v = Some oid"
      "load_version_index_by_object_id env st oid = Some idx" "version_of idx v = Some r"
    by (auto simp: bind_eq_Some_conv)
  from delete_cases [OF assms(1) this(1) assms(2) [OF this(1)] this(2,3)]
  show ?thesis by (metis snd_conv)
qed

lemma drop_replica_ok: "store_ok st \<Longrightarrow> store_ok (snd (drop_replica_subject env key version st))"
  by (rule drop_replica_cases [of st env key version]) simp_all

lemma store_step_ok: "store_ok st \<Longrightarrow> store_step st st' \<Longrightarrow> store_ok st'"
  by (erule store_step.cases) (use grow_step_grows delete_ok drop_replica_ok in \<open>auto simp: grows_def\<close>)

interpretation store: step_system "(=) empty_store" store_step store_ok
  by unfold_locales (use empty_store_ok store_step_ok in auto)

interpretation growing: step_system "grows st" grow_step "grows st" for st
  by unfold_locales (use grow_step_grows grows_trans in \<open>auto simp: grows_def\<close>)


section \<open>The newest confirmed version is preferred\<close>

lemma greatest_head_preferred:
  assumes "index_ok idx" "r \<in> set (head_records idx)" "\<forall>q \<in> set (head_records idx). head_key q \<le> head_key r"
  shows "vi_preferred_head_version_id idx = Some (vr_version_id r)"
    "version_of idx (vr_version_id r) = Some r" "version_record_for_read_mode idx Preferred = Some r"
proof -
  have keyed: "keyed_by_id idx" using assms(1) by (simp add: index_ok_def)
  have ne: "head_records idx \<noteq> []" using assms(2) by auto
  obtain p where p: "first_opt (sort_desc head_key (head_records idx)) = Some p"
      "choose_preferred_head idx = Some (vr_version_id p)" "version_of idx (vr_version_id p) = Some p"
      "vr_version_id p \<in> set (vi_head_version_ids idx)" "\<forall>q \<in> set (head_records idx). head_key q \<le> head_key p"
    by (rule preferred_record [OF keyed ne])
  have in_p: "p \<in> set (head_records idx)" using p(3,4) by (auto simp: set_head_records)
  have "head_key p \<le> head_key r" "head_key r \<le> head_key p" using assms(2,3) p(5) in_p by blast+
  then have "p = r" using head_records_inj(1) [OF keyed] in_p assms(2) by (metis (no_types) antisym inj_onD)
  then show "vi_preferred_head_version_id idx = Some (vr_version_id r)"
    "version_of idx (vr_version_id r) = Some r" "version_record_for_read_mode idx Preferred = Some r"
    using assms(1) p read_mode_preferred_first [OF keyed] by (simp_all add: index_ok_def)
qed

lemma head_records_added:
  "q \<in> set (head_records (add_version r idx)) \<Longrightarrow> q = r \<or> q \<in> set (head_records idx)"
proof -
  have ids: "vi_head_version_ids (add_version r idx) = bts_collect (vr_version_id r #
      filter (\<lambda>h. h \<notin> set (vr_parent_version_ids r)) (vi_head_version_ids idx))"
    by (simp add: add_version_def Let_def)
  assume "q \<in> set (head_records (add_version r idx))"
  then show ?thesis unfolding set_head_records ids by (auto simp: add_version_lookup split: if_splits)
qed

text \<open>No head of the object at \<open>key\<close> is as new as this instant.\<close>

definition newest :: "store_env \<Rightarrow> store \<Rightarrow> string \<Rightarrow> bool" where
  "newest env st key \<longleftrightarrow>
     (\<forall>q \<in> set (head_records (index_or_empty env st (object_id_or_new env st key))). vr_created_at_unix q < en_now env)"

lemma newest_preferred_rank:
  assumes "index_ok idx" "version_of idx (vr_version_id r) = None" "vr_object_id r = vi_object_id idx"
    "\<forall>q \<in> set (head_records idx). rank_state (vr_state q) \<le> rank_state (vr_state r) \<and> vr_created_at_unix q < vr_created_at_unix r"
  shows "index_ok (add_version r idx)"
    "vi_preferred_head_version_id (add_version r idx) = Some (vr_version_id r)"
    "version_record_for_read_mode (add_version r idx) Preferred = Some r"
    "wanted_entry (add_version r idx) = (if is_tombstone r then None
       else Some \<lparr>coe_manifest_hash = vr_manifest_hash r, coe_object_id = vi_object_id idx\<rparr>)"
proof -
  let ?idx = "add_version r idx"
  show ok: "index_ok ?idx" by (rule add_version_index_ok [OF assms(1-3)])
  have in_r: "r \<in> set (head_records ?idx)"
    using add_version_head [of r idx] by (auto simp: set_head_records add_version_lookup)
  have "head_key q \<le> head_key r" if "q \<in> set (head_records ?idx)" for q
    using head_records_added [OF that] assms(4) by (auto simp: less_eq_prod_def)
  then have all: "\<forall>q \<in> set (head_records ?idx). head_key q \<le> head_key r" by blast
  note g = greatest_head_preferred [OF ok in_r all]
  show "vi_preferred_head_version_id ?idx = Some (vr_version_id r)"
    "version_record_for_read_mode ?idx Preferred = Some r" using g by simp_all
  have "vi_object_id ?idx = vi_object_id idx" by (simp add: add_version_def Let_def)
  then show "wanted_entry ?idx = (if is_tombstone r then None
       else Some \<lparr>coe_manifest_hash = vr_manifest_hash r, coe_object_id = vi_object_id idx\<rparr>)"
    using g by (simp add: wanted_entry_def)
qed

lemma rank_confirmed: "rank_state s \<le> rank_state Confirmed"
  by (cases s) simp_all

lemma newest_preferred:
  assumes "index_ok idx" "version_of idx (vr_version_id r) = None" "vr_object_id r = vi_object_id idx"
    "vr_state r = Confirmed" "\<forall>q \<in> set (head_records idx). vr_created_at_unix q < vr_created_at_unix r"
  shows "version_record_for_read_mode (add_version r idx) Preferred = Some r"
    "wanted_entry (add_version r idx) = (if is_tombstone r then None
       else Some \<lparr>coe_manifest_hash = vr_manifest_hash r, coe_object_id = vi_object_id idx\<rparr>)"
  using newest_preferred_rank [OF assms(1-3)] assms(4,5) rank_confirmed by simp_all

lemma read_mode_cong:
  "vi_versions a = vi_versions b \<Longrightarrow> vi_head_version_ids a = vi_head_version_ids b \<Longrightarrow>
   version_record_for_read_mode a Preferred = version_record_for_read_mode b Preferred"
  using head_records_cong [of a b] choose_preferred_head_cong [of a b] by (simp split: option.split)

lemma read_mode_row [simp]:
  "version_record_for_read_mode (index_row idx) Preferred = version_record_for_read_mode idx Preferred"
  by (rule read_mode_cong) simp_all

text \<open>Reading the content a bound key prefers.\<close>

lemma get_object_current:
  assumes "store_inv X st" "current_entry st key = Some e" "map_of (st_indexes st) (coe_object_id e) = Some idx"
    "version_record_for_read_mode idx Preferred = Some r" "\<not> is_tombstone r"
  shows "get_object env st key None None Preferred = read_object_by_manifest_hash (en_content env) (st_content st) (vr_manifest_hash r)"
proof -
  let ?idx = "idx\<lparr>vi_persisted_object_id := coe_object_id e, vi_identity_was_normalized := False\<rparr>"
  have "version_record_for_read_mode ?idx Preferred = version_record_for_read_mode idx Preferred"
    by (rule read_mode_cong) simp_all
  moreover have "load_version_index_by_object_id env st (coe_object_id e) = Some ?idx"
    by (simp add: load_index [OF assms(1)] assms(3))
  ultimately have "manifest_hash_for_read_mode ?idx Preferred = Some (vr_manifest_hash r)"
    and "Option.bind (object_id_for_key st key) (load_version_index_by_object_id env st) = Some ?idx"
    using assms(2,4) by (simp_all add: manifest_hash_for_read_mode_def object_id_for_key_def)
  then show ?thesis using assms(5) by (simp add: get_object_def resolve_manifest_hash_for_key_def)
qed

lemma preferred_parents:
  assumes "index_ok idx" "po_parent_version_ids opts = []"
  shows "\<forall>p \<in> set (put_parents opts idx). version_of idx p \<noteq> None"
proof
  fix p assume "p \<in> set (put_parents opts idx)"
  then have "vi_preferred_head_version_id idx = Some p"
    using assms(2) by (auto simp: put_parents_def opt_list_def split: if_splits option.splits)
  then show "version_of idx p \<noteq> None" by (rule preferred_is_head [OF assms(1)]) simp
qed


section \<open>Outcome of a put\<close>

abbreviation payload_hash :: "content_env \<Rightarrow> string \<Rightarrow> bytes \<Rightarrow> string" where
  "payload_hash env key payload \<equiv> ce_hash_hex env (ce_to_json env (payload_manifest env key payload))"

lemma put_chunks_refs:
  assumes "env_ok env"
  shows "\<exists>acc'. put_chunks env cs acc = Some acc' \<and> cp_refs acc' = cp_refs acc @ map (ref_of env) cs"
proof (induction cs arbitrary: acc)
  case (Cons c cs)
  have "chunk_hash_ok (ce_hash_hex env c)" using assms by (simp add: env_ok_def)
  then obtain acc1 where "put_chunk env c acc = Some acc1" "cp_refs acc1 = cp_refs acc @ [ref_of env c]"
    by (cases "persist_storage_content env (ce_hash_hex env c) c (cp_files acc)") (auto simp: put_chunk_def ref_of_def)
  then show ?case using Cons.IH [of acc1] by auto
qed simp

lemma put_payload_hash:
  assumes "env_ok env"
  obtains n d cs' where "put_payload env key payload cs = Some (payload_hash env key payload, n, d, cs')"
    "manifest_hash_looks_safe_filename (payload_hash env key payload)"
proof -
  let ?acc = "\<lparr>cp_refs = [], cp_new_chunks = 0, cp_dedup_reused_chunks = 0, cp_files = cs_chunks cs\<rparr>"
  obtain acc where acc: "put_chunks env (chunks CHUNK_SIZE payload) ?acc = Some acc"
      "cp_refs acc = map (ref_of env) (chunks CHUNK_SIZE payload)"
    using put_chunks_refs [OF assms, of "chunks CHUNK_SIZE payload" ?acc] by auto
  have m: "\<lparr>om_key = key, om_total_size_bytes = length payload, om_chunks = cp_refs acc\<rparr> = payload_manifest env key payload"
    by (simp add: payload_manifest_def acc(2))
  have ok: "manifest_hash_looks_safe_filename (payload_hash env key payload)"
    using assms by (simp add: env_ok_def manifest_hash_looks_safe_filename_def chunk_hash_ok_def)
  then have "\<exists>cs'. persist_manifest env (payload_manifest env key payload) (cs\<lparr>cs_chunks := cp_files acc\<rparr>) =
      Some (payload_hash env key payload, cs')"
    by (simp add: persist_manifest_def Let_def split: prod.splits)
  then show ?thesis using that acc(1) ok by (auto simp: put_payload_def m)
qed

text \<open>A put of a confirmed version without explicit parents or version id.\<close>

definition plain_put :: "put_options \<Rightarrow> bool" where
  "plain_put opts \<longleftrightarrow> po_parent_version_ids opts = [] \<and> po_explicit_version_id opts = None \<and> po_state opts = Confirmed"

lemma unbound_index:
  assumes "fresh_id env st" "object_id_for_key st key = None"
  shows "index_or_empty env st (object_id_or_new env st key) = empty_version_index (en_object_id env)"
  using assms by (simp add: object_id_or_new_def index_or_empty_def load_version_index_by_object_id_def fresh_id_def)

lemma put_outcome:
  assumes "store_ok st" "fresh_clock env st" "plain_put opts" "newest env st key" "manifest_hash_looks_safe_filename h"
  obtains pr st' e idx r where "finalize_put_from_manifest_hash env key h opts n d st = (Inr pr, st')" "store_ok st'"
    "current_entry st' key = Some e" "map_of (st_indexes st') (coe_object_id e) = Some idx"
    "version_record_for_read_mode idx Preferred = Some r" "vr_manifest_hash r = h" "vr_state r = Confirmed"
    "pr_version_id pr = vr_version_id r" "st_content st' = st_content st"
    "\<forall>k. k \<noteq> key \<longrightarrow> current_entry st' k = current_entry st k"
proof -
  define oid where "oid = object_id_or_new env st key"
  define idx where "idx = index_or_empty env st oid"
  have fresh: "fresh_id env st" using assms(2) by (simp add: fresh_clock_def)
  note safe = safe_hash [OF assms(5)]
  have vid: "put_version_id env opts h = fresh_version_id ''ver'' env h"
    using assms(3) by (simp add: put_version_id_def plain_put_def)
  have new: "version_of idx v = None" if "put_version_id env opts h = Some v" for v
    using fresh_clock_version [OF assms(2,1)] that unfolding idx_def vid by blast
  have idx: "index_ok idx" "vi_object_id idx = oid" using index_or_empty_ok [OF assms(1)] unfolding idx_def by blast+
  have parents: "\<forall>p \<in> set (put_parents opts idx). version_of idx p \<noteq> None"
    by (rule preferred_parents [OF idx(1)]) (use assms(3) in \<open>simp add: plain_put_def\<close>)
  show ?thesis
  proof (rule put_cases [OF assms(1) fresh_id_ok [OF fresh, of key], of h opts n d, folded oid_def, folded idx_def])
    fix e st' assume "finalize_put_from_manifest_hash env key h opts n d st = (Inl e, st')"
      "(\<exists>p \<in> set (put_parents opts idx). version_of idx p = None) \<or> put_version_id env opts h = None \<or>
       (\<exists>v r. put_version_id env opts h = Some v \<and> version_of idx v = Some r \<and> vr_manifest_hash r \<noteq> h)"
    moreover have "put_version_id env opts h \<noteq> None" using safe(2) [of "''ver''" env] vid by auto
    ultimately have False using parents new by (elim disjE) auto
    then show ?thesis ..
  next
    fix v r st' pr assume "put_version_id env opts h = Some v" "version_of idx v = Some r"
    then have False using new by simp
    then show ?thesis ..
  next
    fix pv r st' pr
    assume u: "finalize_put_from_manifest_hash env key h opts n d st = (Inr pr, st')" "same_tables st' st"
      "st_content st' = st_content st" "same_as_preferred opts idx h = Some (pv, r)" "pr_version_id pr = pv"
    from u(4) have r: "vi_preferred_head_version_id idx = Some pv" "version_of idx pv = Some r" "vr_manifest_hash r = h"
        "vr_state r = Confirmed"
      using assms(3) by (auto simp: same_as_preferred_def plain_put_def split: option.splits if_splits)
    have "object_id_for_key st key \<noteq> None"
    proof
      assume "object_id_for_key st key = None"
      then have "idx = empty_version_index (en_object_id env)"
        using unbound_index [OF fresh, of key] by (simp add: idx_def oid_def)
      then show False using r(1) by (simp add: empty_version_index_def)
    qed
    then obtain e where e: "current_entry st key = Some e" "coe_object_id e = oid"
      by (auto simp: oid_def object_id_or_new_def object_id_for_key_def)
    have "version_of (index_or_empty env st oid) pv = Some r" using r(2) by (simp add: idx_def)
    from index_or_empty_row [OF assms(1) this] obtain row where row: "map_of (st_indexes st) oid = Some row"
        "idx = row\<lparr>vi_persisted_object_id := oid, vi_identity_was_normalized := False\<rparr>"
      unfolding idx_def by blast
    have id: "vr_version_id r = pv" using idx(1) r(2) by (simp add: index_ok_def keyed_by_id_def)
    have "choose_preferred_head idx = Some pv" using idx(1) r(1) by (simp add: index_ok_def)
    then have "version_record_for_read_mode idx Preferred = Some r"
      using r(2) choose_preferred_head_None [of idx] by auto
    moreover have "version_record_for_read_mode row Preferred = version_record_for_read_mode idx Preferred"
      by (rule read_mode_cong) (simp_all add: row(2))
    ultimately have "version_record_for_read_mode row Preferred = Some r" by simp
    note rd = this
    have "store_ok st'" "current_entry st' key = Some e" "map_of (st_indexes st') (coe_object_id e) = Some row"
        "\<forall>k. k \<noteq> key \<longrightarrow> current_entry st' k = current_entry st k"
      unfolding same_tables_facts(1,2,9) [OF u(2)] using assms(1) e row(1) by simp_all
    then show ?thesis using that [OF u(1)] rd r(3,4) id u(3,5) by metis
  next
    fix v st' pr
    let ?r = "put_record env opts v oid h (put_parents opts idx) key"
    assume c: "finalize_put_from_manifest_hash env key h opts n d st = (Inr pr, st')" "store_ok st'"
      "st_content st' = st_content st" "pr_version_id pr = v" "version_of idx v = None"
      "map_of (st_indexes st') = (map_of (st_indexes st))(oid \<mapsto> index_row (add_version ?r idx))"
      "current_entry st' key = wanted_entry (add_version ?r idx)" "\<forall>k. k \<noteq> key \<longrightarrow> current_entry st' k = current_entry st k"
    have r: "vr_version_id ?r = v" "vr_object_id ?r = vi_object_id idx" "vr_state ?r = Confirmed"
        "vr_created_at_unix ?r = en_now env" "vr_manifest_hash ?r = h"
      using assms(3) idx(2) by (simp_all add: put_record_def plain_put_def)
    have "\<forall>q \<in> set (head_records idx). vr_created_at_unix q < vr_created_at_unix ?r"
      using assms(4) r(4) unfolding newest_def oid_def [symmetric] idx_def [symmetric] by simp
    note p = newest_preferred [OF idx(1), of ?r, unfolded r(1), OF c(5) r(2,3) this]
    have "current_entry st' key = Some \<lparr>coe_manifest_hash = h, coe_object_id = oid\<rparr>"
      using p(2) c(7) r(5) safe(1) idx(2) by simp
    moreover have "version_record_for_read_mode (index_row (add_version ?r idx)) Preferred = Some ?r"
      using p(1) by (simp only: read_mode_row)
    moreover have "map_of (st_indexes st') (coe_object_id \<lparr>coe_manifest_hash = h, coe_object_id = oid\<rparr>) =
        Some (index_row (add_version ?r idx))" using c(6) by simp
    ultimately show ?thesis using that [OF c(1,2)] c(3,4,8) r(1,3,5) by metis
  qed
qed


text \<open>A put of the content the key already prefers changes no table.\<close>

lemma put_unchanged:
  assumes "store_ok st" "current_entry st key = Some e" "map_of (st_indexes st) (coe_object_id e) = Some idx"
    "version_record_for_read_mode idx Preferred = Some r" "vr_manifest_hash r = h" "vr_state r = Confirmed"
    "plain_put opts" "po_inherit_preferred_parent opts" "fresh_clock env st" "manifest_hash_looks_safe_filename h"
    "same_tables st1 st"
  shows "\<exists>pr. finalize_put_from_manifest_hash env key h opts n d st1 = (Inr pr, mark_manifest_locally_owned (en_now env) h st1) \<and>
    pr_version_id pr = vr_version_id r \<and> \<not> pr_created_new_version pr"
proof -
  note eq = same_tables_facts [OF assms(11)]
  have oid: "object_id_or_new env st1 key = coe_object_id e"
    unfolding object_id_or_new_def eq(3) using assms(2) by (simp add: object_id_for_key_def)
  define idx2 where "idx2 = idx\<lparr>vi_persisted_object_id := coe_object_id e, vi_identity_was_normalized := False\<rparr>"
  have idx: "index_or_empty env st1 (coe_object_id e) = idx2"
    unfolding eq(4) by (simp add: index_or_empty_def load_index [OF assms(1)] assms(3) idx2_def)
  note ok = store_inv_index(1) [OF assms(1,3)]
  from assms(4) obtain u where u: "choose_preferred_head idx = Some u" "version_of idx u = Some r"
    by (auto split: option.splits if_splits)
  then have "vr_version_id r = u" using ok by (simp add: index_ok_def keyed_by_id_def)
  then have pref: "vi_preferred_head_version_id idx = Some (vr_version_id r)" "version_of idx (vr_version_id r) = Some r"
    using ok u by (simp_all add: index_ok_def)
  have sap: "same_as_preferred opts idx2 h = Some (vr_version_id r, r)"
    using pref assms(5-8) by (simp add: same_as_preferred_def plain_put_def idx2_def)
  have par: "find (\<lambda>p. version_of idx2 p = None) (put_parents opts idx2) = None"
    using assms(7,8) pref by (simp add: put_parents_def plain_put_def opt_list_def idx2_def)
  obtain v where v: "put_version_id env opts h = Some v"
    using safe_hash(2) [OF assms(10), of "''ver''" env] assms(7) by (auto simp: put_version_id_def plain_put_def)
  have "version_of idx2 v = None"
    using assms(3,7,9) v by (auto simp: fresh_clock_def put_version_id_def plain_put_def idx2_def)
  then show ?thesis
    using par v sap unfolding finalize_put_from_manifest_hash_def Let_def oid idx by simp
qed

section \<open>Outcome of a rename\<close>

lemma get_object_bound:
  assumes "store_ok st" "get_object env st key None None Preferred = Inr data"
  obtains e idx r where "current_entry st key = Some e" "map_of (st_indexes st) (coe_object_id e) = Some idx"
    "version_record_for_read_mode idx Preferred = Some r" "\<not> is_tombstone r"
    "read_object_by_manifest_hash (en_content env) (st_content st) (vr_manifest_hash r) = Inr data"
proof -
  have "current_entry st key \<noteq> None"
  proof
    assume "current_entry st key = None"
    then show False
      using assms(2) by (simp add: get_object_def resolve_manifest_hash_for_key_def object_id_for_key_def)
  qed
  then obtain e where e: "current_entry st key = Some e" by blast
  obtain idx where idx: "map_of (st_indexes st) (coe_object_id e) = Some idx" "live_manifest idx (coe_manifest_hash e)"
    by (rule store_inv_live [OF assms(1) e]) auto
  note ok = store_inv_index(1) [OF assms(1) idx(1)]
  have keyed: "keyed_by_id idx" using ok by (simp add: index_ok_def)
  from idx(2) obtain q where "q \<in> set (head_records idx)" unfolding live_manifest_def set_head_records by blast
  then have ne: "head_records idx \<noteq> []" by auto
  obtain r where r: "version_record_for_read_mode idx Preferred = Some r"
    unfolding read_mode_preferred_first [OF keyed] by (rule preferred_record [OF keyed ne])
  let ?idx = "idx\<lparr>vi_persisted_object_id := coe_object_id e, vi_identity_was_normalized := False\<rparr>"
  have "version_record_for_read_mode ?idx Preferred = Some r" using r by (subst read_mode_cong [of _ idx]) simp_all
  moreover have "load_version_index_by_object_id env st (coe_object_id e) = Some ?idx"
    by (simp add: load_index [OF assms(1)] idx(1))
  ultimately have res: "resolve_manifest_hash_for_key env st key None None Preferred =
      (if is_tombstone r then Inl NotFound else Inr (vr_manifest_hash r))"
    using e by (simp add: resolve_manifest_hash_for_key_def object_id_for_key_def manifest_hash_for_read_mode_def
        del: version_record_for_read_mode.simps)
  then have "\<not> is_tombstone r" using assms(2) by (auto simp: get_object_def)
  then show ?thesis using that e idx(1) r res assms(2) by (simp add: get_object_def)
qed

lemma preferred_live_head:
  assumes "store_ok st" "map_of (st_indexes st) oid = Some idx"
    "version_record_for_read_mode idx Preferred = Some r" "\<not> is_tombstone r"
  shows "live_head env st oid = Some (idx\<lparr>vi_persisted_object_id := oid, vi_identity_was_normalized := False\<rparr>, r)"
    "\<forall>q \<in> set (head_records idx). head_key q \<le> head_key r" "vr_object_id r = oid"
proof -
  note ok = store_inv_index [OF assms(1,2)]
  from assms(3) obtain v where v: "choose_preferred_head idx = Some v" "version_of idx v = Some r"
    by (auto split: option.splits if_splits)
  then show "live_head env st oid = Some (idx\<lparr>vi_persisted_object_id := oid, vi_identity_was_normalized := False\<rparr>, r)"
    using ok(1) assms(4) by (simp add: live_head_def load_index [OF assms(1)] assms(2) index_ok_def)
  have "vi_preferred_head_version_id idx = Some v" using ok(1) v(1) by (simp add: index_ok_def)
  then show "\<forall>q \<in> set (head_records idx). head_key q \<le> head_key r"
    by (rule preferred_is_head [OF ok(1)]) (use v(2) in simp)
  show "vr_object_id r = oid" using ok(1,2) v(2) by (auto simp: index_ok_def)
qed

text \<open>The version a rename adds is the preferred one.\<close>

lemma renamed_preferred:
  assumes "store_ok st" "fresh_clock env st" "current_entry st key = Some src"
    "map_of (st_indexes st) (coe_object_id src) = Some row" "version_record_for_read_mode row Preferred = Some r"
    "\<not> is_tombstone r" "newest env st key" "fresh_version_id ''ren'' env h = Some v"
  defines "idx \<equiv> row\<lparr>vi_persisted_object_id := coe_object_id src, vi_identity_was_normalized := False\<rparr>"
  shows "version_of idx (vr_version_id (rename_record env v (coe_object_id src) h r target)) = None"
    "version_record_for_read_mode (index_row (add_version (rename_record env v (coe_object_id src) h r target) idx)) Preferred =
       Some (rename_record env v (coe_object_id src) h r target)"
proof -
  let ?oid = "coe_object_id src"
  let ?r = "rename_record env v ?oid h r target"
  have ok: "index_ok idx" "vi_object_id idx = ?oid"
    using store_inv_index [OF assms(1,4)] by (simp_all add: idx_def)
  have heads: "head_records idx = head_records row" by (rule head_records_cong) (simp_all add: idx_def)
  have oid: "object_id_or_new env st key = ?oid"
    using assms(3) by (simp add: object_id_or_new_def object_id_for_key_def)
  have ie: "index_or_empty env st ?oid = idx"
    by (simp add: index_or_empty_def load_index [OF assms(1)] assms(4) idx_def)
  have h: "\<forall>q \<in> set (head_records idx). rank_state (vr_state q) \<le> rank_state (vr_state ?r) \<and>
      vr_created_at_unix q < vr_created_at_unix ?r"
    using preferred_live_head(2) [OF assms(1,4-6)] assms(7) unfolding newest_def oid ie heads
    by (auto simp: rename_record_def less_eq_prod_def)
  show new: "version_of idx (vr_version_id ?r) = None"
    using fresh_clock_version [OF assms(2,1,8), of ?oid] ie by (simp add: rename_record_def)
  have "vr_object_id ?r = vi_object_id idx" using ok(2) by (simp add: rename_record_def)
  from newest_preferred_rank(3) [OF ok(1) new this h]
  show "version_record_for_read_mode (index_row (add_version ?r idx)) Preferred = Some ?r"
    unfolding read_mode_row .
qed

text \<open>The manifest of a clone has the chunks of the original, so it reads the same.\<close>

lemma clone_reads_same:
  assumes "env_ok env" "read_object_by_manifest_hash env cs h = Inr data"
    "\<And>m. load_manifest_by_hash env cs h = Inr (Some m) \<Longrightarrow>
       collision_free env (insert (ce_to_json env (m\<lparr>om_key := key\<rparr>)) (file_contents (cs_manifests cs)))"
  obtains h1 cs1 where "clone_manifest_for_key env h key cs = Some (h1, cs1)"
    "read_object_by_manifest_hash env cs1 h1 = Inr data"
proof -
  from assms(2) obtain m where m: "load_manifest_by_hash env cs h = Inr (Some m)"
      "assemble env (cs_chunks cs) (om_chunks m) [] = Inr data" "length data = om_total_size_bytes m"
    by (auto simp: read_object_by_manifest_hash_def split: sum.splits option.splits if_splits)
  from persist_manifest_reads_back [OF assms(1) assms(3) [OF m(1)]] obtain h1 cs1 where
    c: "persist_manifest env (m\<lparr>om_key := key\<rparr>) cs = Some (h1, cs1)"
      "load_manifest_by_hash env cs1 h1 = Inr (Some (m\<lparr>om_key := key\<rparr>))" "cs_chunks cs1 = cs_chunks cs" by blast
  have "clone_manifest_for_key env h key cs = Some (h1, cs1)" using c(1) m(1) by (simp add: clone_manifest_for_key_def)
  moreover have "read_object_by_manifest_hash env cs1 h1 = Inr data"
    using c(2,3) m(2,3) by (simp add: read_object_by_manifest_hash_def)
  ultimately show ?thesis by (rule that)
qed

section \<open>A concrete store for the witnesses\<close>

definition sample_at :: "nat \<Rightarrow> store_env" where
  "sample_at i = \<lparr>en_content = sample_env, en_now = 100 + i, en_nanos = replicate i CHR ''1'',
     en_object_id = CHR ''o'' # replicate i CHR ''1'', en_snapshot_uuid = ''s'' @ replicate i CHR ''1'',
     en_payload_hash = (\<lambda>_. ''p'')\<rparr>"

definition sample_manifest :: object_manifest where
  "sample_manifest = \<lparr>om_key = ''a'', om_total_size_bytes = 5,
     om_chunks = [\<lparr>cr_hash = sample_hash ''hello'', cr_size_bytes = 5\<rparr>]\<rparr>"

definition sample_content :: content_store where
  "sample_content = \<lparr>cs_chunks = [(sample_hash ''hello'', ''hello'')],
     cs_manifests = [(sample_hash (ce_to_json sample_env sample_manifest), ce_to_json sample_env sample_manifest)]\<rparr>"

definition sample_put :: "put_result res \<times> store" where
  "sample_put = finalize_put_from_manifest_hash (sample_at 0) ''a'' (sample_hash (ce_to_json sample_env sample_manifest))
     default_put_options 1 0 (empty_store\<lparr>st_content := sample_content\<rparr>)"

definition sample_store :: store where
  "sample_store = snd sample_put"

lemma sample_manifest_eq: "payload_manifest sample_env ''a'' ''hello'' = sample_manifest"
  unfolding payload_manifest_def sample_chunks by (simp add: sample_manifest_def ref_of_def sample_env_def)

lemma sample_hash_ok: "chunk_hash_ok (sample_hash b)"
  by (simp add: sample_hash_def chunk_hash_ok_def is_ascii_hexdigit_def Let_def list_all_iff)

lemma sample_payload: "put_payload sample_env ''a'' ''hello'' \<lparr>cs_chunks = [], cs_manifests = []\<rparr> =
  Some (sample_hash (ce_to_json sample_env sample_manifest), 1, 0, sample_content)"
proof -
  have h: "ce_hash_hex sample_env = sample_hash" by (simp add: sample_env_def)
  have "put_chunks sample_env [''hello''] \<lparr>cp_refs = [], cp_new_chunks = 0, cp_dedup_reused_chunks = 0, cp_files = []\<rparr> =
      Some \<lparr>cp_refs = [\<lparr>cr_hash = sample_hash ''hello'', cr_size_bytes = 5\<rparr>], cp_new_chunks = 1,
        cp_dedup_reused_chunks = 0, cp_files = [(sample_hash ''hello'', ''hello'')]\<rparr>"
    by (simp add: put_chunk_def h persist_storage_content_def sample_hash_ok Let_def)
  moreover have "manifest_hash_looks_safe_filename (sample_hash b)" for b
    using sample_hash_ok by (simp add: chunk_hash_ok_def manifest_hash_looks_safe_filename_def)
  ultimately show ?thesis
    unfolding put_payload_def sample_chunks content_store.simps hello_length
    by (simp add: persist_manifest_def h persist_storage_content_def sample_content_def sample_manifest_def Let_def)
qed

lemma sample_put_eq: "put_object_versioned (sample_at 0) ''a'' ''hello'' default_put_options empty_store = sample_put"
  using sample_payload by (simp add: put_object_versioned_def sample_put_def) (simp add: sample_at_def empty_store_def)

lemma sample_indexes:
  "map (\<lambda>(oid, idx). (oid, map fst (vi_versions idx), vi_head_version_ids idx)) (st_indexes sample_store) =
     [(''o'', [''ver--000000000000''], [''ver--000000000000''])]"
  by code_simp

lemma sample_current: "map fst (st_current sample_store) = [''a'']"
  by code_simp

lemma sample_store_heads:
  "map vr_created_at_unix (head_records (index_or_empty (sample_at (Suc i)) sample_store ''o'')) = [100]"
  by code_simp

lemma sample_read: "get_object (sample_at i) sample_store ''a'' None None Preferred = Inr ''hello''"
  by code_simp


lemma sample_id_not_blank: "\<not> is_blank (CHR ''o'' # x)"
proof -
  have "CHR ''o'' \<in> set (trim (CHR ''o'' # x))" by (rule trim_keeps) (simp_all add: white_space_def)
  then show ?thesis by auto
qed

lemma sample_empty:
  "fresh_clock (sample_at i) empty_store" "fresh_id (sample_at i) empty_store" "newest (sample_at i) empty_store key"
proof -
  show f: "fresh_id (sample_at i) empty_store"
    by (simp add: fresh_id_def empty_store_def sample_at_def object_id_for_key_def current_entry_def sample_id_not_blank)
  then show "fresh_clock (sample_at i) empty_store" by (simp add: fresh_clock_def empty_store_def)
  have "object_id_for_key empty_store key = None"
    by (simp add: object_id_for_key_def current_entry_def empty_store_def)
  from unbound_index [OF f this] show "newest (sample_at i) empty_store key"
    by (simp add: newest_def empty_version_index_def head_records_def List.map_filter_def)
qed

lemma sample_store_ok: "store_ok sample_store"
  using put_payload_grows [OF empty_store_ok sample_empty(2), of 0 "''a''" "''hello''" default_put_options]
  by (simp add: sample_put_eq sample_store_def grows_def)

lemma sample_index:
  assumes "map_of (st_indexes sample_store) oid = Some idx"
  shows "oid = ''o''" "version_of idx v \<noteq> None \<Longrightarrow> v = ''ver--000000000000''"
proof -
  have in_map: "(oid, map fst (vi_versions idx), vi_head_version_ids idx) \<in>
      set (map (\<lambda>(oid, idx). (oid, map fst (vi_versions idx), vi_head_version_ids idx)) (st_indexes sample_store))"
    using map_of_SomeD [OF assms] by force
  then show "oid = ''o''" unfolding sample_indexes by simp
  from in_map have "map fst (vi_versions idx) = [''ver--000000000000'']" unfolding sample_indexes by simp
  moreover assume "version_of idx v \<noteq> None"
  then have "v \<in> set (map fst (vi_versions idx))" by (simp add: map_of_eq_None_iff)
  ultimately show "v = ''ver--000000000000''" by simp
qed

lemma sample_entry: "current_entry sample_store k = None \<longleftrightarrow> k \<noteq> ''a''"
proof -
  have "set (map fst (st_current sample_store)) = {''a''}" unfolding sample_current by simp
  then show ?thesis by (simp add: current_entry_def map_of_eq_None_iff)
qed

lemma sample_id: "object_id_for_key sample_store ''a'' = Some ''o''"
  by code_simp

lemma sample_fresh_clock: "fresh_clock (sample_at (Suc i)) sample_store"
  unfolding fresh_clock_def
proof (intro conjI allI impI)
  have "map_of (st_indexes sample_store) (CHR ''o'' # CHR ''1'' # x) = None" for x
    using sample_index(1) by (cases "map_of (st_indexes sample_store) (CHR ''o'' # CHR ''1'' # x)") auto
  moreover have "object_id_for_key sample_store k \<noteq> Some (CHR ''o'' # CHR ''1'' # x)" for k x
    using sample_id sample_entry [of k] by (cases "k = ''a''") (auto simp: object_id_for_key_def)
  ultimately show "fresh_id (sample_at (Suc i)) sample_store" by (simp add: fresh_id_def sample_at_def sample_id_not_blank)
next
  fix kind h v oid idx
  assume v: "fresh_version_id kind (sample_at (Suc i)) h = Some v" and idx: "map_of (st_indexes sample_store) oid = Some idx"
  show "version_of idx v = None"
  proof (rule ccontr)
    assume "version_of idx v \<noteq> None"
    from sample_index(2) [OF idx this] v obtain p where
      eq: "kind @ ''-'' @ CHR ''1'' # replicate i CHR ''1'' @ ''-'' @ p = ''ver--000000000000''" and "length p = 12"
      by (auto simp: fresh_version_id_def hash_prefix_def sample_at_def split: if_splits)
    from eq have "drop 12 (rev (kind @ ''-'' @ (CHR ''1'' # replicate i CHR ''1'') @ ''-'' @ p)) = ''--rev''" by simp
    moreover have "drop 12 (rev (kind @ ''-'' @ (CHR ''1'' # replicate i CHR ''1'') @ ''-'' @ p)) =
        CHR ''-'' # replicate (Suc i) CHR ''1'' @ ''-'' @ rev kind"
      using \<open>length p = 12\<close> by (simp flip: replicate_append_same)
    ultimately show False by simp
  qed
qed

lemma sample_newest: "newest (sample_at (Suc i)) sample_store ''a''"
proof -
  have "object_id_or_new (sample_at (Suc i)) sample_store ''a'' = ''o''"
    using sample_id by (simp add: object_id_or_new_def)
  moreover have "vr_created_at_unix q = 100" if "q \<in> set (head_records (index_or_empty (sample_at (Suc i)) sample_store ''o''))" for q
  proof -
    have "vr_created_at_unix q \<in> set (map vr_created_at_unix (head_records (index_or_empty (sample_at (Suc i)) sample_store ''o'')))"
      using that by simp
    then show ?thesis unfolding sample_store_heads by simp
  qed
  moreover have "en_now (sample_at (Suc i)) = 101 + i" by (simp add: sample_at_def)
  ultimately show ?thesis by (simp add: newest_def)
qed

lemma sample_default: "plain_put default_put_options"
  by (simp add: plain_put_def default_put_options_def)


lemma sample_put_ok: "\<exists>pr. sample_put = (Inr pr, sample_store)"
proof -
  have "\<not> isl (fst sample_put)" by code_simp
  then obtain pr where "fst sample_put = Inr pr" by (cases "fst sample_put") auto
  then have "sample_put = (Inr pr, sample_store)" by (simp add: sample_store_def prod_eq_iff)
  then show ?thesis ..
qed

lemma sample_failing_put:
  "\<exists>st'. put_object_versioned (sample_at 0) ''a'' ''hello'' (default_put_options\<lparr>po_parent_version_ids := [''x'']\<rparr>)
     empty_store = (Inl (ParentMissing ''x''), st')"
proof -
  have "fst (finalize_put_from_manifest_hash (sample_at 0) ''a'' (sample_hash (ce_to_json sample_env sample_manifest))
      (default_put_options\<lparr>po_parent_version_ids := [''x'']\<rparr>) 1 0 (empty_store\<lparr>st_content := sample_content\<rparr>)) =
      Inl (ParentMissing ''x'')" by code_simp
  moreover have "en_content (sample_at 0) = sample_env" "st_content empty_store = \<lparr>cs_chunks = [], cs_manifests = []\<rparr>"
    by (simp_all add: sample_at_def empty_store_def)
  ultimately show ?thesis using sample_payload by (simp add: put_object_versioned_def prod_eq_iff)
qed

lemma sample_no_collision:
  assumes "load_manifest_by_hash sample_env (st_content sample_store) h = Inr (Some m)"
  shows "collision_free sample_env (insert (ce_to_json sample_env (m\<lparr>om_key := ''bb''\<rparr>))
    (file_contents (cs_manifests (st_content sample_store))))"
proof -
  have files: "cs_manifests (st_content sample_store) = cs_manifests sample_content" by code_simp
  from assms obtain p where "map_of (cs_manifests sample_content) h = Some p" "ce_from_json sample_env p = Some m"
    by (auto simp: load_manifest_by_hash_def files split: if_splits option.splits)
  then have m: "m = sample_manifest"
    using sample_env_ok by (auto simp: sample_content_def env_ok_def split: if_splits)
  have "sample_hash (ce_to_json sample_env (sample_manifest\<lparr>om_key := ''bb''\<rparr>)) \<noteq>
      sample_hash (ce_to_json sample_env sample_manifest)" by code_simp
  moreover have "ce_hash_hex sample_env = sample_hash" by (simp add: sample_env_def)
  ultimately show ?thesis unfolding files m by (auto simp: collision_free_def sample_content_def inj_on_def)
qed

section \<open>Properties\<close>

text \<open>C2: In every store reachable from an empty one by puts, commits, tombstones, renames, copies,
  restores, dropped replicas and deletions of versions of the object at the given key: every index is well formed and
  filed under its own id, its heads contain all leaves of the version graph and the preferred one is
  the chosen one, the head projections agree with the indexes, every key is bound to content of a
  head of its object, and no object is bound to two keys.\<close>

theorem reachable_store_ok:
  assumes "reach ((=) empty_store) store_step st"
  shows "store_ok st"
  by (rule store.reach_inv [OF assms])

theorem reachable_store_ok_witness:
  "reach ((=) empty_store) store_step sample_store \<and> store_ok sample_store"
proof -
  have "reach ((=) empty_store) store_step (snd (put_object_versioned (sample_at 0) ''a'' ''hello'' default_put_options empty_store))"
    by (rule reach_step, rule reach_init, rule refl, rule grow, rule put, rule sample_empty(2))
  then have "reach ((=) empty_store) store_step sample_store" by (simp add: sample_put_eq sample_store_def)
  then show ?thesis using reachable_store_ok by blast
qed

text \<open>C3: No version is lost: whatever sequence of puts, commits, tombstones, renames, copies and
  restores is executed on a well-formed store, every version of every object is still there, unchanged
  but for the state of those that were committed.\<close>

theorem versions_never_lost:
  assumes "store_ok st" "grow_step\<^sup>*\<^sup>* st st'"
  shows "versions_kept st st'"
  using growing.run_inv [OF grows_refl [OF assms(1)] assms(2)] by (simp add: grows_def)

theorem versions_never_lost_witness:
  "versions_kept sample_store (snd (tombstone_object_single (sample_at 1) ''a'' default_put_options sample_store))"
proof -
  have "fresh_id (sample_at 1) sample_store" using sample_fresh_clock [of 0] by (simp add: fresh_clock_def)
  then have "grow_step sample_store (snd (tombstone_object_single (sample_at 1) ''a'' default_put_options sample_store))"
    by (rule tombstone)
  then have "grow_step\<^sup>*\<^sup>* sample_store (snd (tombstone_object_single (sample_at 1) ''a'' default_put_options sample_store))"
    by blast
  with sample_store_ok show ?thesis by (rule versions_never_lost)
qed

text \<open>C1: A put is read back: putting a confirmed version of a key succeeds, reading the key
  afterwards gives the payload, and the bindings of the other keys are unchanged.  The object id and
  the nanosecond stamp have to be fresh, the clock later than the heads of the object, and the hash
  free of collisions on the stored content.\<close>

theorem put_then_get:
  assumes "store_ok st" "fresh_clock env st" "plain_put opts" "newest env st key" "env_ok (en_content env)"
    and "collision_free (en_content env) (file_contents (cs_chunks (st_content st)) \<union> set (chunks CHUNK_SIZE payload))"
    and "collision_free (en_content env) (insert (ce_to_json (en_content env) (payload_manifest (en_content env) key payload))
           (file_contents (cs_manifests (st_content st))))"
  shows "\<exists>pr st'. put_object_versioned env key payload opts st = (Inr pr, st') \<and>
    get_object env st' key None None Preferred = Inr payload \<and>
    (\<forall>k. k \<noteq> key \<longrightarrow> current_entry st' k = current_entry st k)"
proof -
  let ?h = "payload_hash (en_content env) key payload"
  from put_payload_ok [OF assms(5-7)] obtain n d cs where
    p: "put_payload (en_content env) key payload (st_content st) = Some (?h, n, d, cs)"
      "read_object_by_manifest_hash (en_content env) cs ?h = Inr payload" by blast
  have safe: "manifest_hash_looks_safe_filename ?h"
    by (rule put_payload_hash [OF assms(5), of key payload "st_content st"])
  let ?st = "st\<lparr>st_content := cs\<rparr>"
  have same: "same_tables ?st st" by simp
  note eq = same_tables_facts [OF same]
  have st: "store_ok ?st" "fresh_clock env ?st" "newest env ?st key"
    using assms(1,2,4) unfolding newest_def eq fresh_clock_same [OF same] by simp_all
  obtain pr st' e idx r where o: "finalize_put_from_manifest_hash env key ?h opts n d ?st = (Inr pr, st')" "store_ok st'"
      "current_entry st' key = Some e" "map_of (st_indexes st') (coe_object_id e) = Some idx"
      "version_record_for_read_mode idx Preferred = Some r" "vr_manifest_hash r = ?h"
      "st_content st' = st_content ?st" "\<forall>k. k \<noteq> key \<longrightarrow> current_entry st' k = current_entry ?st k"
    by (rule put_outcome [OF st(1,2) assms(3) st(3) safe, of n d])
  have "get_object env st' key None None Preferred = Inr payload"
    using get_object_current [OF o(2-5)] o(6,7) safe_hash(1) [OF safe] p(2) by simp
  then show ?thesis using o(1,8) p(1) by (simp add: put_object_versioned_def)
qed

theorem put_then_get_witness:
  "\<exists>pr st'. put_object_versioned (sample_at 0) ''a'' ''hello'' default_put_options empty_store = (Inr pr, st') \<and>
    get_object (sample_at 0) st' ''a'' None None Preferred = Inr ''hello''"
proof -
  have c: "en_content (sample_at 0) = sample_env" "st_content empty_store = \<lparr>cs_chunks = [], cs_manifests = []\<rparr>"
    by (simp_all add: sample_at_def empty_store_def)
  show ?thesis
    using put_then_get [OF empty_store_ok sample_empty(1) sample_default sample_empty(3), of 0 "''hello''" "''a''"]
      sample_env_ok sample_free unfolding c by blast
qed









end
