(* ===== verification/Key_Listing.thy ===== *)
theory Key_Listing
  imports Rust_Strings
begin

text \<open>
  Paged listings of keys, as the S3 front end and the store index serve them
  (\<open>server-node-sdk/src/listing.rs\<close>).  Keys below a prefix are listed in order; keys that are
  deeper than a number of segments are collapsed into common prefixes; a page ends with a cursor from
  which the next page continues.  The JSON and base64 codecs of the cursor are a parameter.

  The loop that splits a key into segments does not return for an empty delimiter, so it is a partial
  function; the listing never calls it with one.
\<close>

section \<open>Types\<close>

datatype prefix_mode = ExactStartsWith | PathBoundary

datatype entry_kind = ObjectEntry | CommonPrefix

record key_listing_entry =
  ke_path :: string
  ke_kind :: entry_kind

record key_listing_page =
  kp_entries :: "key_listing_entry list"
  kp_next_cursor :: "string option"
  kp_has_more :: bool

record key_listing_cursor =
  kc_scope :: string
  kc_prefix_mode :: prefix_mode
  kc_prefix :: string
  kc_delimiter :: "string option"
  kc_collapse_after :: "usize option"
  kc_last_path :: string
  kc_last_kind :: entry_kind

datatype listing_error = TokenNotDecodable | TokenPayloadInvalid | TokenMismatch

record listing_codec =
  lc_base64_encode :: "string \<Rightarrow> string"
  lc_base64_decode :: "string \<Rightarrow> string option"
  lc_to_json :: "key_listing_cursor \<Rightarrow> string"
  lc_from_json :: "string \<Rightarrow> key_listing_cursor option"

section \<open>Operations\<close>

definition store_index_remainder_for_prefix :: "string \<Rightarrow> string \<Rightarrow> string option" where
  "store_index_remainder_for_prefix key pre =
     (if pre = [] then Some (trim_start_matches CHR ''/'' key)
      else if key = pre then Some []
      else case strip_prefix key pre of
             None \<Rightarrow> None
           | Some remainder \<Rightarrow>
               if remainder = [] then Some []
               else if starts_with remainder ''/'' then Some (trim_start_matches CHR ''/'' remainder)
               else None)"

definition key_remainder_for_prefix :: "string \<Rightarrow> string \<Rightarrow> prefix_mode \<Rightarrow> string option" where
  "key_remainder_for_prefix key pre mode =
     (case mode of
        ExactStartsWith \<Rightarrow> if pre = [] then Some key else strip_prefix key pre
      | PathBoundary \<Rightarrow> store_index_remainder_for_prefix key pre)"

partial_function (option) split_remainder_segments :: "string \<Rightarrow> string \<Rightarrow> string list option" where
  "split_remainder_segments rest delimiter =
     (if rest = [] then Some []
      else case split_once delimiter rest of
             Some (a, b) \<Rightarrow> Option.bind (split_remainder_segments b delimiter) (\<lambda>segs. Some ((a @ delimiter) # segs))
           | None \<Rightarrow> Some [rest])"

declare split_remainder_segments.simps [code]

definition entry_for_key ::
  "string \<Rightarrow> string \<Rightarrow> string \<Rightarrow> string option \<Rightarrow> usize option \<Rightarrow> key_listing_entry option" where
  "entry_for_key key pre remainder delimiter collapse_after =
     (case (delimiter, collapse_after) of
        (Some d, Some n) \<Rightarrow>
          if n = 0 then Some \<lparr>ke_path = key, ke_kind = ObjectEntry\<rparr>
          else Option.bind (split_remainder_segments remainder d) (\<lambda>segments.
            if length segments \<le> n then Some \<lparr>ke_path = key, ke_kind = ObjectEntry\<rparr>
            else let collapsed = concat (take n segments);
                     path = (if pre = [] then collapsed
                             else if ends_with pre d \<or> starts_with collapsed d then pre @ collapsed
                             else pre @ d @ collapsed)
                 in Some \<lparr>ke_path = path, ke_kind = CommonPrefix\<rparr>)
      | _ \<Rightarrow> Some \<lparr>ke_path = key, ke_kind = ObjectEntry\<rparr>)"

fun entry_kind_rank :: "entry_kind \<Rightarrow> nat" where
  "entry_kind_rank ObjectEntry = 0"
| "entry_kind_rank CommonPrefix = 1"

definition encode_cursor :: "listing_codec \<Rightarrow> key_listing_cursor \<Rightarrow> string" where
  "encode_cursor codec cursor = lc_base64_encode codec (lc_to_json codec cursor)"

definition decode_cursor ::
  "listing_codec \<Rightarrow> string \<Rightarrow> string \<Rightarrow> prefix_mode \<Rightarrow> string \<Rightarrow> string option \<Rightarrow> usize option
     \<Rightarrow> listing_error + key_listing_cursor" where
  "decode_cursor codec token scope mode pre delimiter collapse_after =
     (case lc_base64_decode codec token of
        None \<Rightarrow> Inl TokenNotDecodable
      | Some decoded \<Rightarrow>
          case lc_from_json codec decoded of
            None \<Rightarrow> Inl TokenPayloadInvalid
          | Some cursor \<Rightarrow>
              if kc_scope cursor \<noteq> scope \<or> kc_prefix_mode cursor \<noteq> mode \<or> kc_prefix cursor \<noteq> pre \<or>
                 kc_delimiter cursor \<noteq> delimiter \<or> kc_collapse_after cursor \<noteq> collapse_after
              then Inl TokenMismatch else Inr cursor)"

abbreviation used_delimiter :: "string option \<Rightarrow> string option" where
  "used_delimiter delimiter \<equiv> opt_filter (\<lambda>d. d \<noteq> []) (map_option trim delimiter)"

definition skipped :: "key_listing_cursor option \<Rightarrow> string option \<Rightarrow> key_listing_entry \<Rightarrow> bool" where
  "skipped cursor_resume resume_after e \<longleftrightarrow>
     (case cursor_resume of
        None \<Rightarrow> False
      | Some c \<Rightarrow> ke_path e < kc_last_path c \<or>
          ke_path e = kc_last_path c \<and> entry_kind_rank (ke_kind e) \<le> entry_kind_rank (kc_last_kind c)) \<or>
     (case resume_after of None \<Rightarrow> False | Some after \<Rightarrow> ke_path e \<le> after)"

text \<open>The loop over the keys: the entry of a key that is below the prefix, the entries emitted so far
  and the last one of them; it stops when a further entry does not fit.\<close>

fun page_loop ::
  "(string \<Rightarrow> key_listing_entry option option) \<Rightarrow> (key_listing_entry \<Rightarrow> bool) \<Rightarrow> usize \<Rightarrow> string list
     \<Rightarrow> key_listing_entry option \<Rightarrow> key_listing_entry list \<Rightarrow> (key_listing_entry list \<times> bool) option" where
  "page_loop entry_of skip max_keys [] last_emitted entries = Some (entries, False)"
| "page_loop entry_of skip max_keys (key # keys) last_emitted entries =
     (case entry_of key of
        None \<Rightarrow> None
      | Some None \<Rightarrow> page_loop entry_of skip max_keys keys last_emitted entries
      | Some (Some e) \<Rightarrow>
          if skip e then page_loop entry_of skip max_keys keys last_emitted entries
          else if last_emitted = Some e then page_loop entry_of skip max_keys keys last_emitted entries
          else if max_keys \<le> length entries then Some (entries, True)
          else page_loop entry_of skip max_keys keys (Some e) (entries @ [e]))"

definition listed_entry ::
  "prefix_mode \<Rightarrow> string \<Rightarrow> string option \<Rightarrow> usize option \<Rightarrow> string \<Rightarrow> key_listing_entry option option" where
  "listed_entry mode pre delimiter collapse_after key =
     (case key_remainder_for_prefix key pre mode of
        None \<Rightarrow> Some None
      | Some remainder \<Rightarrow> map_option Some (entry_for_key key pre remainder delimiter collapse_after))"

definition finish_page ::
  "listing_codec \<Rightarrow> string \<Rightarrow> prefix_mode \<Rightarrow> string \<Rightarrow> string option \<Rightarrow> usize option \<Rightarrow> key_listing_entry list \<Rightarrow> bool
     \<Rightarrow> key_listing_page" where
  "finish_page codec scope mode pre delimiter collapse_after entries has_more =
     \<lparr>kp_entries = entries,
      kp_next_cursor =
        (if has_more
         then map_option (\<lambda>e. encode_cursor codec \<lparr>kc_scope = scope, kc_prefix_mode = mode, kc_prefix = pre,
                kc_delimiter = delimiter, kc_collapse_after = collapse_after,
                kc_last_path = ke_path e, kc_last_kind = ke_kind e\<rparr>) (last_opt entries)
         else None),
      kp_has_more = has_more\<rparr>"

definition paginate_sorted_keys ::
  "listing_codec \<Rightarrow> string list \<Rightarrow> string \<Rightarrow> prefix_mode \<Rightarrow> string \<Rightarrow> string option \<Rightarrow> usize option
     \<Rightarrow> string option \<Rightarrow> string option \<Rightarrow> usize \<Rightarrow> (listing_error + key_listing_page) option" where
  "paginate_sorted_keys codec sorted_keys scope mode pre delimiter collapse_after cursor resume_after max_keys =
     (let delimiter = used_delimiter delimiter; max_keys = max max_keys 1 in
      case (case cursor of
              Some token \<Rightarrow> map_sum id Some (decode_cursor codec token scope mode pre delimiter collapse_after)
            | None \<Rightarrow> Inr None) of
        Inl e \<Rightarrow> Some (Inl e)
      | Inr cursor_resume \<Rightarrow>
          let resume_after = (if cursor_resume = None then resume_after else None) in
          Option.bind (page_loop (listed_entry mode pre delimiter collapse_after) (skipped cursor_resume resume_after)
                         max_keys sorted_keys None [])
            (\<lambda>(entries, has_more). Some (Inr (finish_page codec scope mode pre delimiter collapse_after entries has_more))))"

fun count_loop ::
  "(string \<Rightarrow> key_listing_entry option option) \<Rightarrow> string list \<Rightarrow> key_listing_entry option \<Rightarrow> nat \<Rightarrow> nat option" where
  "count_loop entry_of [] last_emitted n = Some n"
| "count_loop entry_of (key # keys) last_emitted n =
     (case entry_of key of
        None \<Rightarrow> None
      | Some None \<Rightarrow> count_loop entry_of keys last_emitted n
      | Some (Some e) \<Rightarrow>
          if last_emitted = Some e then count_loop entry_of keys last_emitted n
          else count_loop entry_of keys (Some e) (n + 1))"

definition count_sorted_keys ::
  "string list \<Rightarrow> prefix_mode \<Rightarrow> string \<Rightarrow> string option \<Rightarrow> usize option \<Rightarrow> nat option" where
  "count_sorted_keys sorted_keys mode pre delimiter collapse_after =
     count_loop (listed_entry mode pre (used_delimiter delimiter) collapse_after) sorted_keys None 0"

section \<open>Segments\<close>

lemma split_once_prefix:
  "split_once p s = Some (a, b) \<Longrightarrow> p \<noteq> [] \<Longrightarrow> split_once p (a @ p @ z) = Some (a, z)"
proof (induction p s arbitrary: a rule: split_once.induct)
  case (2 p x xs)
  show ?case
  proof (cases "prefix p (x # xs)")
    case True
    then have "a = []" using "2.prems" by simp
    then show ?thesis using "2.prems"(2) by (cases p) auto
  next
    case False
    then obtain a1 where a1: "split_once p xs = Some (a1, b)" "a = x # a1" using "2.prems" by auto
    then have xs: "xs = a1 @ p @ b" by (blast dest: split_once_Some)
    have "\<not> prefix p ((x # a1 @ p) @ z)"
    proof
      assume "prefix p ((x # a1 @ p) @ z)"
      then have "prefix p (x # a1 @ p)" by (rule prefix_length_prefix) simp_all
      then have "prefix p ((x # a1 @ p) @ b)" by (rule prefix_prefix)
      then show False using False xs by simp
    qed
    then show ?thesis using "2.IH" [OF False a1(1) "2.prems"(2)] a1(2) by simp
  qed
qed simp

lemma split_total: "d \<noteq> [] \<Longrightarrow> \<exists>segs. split_remainder_segments r d = Some segs"
proof (induction "length r" arbitrary: r rule: less_induct)
  case less
  show ?case
  proof (cases "r = []")
    case False
    show ?thesis
    proof (cases "split_once d r")
      case (Some ab)
      obtain a b where ab: "ab = (a, b)" by (rule prod.exhaust)
      then have "r = a @ d @ b" using Some by (simp add: split_once_Some)
      then have "length b < length r" using less.prems by (cases d) simp_all
      then obtain segs where "split_remainder_segments b d = Some segs" using less by blast
      then show ?thesis using Some ab False by (subst split_remainder_segments.simps) simp
    qed (use False in \<open>subst split_remainder_segments.simps, simp\<close>)
  qed (subst split_remainder_segments.simps, simp)
qed

definition segs :: "string \<Rightarrow> string \<Rightarrow> string list" where
  "segs d r = the (split_remainder_segments r d)"

lemma split_segs: "d \<noteq> [] \<Longrightarrow> split_remainder_segments r d = Some (segs d r)"
  using split_total [of d r] by (auto simp: segs_def)

lemma segs_Nil [simp]: "segs d [] = []"
  by (simp add: segs_def split_remainder_segments.simps)

lemma segs_None: "r \<noteq> [] \<Longrightarrow> split_once d r = None \<Longrightarrow> segs d r = [r]"
  by (simp add: segs_def split_remainder_segments.simps)

lemma segs_Some: "d \<noteq> [] \<Longrightarrow> split_once d r = Some (a, b) \<Longrightarrow> segs d r = (a @ d) # segs d b"
  using split_total [of d b] by (cases "r = []") (auto simp: segs_def split_remainder_segments.simps [of r])

lemma concat_segs: "d \<noteq> [] \<Longrightarrow> concat (segs d r) = r"
proof (induction "length r" arbitrary: r rule: less_induct)
  case less
  show ?case
  proof (cases "split_once d r")
    case None
    then show ?thesis by (cases "r = []") (simp_all add: segs_None)
  next
    case (Some ab)
    obtain a b where ab: "ab = (a, b)" by (rule prod.exhaust)
    then have r: "r = a @ d @ b" using Some by (simp add: split_once_Some)
    then have "length b < length r" using less.prems by (cases d) simp_all
    then show ?thesis using less Some ab r by (simp add: segs_Some)
  qed
qed

lemma segs_nonempty: "d \<noteq> [] \<Longrightarrow> r \<noteq> [] \<Longrightarrow> segs d r \<noteq> []"
  using concat_segs [of d r] by auto

lemma segs_append:
  "d \<noteq> [] \<Longrightarrow> n < length (segs d r) \<Longrightarrow> segs d (concat (take n (segs d r)) @ z) = take n (segs d r) @ segs d z"
proof (induction n arbitrary: r)
  case (Suc n)
  have "r \<noteq> []" using Suc.prems(2) by (cases r) auto
  then obtain a b where ab: "split_once d r = Some (a, b)"
    using segs_None [of r d] Suc.prems(2) by (cases "split_once d r") auto
  have r: "segs d r = (a @ d) # segs d b" by (rule segs_Some [OF Suc.prems(1) ab])
  then have "segs d (concat (take n (segs d b)) @ z) = take n (segs d b) @ segs d z" using Suc by simp
  moreover have "split_once d (a @ d @ concat (take n (segs d b)) @ z) = Some (a, concat (take n (segs d b)) @ z)"
    by (rule split_once_prefix [OF ab Suc.prems(1)])
  ultimately show ?case using segs_Some [OF Suc.prems(1)] r by simp
qed simp

section \<open>Order\<close>

lemma append_le_iff: "(p :: string) @ a \<le> p @ b \<longleftrightarrow> a \<le> b"
  by (induction p) (simp_all add: Cons_le_Cons)

lemma append_less_iff: "(p :: string) @ a < p @ b \<longleftrightarrow> a < b"
  by (induction p) (simp_all add: Cons_less_Cons)

lemma prefix_le: "prefix t x \<Longrightarrow> (t :: string) \<le> x"
  by (auto simp: prefix_def append_le_iff [of t "[]", simplified])

lemma between_prefix: "(t :: string) \<le> x \<Longrightarrow> x \<le> t @ z \<Longrightarrow> prefix t x"
proof (induction t arbitrary: x)
  case (Cons c t)
  then show ?case by (cases x) (auto simp: Cons_le_Cons)
qed simp

text \<open>The order of a listing: by path, an object before the common prefix of the same name.\<close>

definition ekey :: "key_listing_entry \<Rightarrow> string \<times> nat" where
  "ekey e = (ke_path e, entry_kind_rank (ke_kind e))"

lemma rank_inj: "entry_kind_rank a = entry_kind_rank b \<longleftrightarrow> a = b"
  by (cases a; cases b) simp_all

lemma ekey_inj: "ekey a = ekey b \<longleftrightarrow> a = b"
  by (auto simp: ekey_def rank_inj)

text \<open>The path and kind of a remainder, as it is collapsed after \<open>n\<close> segments.\<close>

definition rkey :: "string \<Rightarrow> nat \<Rightarrow> string \<Rightarrow> string \<times> nat" where
  "rkey d n r = (if length (segs d r) \<le> n then (r, 0) else (concat (take n (segs d r)), 1))"

lemma collapsed_prefix: "d \<noteq> [] \<Longrightarrow> prefix (concat (take n (segs d r))) r"
  using concat_segs [of d r] by (metis append_take_drop_id concat_append prefixI)

lemma same_collapse:
  assumes "d \<noteq> []" "n < length (segs d r)" "prefix (concat (take n (segs d r))) x" "x \<noteq> concat (take n (segs d r))"
  shows "n < length (segs d x)" "concat (take n (segs d x)) = concat (take n (segs d r))"
proof -
  obtain z where z: "x = concat (take n (segs d r)) @ z" "z \<noteq> []" using assms(3,4) by (auto simp: prefix_def)
  have "segs d x = take n (segs d r) @ segs d z" unfolding z(1) by (rule segs_append [OF assms(1,2)])
  then show "n < length (segs d x)" "concat (take n (segs d x)) = concat (take n (segs d r))"
    using assms(2) segs_nonempty [OF assms(1) z(2)] by simp_all
qed

lemma rkey_mono:
  assumes "d \<noteq> []" "r1 \<le> r2"
  shows "rkey d n r1 \<le> rkey d n r2"
proof (cases "n < length (segs d r2)")
  case False
  have "fst (rkey d n r1) \<le> r1" using prefix_le [OF collapsed_prefix [OF assms(1)]] by (simp add: rkey_def)
  then show ?thesis
  proof (cases "fst (rkey d n r1) = r2")
    case True
    then have "r1 = r2" using \<open>fst (rkey d n r1) \<le> r1\<close> assms(2) by simp
    then show ?thesis by simp
  qed (use False assms(2) in \<open>auto simp: rkey_def less_eq_prod_def\<close>)
next
  case True
  let ?t = "concat (take n (segs d r2))"
  have r2: "prefix ?t r2" by (rule collapsed_prefix [OF assms(1)])
  show ?thesis
  proof (cases "prefix ?t r1 \<and> r1 \<noteq> ?t")
    case pre: True
    then have "n < length (segs d r1)" "concat (take n (segs d r1)) = ?t" using same_collapse [OF assms(1) True] by blast+
    then show ?thesis using True by (simp add: rkey_def)
  next
    case no: False
    have "r1 \<le> ?t"
    proof (rule ccontr)
      assume "\<not> r1 \<le> ?t"
      then have "?t \<le> r1" "r1 \<noteq> ?t" by auto
      moreover obtain z where "r2 = ?t @ z" using r2 by (auto simp: prefix_def)
      ultimately have "prefix ?t r1" using between_prefix [of ?t r1 z] assms(2) by simp
      then show False using no \<open>r1 \<noteq> ?t\<close> by blast
    qed
    moreover have "fst (rkey d n r1) \<le> r1" using prefix_le [OF collapsed_prefix [OF assms(1)]] by (simp add: rkey_def)
    ultimately show ?thesis using True by (auto simp: rkey_def less_eq_prod_def)
  qed
qed

section \<open>The entries of a listing\<close>

lemma listed_total: "listed_entry mode pre (used_delimiter d) n key \<noteq> None"
  by (auto simp: listed_entry_def entry_for_key_def Let_def split_segs split: option.split)

abbreviation found_entries :: "(string \<Rightarrow> key_listing_entry option option) \<Rightarrow> string list \<Rightarrow> key_listing_entry list" where
  "found_entries entry_of keys \<equiv> List.map_filter (\<lambda>k. the (entry_of k)) keys"

text \<open>Equal neighbours are emitted once.\<close>

fun dedup :: "key_listing_entry option \<Rightarrow> key_listing_entry list \<Rightarrow> key_listing_entry list" where
  "dedup l [] = []"
| "dedup l (e # es) = (if l = Some e then dedup l es else e # dedup (Some e) es)"

text \<open>The whole listing.\<close>

definition listing :: "string list \<Rightarrow> prefix_mode \<Rightarrow> string \<Rightarrow> string option \<Rightarrow> usize option \<Rightarrow> key_listing_entry list" where
  "listing keys mode pre delimiter collapse_after =
     dedup None (found_entries (listed_entry mode pre (used_delimiter delimiter) collapse_after) keys)"

lemma page_loop_take:
  assumes "\<And>k. entry_of k \<noteq> None"
  shows "length acc \<le> m \<Longrightarrow>
    page_loop entry_of skip m keys l acc =
      (let new = dedup l (filter (\<lambda>e. \<not> skip e) (found_entries entry_of keys))
       in Some (acc @ take (m - length acc) new, m - length acc < length new))"
proof (induction keys arbitrary: l acc)
  case (Cons k keys)
  show ?case
  proof (cases "entry_of k")
    case (Some x)
    then show ?thesis
    proof (cases x)
      case (Some e)
      show ?thesis
      proof (cases "\<not> skip e \<and> l \<noteq> Some e \<and> length acc < m")
        case True
        then obtain j where "m - length acc = Suc j" "j = m - Suc (length acc)" by (metis Suc_diff_Suc)
        then show ?thesis using Cons.IH [of "acc @ [e]" "Some e"] True Some \<open>entry_of k = Some x\<close>
          by (simp add: map_filter_simps Let_def)
      next
        case False
        then show ?thesis using Cons Some \<open>entry_of k = Some x\<close> by (auto simp: map_filter_simps Let_def)
      qed
    qed (use Cons in \<open>simp add: map_filter_simps\<close>)
  qed (use assms in blast)
qed (simp add: map_filter_simps)

lemma count_loop_length:
  assumes "\<And>k. entry_of k \<noteq> None"
  shows "count_loop entry_of keys l n = Some (n + length (dedup l (found_entries entry_of keys)))"
proof (induction keys arbitrary: l n)
  case (Cons k keys)
  obtain x where "entry_of k = Some x" using assms by blast
  then show ?case using Cons by (cases x) (auto simp: map_filter_simps)
qed (simp add: map_filter_simps)

lemma set_dedup: "set (dedup None es) = set es"
proof -
  have "set (dedup l es) \<subseteq> set es \<and> set es \<subseteq> set (dedup l es) \<union> set_option l" for l
    by (induction l es rule: dedup.induct) auto
  from this [of None] show ?thesis by auto
qed

lemma dedup_strict: "sorted (map ekey es) \<Longrightarrow> sorted_wrt (<) (map ekey (dedup None es))"
proof -
  have "sorted (map ekey es) \<Longrightarrow> \<forall>x \<in> set_option l. \<forall>e \<in> set es. ekey x \<le> ekey e \<Longrightarrow>
      sorted_wrt (<) (map ekey (dedup l es)) \<and> (\<forall>x \<in> set_option l. \<forall>e \<in> set (dedup l es). ekey x < ekey e)" for l
  proof (induction l es rule: dedup.induct)
    case (2 l e es)
    show ?case
    proof (cases "l = Some e")
      case True
      then show ?thesis using "2.IH"(1) [OF True] "2.prems" by simp
    next
      case False
      have "sorted_wrt (<) (map ekey (dedup (Some e) es)) \<and> (\<forall>e' \<in> set (dedup (Some e) es). ekey e < ekey e')"
        using "2.IH"(2) [OF False] "2.prems" by simp
      moreover have "ekey x < ekey e" if "l = Some x" for x
        using that False "2.prems"(2) ekey_inj [of x e] by (simp add: order_less_le)
      ultimately show ?thesis using False by (auto intro: less_trans)
    qed
  qed simp
  from this [of None] show "sorted (map ekey es) \<Longrightarrow> sorted_wrt (<) (map ekey (dedup None es))" by simp
qed

lemma strict_unique:
  assumes "sorted_wrt (<) (map ekey as)" "sorted_wrt (<) (map ekey bs)" "set as = set bs"
  shows "as = bs"
proof -
  have "map ekey as = map ekey bs"
    by (rule sorted_distinct_set_unique) (use assms in \<open>simp_all add: strict_sorted_iff\<close>)
  then show ?thesis using ekey_inj by (metis inj_onI list.inj_map_strong)
qed

lemma dedup_filter:
  assumes "sorted (map ekey es)"
  shows "dedup None (filter P es) = filter P (dedup None es)"
proof (rule strict_unique)
  show "sorted_wrt (<) (map ekey (dedup None (filter P es)))"
    by (rule dedup_strict) (rule sorted_filter [OF assms])
  show "sorted_wrt (<) (map ekey (filter P (dedup None es)))"
    using dedup_strict [OF assms] by (simp add: sorted_wrt_map sorted_wrt_filter)
qed (simp add: set_dedup)

text \<open>A request is aligned when collapsed paths are prefixes of the keys they stand for: with exact
  prefixes the prefix ends with the delimiter; with path boundaries the delimiter is a slash, the prefix
  does not end with one, and the keys have no empty segments.\<close>

definition aligned :: "prefix_mode \<Rightarrow> string \<Rightarrow> string option \<Rightarrow> string list \<Rightarrow> bool" where
  "aligned mode pre delimiter keys \<longleftrightarrow>
     (case used_delimiter delimiter of
        None \<Rightarrow> True
      | Some d \<Rightarrow>
          (case mode of
             ExactStartsWith \<Rightarrow> pre = [] \<or> ends_with pre d
           | PathBoundary \<Rightarrow> d = ''/'' \<and> \<not> ends_with pre ''/'' \<and>
               (\<forall>k \<in> set keys. \<not> starts_with k ''/'' \<and> \<not> str_contains k ''//'')))"

definition base :: "prefix_mode \<Rightarrow> string \<Rightarrow> string" where
  "base mode pre = (if mode = ExactStartsWith \<or> pre = [] then pre else pre @ ''/'')"

lemma entry_plain:
  assumes "used_delimiter delimiter = None \<or> n = None \<or> n = Some 0"
    "listed_entry mode pre (used_delimiter delimiter) n key = Some (Some e)"
  shows "ekey e = (key, 0)"
  using assms by (auto simp: listed_entry_def entry_for_key_def ekey_def split: option.splits)

lemma entry_collapsed:
  assumes "d \<noteq> []" "0 < n" "entry_for_key key pre r (Some d) (Some n) = Some e" "key = p @ r"
    and "\<And>c. prefix c r \<Longrightarrow> c \<noteq> [] \<Longrightarrow>
      (if pre = [] then c else if ends_with pre d \<or> starts_with c d then pre @ c else pre @ d @ c) = p @ c"
  shows "ekey e = (p @ fst (rkey d n r), snd (rkey d n r))"
proof (cases "length (segs d r) \<le> n")
  case True
  then show ?thesis using assms(1-4) by (auto simp: entry_for_key_def split_segs ekey_def rkey_def)
next
  case False
  let ?c = "concat (take n (segs d r))"
  have "?c \<noteq> []"
  proof
    assume "?c = []"
    have "n < length (segs d r)" using False by simp
    from segs_append [OF assms(1) this, of "[]"] \<open>?c = []\<close> have "take n (segs d r) = []" by simp
    then show False using assms(2) False by simp
  qed
  from assms(5) [OF collapsed_prefix [OF assms(1)] this] False assms(1-3)
  show ?thesis by (auto simp: entry_for_key_def split_segs ekey_def rkey_def Let_def)
qed

lemma no_double_slash:
  assumes "\<not> str_contains (pre @ CHR ''/'' # r) ''//''"
  shows "trim_start_matches CHR ''/'' (CHR ''/'' # r) = r" "\<not> starts_with r ''/''"
proof -
  have "\<not> prefix ''/'' r"
  proof
    assume "prefix ''/'' r"
    then obtain z where "r = ''/'' @ z" by (auto simp: prefix_def)
    then have "pre @ CHR ''/'' # r = pre @ ''//'' @ z" by simp
    then have "sublist ''//'' (pre @ CHR ''/'' # r)" using sublist_appendI [of "''//''" pre z] by simp
    then show False using assms by (simp add: str_contains_def split_once_None)
  qed
  then show "trim_start_matches CHR ''/'' (CHR ''/'' # r) = r" "\<not> starts_with r ''/''"
    by (cases r; simp add: trim_start_matches_def starts_with_def)+
qed

lemma entry_form:
  assumes "aligned mode pre delimiter keys" "used_delimiter delimiter = Some d" "0 < n" "key \<in> set keys"
    "listed_entry mode pre (Some d) (Some n) key = Some (Some e)"
  shows "(\<exists>r. key = base mode pre @ r \<and> ekey e = (base mode pre @ fst (rkey d n r), snd (rkey d n r))) \<or>
    (key = pre \<and> base mode pre = pre @ ''/'' \<and> ekey e = (pre, 0))"
proof -
  have d: "d \<noteq> []" using assms(2) by auto
  obtain r where r: "key_remainder_for_prefix key pre mode = Some r" "entry_for_key key pre r (Some d) (Some n) = Some e"
    using assms(5) by (auto simp: listed_entry_def split: option.splits)
  show ?thesis
  proof (cases mode)
    case ExactStartsWith
    then have "key = pre @ r" using r(1) by (auto simp: key_remainder_for_prefix_def strip_prefix_Some split: if_splits)
    moreover have "pre = [] \<or> ends_with pre d" using assms(1,2) ExactStartsWith by (simp add: aligned_def)
    ultimately show ?thesis
      using entry_collapsed [OF d assms(3) r(2), of pre] ExactStartsWith by (auto simp: base_def)
  next
    case PathBoundary
    then have al: "d = ''/''" "\<not> ends_with pre ''/''" "\<not> starts_with key ''/''" "\<not> str_contains key ''//''"
      using assms(1,2,4) by (auto simp: aligned_def)
    have rem: "store_index_remainder_for_prefix key pre = Some r"
      using r(1) PathBoundary by (simp add: key_remainder_for_prefix_def)
    consider (root) "pre = []" | (self) "pre \<noteq> []" "key = pre" "r = []"
      | (below) s where "pre \<noteq> []" "key = pre @ CHR ''/'' # s" "r = trim_start_matches CHR ''/'' (CHR ''/'' # s)"
      using rem by (auto simp: store_index_remainder_for_prefix_def strip_prefix_Some starts_with_def prefix_def
          split: if_splits option.splits)
    then show ?thesis
    proof cases
      case root
      then have "r = key" using rem al(3)
        by (cases key) (auto simp: store_index_remainder_for_prefix_def trim_start_matches_def starts_with_def)
      then show ?thesis using entry_collapsed [OF d assms(3) r(2), of "[]"] root by (auto simp: base_def)
    next
      case self
      then show ?thesis using entry_collapsed [OF d assms(3) r(2), of pre] PathBoundary by (simp add: base_def rkey_def)
    next
      case below
      note nds = no_double_slash [of pre s, folded below(2), OF al(4)]
      have "r = s" using below(3) nds(1) by simp
      moreover have "\<not> starts_with c ''/''" if "prefix c s" "c \<noteq> []" for c
        using nds(2) that by (cases c) (auto simp: starts_with_def prefix_def)
      ultimately show ?thesis
        using entry_collapsed [OF d assms(3) r(2), of "pre @ ''/''"] below PathBoundary al
        by (auto simp: base_def)
    qed
  qed
qed

lemma entry_mono:
  assumes "aligned mode pre delimiter keys" "k1 \<in> set keys" "k2 \<in> set keys" "k1 \<le> k2"
    "listed_entry mode pre (used_delimiter delimiter) n k1 = Some (Some e1)"
    "listed_entry mode pre (used_delimiter delimiter) n k2 = Some (Some e2)"
  shows "ekey e1 \<le> ekey e2"
proof (cases "used_delimiter delimiter = None \<or> n = None \<or> n = Some 0")
  case True
  from entry_plain [OF True assms(5)] entry_plain [OF True assms(6)] assms(4) show ?thesis
    by (simp add: less_eq_prod_def order_le_less)
next
  case False
  then obtain d m where d: "used_delimiter delimiter = Some d" "n = Some m" "0 < m" "d \<noteq> []" by auto
  let ?b = "base mode pre"
  have less: "(?b @ x, i) \<le> (?b @ y, j)" if "(x, i) \<le> (y, j)" for x y and i j :: nat
    using that by (auto simp: less_eq_prod_def append_le_iff append_less_iff)
  have form: "(\<exists>r. k = ?b @ r \<and> ekey e = (?b @ fst (rkey d m r), snd (rkey d m r))) \<or>
      (k = pre \<and> ?b = pre @ ''/'' \<and> ekey e = (pre, 0))"
    if "k \<in> set keys" "listed_entry mode pre (used_delimiter delimiter) n k = Some (Some e)" for k e
    using entry_form [OF assms(1) d(1,3) that(1)] that(2) d by simp
  from form [OF assms(2,5)] form [OF assms(3,6)] show ?thesis
  proof (elim disjE exE conjE)
    fix r1 r2 assume "k1 = ?b @ r1" "k2 = ?b @ r2"
      and e: "ekey e1 = (?b @ fst (rkey d m r1), snd (rkey d m r1))" "ekey e2 = (?b @ fst (rkey d m r2), snd (rkey d m r2))"
    then have "r1 \<le> r2" using assms(4) by (simp add: append_le_iff)
    from rkey_mono [OF d(4) this, of m] show ?thesis unfolding e by (intro less) simp
  next
    fix r assume "k1 = ?b @ r" "k2 = pre" "?b = pre @ ''/''"
    then show ?thesis using assms(4) append_le_iff [of pre "''/'' @ r" "[]"] by simp
  next
    fix r assume "?b = pre @ ''/''" "ekey e1 = (pre, 0)" "ekey e2 = (?b @ fst (rkey d m r), snd (rkey d m r))"
    then show ?thesis using append_less_iff [of pre "[]" "''/'' @ fst (rkey d m r)"] by (simp add: less_eq_prod_def)
  qed simp
qed

lemma found_sorted:
  assumes "aligned mode pre delimiter keys" "sorted keys"
  shows "sorted (map ekey (found_entries (listed_entry mode pre (used_delimiter delimiter) n) keys))"
proof -
  let ?f = "\<lambda>k. the (listed_entry mode pre (used_delimiter delimiter) n k)"
  have "sorted (map ekey (List.map_filter ?f ks))" if "sorted ks" "set ks \<subseteq> set keys" for ks
    using that
  proof (induction ks)
    case (Cons k ks)
    have listed: "listed_entry mode pre (used_delimiter delimiter) n j = Some (?f j)" for j
      by (rule option.collapse [OF listed_total, symmetric])
    have "ekey e \<le> ekey e'" if "?f k = Some e" "k' \<in> set ks" "?f k' = Some e'" for e k' e'
    proof (rule entry_mono [OF assms(1), of k k' n])
      show "k \<in> set keys" "k' \<in> set keys" "k \<le> k'" using Cons.prems that(2) by auto
      show "listed_entry mode pre (used_delimiter delimiter) n k = Some (Some e)"
        "listed_entry mode pre (used_delimiter delimiter) n k' = Some (Some e')"
        by (rule listed [of k, unfolded that(1)], rule listed [of k', unfolded that(3)])
    qed
    moreover have "sorted (map ekey (List.map_filter ?f ks))" using Cons by simp
    moreover have "\<exists>k' \<in> set ks. ?f k' = Some e'" if "e' \<in> set (List.map_filter ?f ks)" for e'
      using that by (auto simp: List.map_filter_def)
    ultimately show ?case by (cases "?f k") (fastforce simp: map_filter_simps)+
  qed (simp add: map_filter_simps)
  then show ?thesis using assms(2) by blast
qed

section \<open>Paging\<close>

lemma listing_strict:
  assumes "aligned mode pre delimiter keys" "sorted keys"
  shows "sorted_wrt (<) (map ekey (listing keys mode pre delimiter n))"
  unfolding listing_def by (rule dedup_strict [OF found_sorted [OF assms]])

text \<open>A cursor of the request itself.\<close>

abbreviation request_cursor ::
  "string \<Rightarrow> prefix_mode \<Rightarrow> string \<Rightarrow> string option \<Rightarrow> usize option \<Rightarrow> key_listing_entry \<Rightarrow> key_listing_cursor" where
  "request_cursor scope mode pre delimiter n e \<equiv> \<lparr>kc_scope = scope, kc_prefix_mode = mode, kc_prefix = pre,
     kc_delimiter = used_delimiter delimiter, kc_collapse_after = n, kc_last_path = ke_path e, kc_last_kind = ke_kind e\<rparr>"

text \<open>The codec gives back the cursors of the request.\<close>

definition codec_ok ::
  "listing_codec \<Rightarrow> string \<Rightarrow> prefix_mode \<Rightarrow> string \<Rightarrow> string option \<Rightarrow> usize option \<Rightarrow> bool" where
  "codec_ok codec scope mode pre delimiter n \<longleftrightarrow>
     (\<forall>e. lc_base64_decode codec (lc_base64_encode codec (lc_to_json codec (request_cursor scope mode pre delimiter n e))) =
            Some (lc_to_json codec (request_cursor scope mode pre delimiter n e)) \<and>
          lc_from_json codec (lc_to_json codec (request_cursor scope mode pre delimiter n e)) =
            Some (request_cursor scope mode pre delimiter n e))"

lemma decode_own:
  "codec_ok codec scope mode pre delimiter n \<Longrightarrow>
   decode_cursor codec (encode_cursor codec (request_cursor scope mode pre delimiter n e)) scope mode pre (used_delimiter delimiter) n =
     Inr (request_cursor scope mode pre delimiter n e)"
  by (simp add: codec_ok_def decode_cursor_def encode_cursor_def)

lemma skipped_own: "skipped (Some (request_cursor scope mode pre delimiter n e)) None x \<longleftrightarrow> ekey x \<le> ekey e"
  by (auto simp: skipped_def ekey_def less_eq_prod_def)

lemma page_entries:
  assumes "aligned mode pre delimiter keys" "sorted keys"
  shows "page_loop (listed_entry mode pre (used_delimiter delimiter) n) skip (max m 1) keys None [] =
    (let new = filter (\<lambda>e. \<not> skip e) (listing keys mode pre delimiter n)
     in Some (take (max m 1) new, max m 1 < length new))"
  using page_loop_take [of "listed_entry mode pre (used_delimiter delimiter) n" "[]" "max m 1" skip keys None]
    listed_total dedup_filter [OF found_sorted [OF assms]] by (simp add: listing_def Let_def)

text \<open>The pages a client gets by following the cursors.\<close>

fun all_pages ::
  "nat \<Rightarrow> listing_codec \<Rightarrow> string list \<Rightarrow> string \<Rightarrow> prefix_mode \<Rightarrow> string \<Rightarrow> string option \<Rightarrow> usize option
     \<Rightarrow> string option \<Rightarrow> string option \<Rightarrow> usize \<Rightarrow> key_listing_entry list option" where
  "all_pages 0 codec keys scope mode pre delimiter n cursor start_after m = None"
| "all_pages (Suc fuel) codec keys scope mode pre delimiter n cursor start_after m =
     (case paginate_sorted_keys codec keys scope mode pre delimiter n cursor start_after m of
        Some (Inr page) \<Rightarrow>
          (case kp_next_cursor page of
             None \<Rightarrow> Some (kp_entries page)
           | Some c \<Rightarrow> map_option (append (kp_entries page))
                         (all_pages fuel codec keys scope mode pre delimiter n (Some c) start_after m))
      | _ \<Rightarrow> None)"

lemma rest_after_page:
  assumes "sorted_wrt (<) (map ekey L)" and P: "new = filter P L" "\<And>a b. P a \<Longrightarrow> ekey a \<le> ekey b \<Longrightarrow> P b"
    and m: "0 < m" "m < length new"
  shows "filter (\<lambda>e. \<not> ekey e \<le> ekey (last (take m new))) L = drop m new"
proof -
  have strict: "sorted_wrt (<) (map ekey new)" unfolding P(1) using assms(1) by (simp add: sorted_wrt_map sorted_wrt_filter)
  let ?x = "last (take m new)"
  have x: "?x = new ! (m - 1)" using m by (subst last_conv_nth) auto
  then have "P ?x" using m nth_mem [of "m - 1" new] P(1) by simp
  have "P e" if "\<not> ekey e \<le> ekey ?x" for e using P(2) [OF \<open>P ?x\<close>, of e] that by (simp add: not_le less_imp_le)
  then have "(\<not> ekey e \<le> ekey ?x) = (\<not> ekey e \<le> ekey ?x \<and> P e)" for e by blast
  then have "filter (\<lambda>e. \<not> ekey e \<le> ekey ?x) L = filter (\<lambda>e. \<not> ekey e \<le> ekey ?x) (filter P L)"
    unfolding filter_filter by (intro filter_cong refl) blast
  then have "filter (\<lambda>e. \<not> ekey e \<le> ekey ?x) L = filter (\<lambda>e. \<not> ekey e \<le> ekey ?x) new"
    unfolding P(1) [symmetric] .
  also have "\<dots> = filter (\<lambda>e. \<not> ekey e \<le> ekey ?x) (take m new) @ filter (\<lambda>e. \<not> ekey e \<le> ekey ?x) (drop m new)"
    by (metis append_take_drop_id filter_append)
  also have "filter (\<lambda>e. \<not> ekey e \<le> ekey ?x) (take m new) = []"
  proof -
    have "ekey (new ! i) \<le> ekey (new ! (m - 1))" if "i < m" for i
      using strict that m by (cases "i = m - 1") (auto simp: sorted_wrt_iff_nth_less less_imp_le)
    then show ?thesis unfolding x by (auto simp: filter_empty_conv in_set_conv_nth)
  qed
  also have "filter (\<lambda>e. \<not> ekey e \<le> ekey ?x) (drop m new) = drop m new"
  proof -
    have "ekey (new ! (m - 1)) < ekey (new ! (m + i))" if "m + i < length new" for i
      using strict that m(1) by (auto simp: sorted_wrt_iff_nth_less)
    then show ?thesis unfolding x by (auto simp: filter_id_conv in_set_conv_nth not_le)
  qed
  finally show ?thesis by simp
qed

lemma page_at:
  fixes pos :: "key_listing_entry option"
  assumes "aligned mode pre delimiter keys" "sorted keys" "codec_ok codec scope mode pre delimiter n"
  shows "paginate_sorted_keys codec keys scope mode pre delimiter n
      (map_option (\<lambda>e. encode_cursor codec (request_cursor scope mode pre delimiter n e)) pos) start_after m =
    (let new = filter (\<lambda>x. case pos of Some e \<Rightarrow> ekey e < ekey x | None \<Rightarrow> \<not> skipped None start_after x) (listing keys mode pre delimiter n)
     in Some (Inr (finish_page codec scope mode pre (used_delimiter delimiter) n (take (max m 1) new) (max m 1 < length new))))"
proof (cases pos)
  case None
  show ?thesis
    unfolding None paginate_sorted_keys_def Let_def page_entries [OF assms(1,2)] option.map option.case sum.case simp_thms if_True
      Option.bind.simps prod.case by simp
next
  case (Some e)
  show ?thesis
    unfolding Some paginate_sorted_keys_def Let_def page_entries [OF assms(1,2)] option.map option.case decode_own [OF assms(3)]
      map_sum.simps sum.case option.distinct simp_thms if_False Option.bind.simps prod.case by (simp add: skipped_own not_le)
qed

lemma finish_page_next:
  "kp_entries (finish_page codec scope mode pre delimiter n es b) = es"
  "kp_next_cursor (finish_page codec scope mode pre (used_delimiter delimiter) n es False) = None"
  "es \<noteq> [] \<Longrightarrow> kp_next_cursor (finish_page codec scope mode pre (used_delimiter delimiter) n es True) =
     Some (encode_cursor codec (request_cursor scope mode pre delimiter n (last es)))"
  by (simp_all add: finish_page_def last_opt_def)

lemma pages_from:
  assumes "aligned mode pre delimiter keys" "sorted keys" "codec_ok codec scope mode pre delimiter n"
  shows "length (filter P (listing keys mode pre delimiter n)) < fuel \<Longrightarrow>
    P = (\<lambda>x. case pos of Some e \<Rightarrow> ekey e < ekey x | None \<Rightarrow> \<not> skipped None start_after x) \<Longrightarrow>
    all_pages fuel codec keys scope mode pre delimiter n
      (map_option (\<lambda>e. encode_cursor codec (request_cursor scope mode pre delimiter n e)) pos) start_after m =
    Some (filter P (listing keys mode pre delimiter n))"
proof (induction fuel arbitrary: P pos)
  case (Suc fuel)
  let ?L = "listing keys mode pre delimiter n"
  let ?new = "filter P ?L"
  define mm where "mm = max m 1"
  have page: "paginate_sorted_keys codec keys scope mode pre delimiter n
      (map_option (\<lambda>e. encode_cursor codec (request_cursor scope mode pre delimiter n e)) pos) start_after m =
    Some (Inr (finish_page codec scope mode pre (used_delimiter delimiter) n (take mm ?new) (mm < length ?new)))"
    unfolding page_at [OF assms] Let_def mm_def Suc.prems(2) by (rule refl)
  have "0 < mm" unfolding mm_def by simp
  show ?case
  proof (cases "mm < length ?new")
    case True
    let ?x = "last (take mm ?new)"
    have "P b" if "P a" "ekey a \<le> ekey b" for a b
    proof (cases pos)
      case None
      have "ke_path a \<le> ke_path b" using that(2) by (auto simp: ekey_def less_eq_prod_def)
      then show ?thesis using that(1) None unfolding Suc.prems(2) by (auto simp: skipped_def split: option.splits)
    next
      case (Some e)
      then show ?thesis using less_le_trans [OF _ that(2), of "ekey e"] that(1) unfolding Suc.prems(2) by simp
    qed
    then have rest: "filter (\<lambda>x. ekey ?x < ekey x) ?L = drop mm ?new"
      by (rule rest_after_page [OF listing_strict [OF assms(1,2)] refl _ \<open>0 < mm\<close> True, unfolded not_le])
    have "all_pages fuel codec keys scope mode pre delimiter n
        (map_option (\<lambda>e. encode_cursor codec (request_cursor scope mode pre delimiter n e)) (Some ?x)) start_after m =
      Some (filter (\<lambda>x. ekey ?x < ekey x) ?L)"
    proof (rule Suc.IH)
      have "length (drop mm ?new) + mm = length ?new" "1 \<le> mm" using True \<open>0 < mm\<close> by simp_all
      then show "length (filter (\<lambda>x. ekey ?x < ekey x) ?L) < fuel" unfolding rest using Suc.prems(1) by linarith
    qed simp
    then have next_pages: "all_pages fuel codec keys scope mode pre delimiter n
        (Some (encode_cursor codec (request_cursor scope mode pre delimiter n ?x))) start_after m = Some (drop mm ?new)"
      by (simp only: option.map rest)
    have "take mm ?new \<noteq> []" using True \<open>0 < mm\<close> by auto
    then have cursor: "kp_next_cursor (finish_page codec scope mode pre (used_delimiter delimiter) n (take mm ?new) True) =
        Some (encode_cursor codec (request_cursor scope mode pre delimiter n ?x))"
      by (rule finish_page_next)
    show ?thesis
      unfolding all_pages.simps page option.case sum.case True [THEN eqTrueI] cursor finish_page_next(1) next_pages option.map append_take_drop_id
      by (rule refl)
  next
    case False
    then show ?thesis by (simp add: page finish_page_next)
  qed
qed simp

lemma listing_length: "length (listing keys mode pre delimiter n) \<le> length keys"
proof -
  have "length (dedup l es) \<le> length es" for l es by (induction l es rule: dedup.induct) auto
  also have "length (List.map_filter f ks) \<le> length ks" for f :: "string \<Rightarrow> key_listing_entry option" and ks
    by (simp add: List.map_filter_def)
  finally show ?thesis unfolding listing_def .
qed

section \<open>Properties\<close>

text \<open>C19: Following the cursors of an aligned listing gives exactly the whole listing after the start, in
  strictly increasing order, for any page size; the entries are
  those of the keys below the prefix, and the count reported beside the pages is their number.\<close>

theorem paging_complete:
  assumes "sorted keys" "aligned mode pre delimiter keys" "codec_ok codec scope mode pre delimiter n"
  shows "all_pages (Suc (length keys)) codec keys scope mode pre delimiter n None start_after m =
      Some (filter (\<lambda>e. case start_after of None \<Rightarrow> True | Some a \<Rightarrow> a < ke_path e) (listing keys mode pre delimiter n)) \<and>
    sorted_wrt (<) (map ekey (listing keys mode pre delimiter n)) \<and>
    set (listing keys mode pre delimiter n) =
      {e. \<exists>k. k \<in> set keys \<and> listed_entry mode pre (used_delimiter delimiter) n k = Some (Some e)} \<and>
    count_sorted_keys keys mode pre delimiter n = Some (length (listing keys mode pre delimiter n))"
proof (intro conjI)
  let ?L = "listing keys mode pre delimiter n"
  have P: "(\<lambda>e. case start_after of None \<Rightarrow> True | Some a \<Rightarrow> a < ke_path e) =
      (\<lambda>x. case None of Some e \<Rightarrow> ekey e < ekey x | None \<Rightarrow> \<not> skipped None start_after x)"
    by (auto simp: skipped_def fun_eq_iff not_le split: option.split)
  have "length (filter (\<lambda>e. case start_after of None \<Rightarrow> True | Some a \<Rightarrow> a < ke_path e) ?L) < Suc (length keys)"
    using length_filter_le listing_length by (metis le_imp_less_Suc order_trans)
  from pages_from [OF assms(2,1,3) this, where pos = None and start_after = start_after and m = m]
  show "all_pages (Suc (length keys)) codec keys scope mode pre delimiter n None start_after m =
      Some (filter (\<lambda>e. case start_after of None \<Rightarrow> True | Some a \<Rightarrow> a < ke_path e) ?L)"
    using P by simp
  show "sorted_wrt (<) (map ekey ?L)" by (rule listing_strict [OF assms(2,1)])
  have "the (listed_entry mode pre (used_delimiter delimiter) n k) = Some e \<longleftrightarrow>
      listed_entry mode pre (used_delimiter delimiter) n k = Some (Some e)" for k e
    using listed_total [of mode pre delimiter n k] by auto
  then show "set ?L = {e. \<exists>k. k \<in> set keys \<and> listed_entry mode pre (used_delimiter delimiter) n k = Some (Some e)}"
    by (force simp: listing_def set_dedup List.map_filter_def)
  show "count_sorted_keys keys mode pre delimiter n = Some (length ?L)"
    unfolding count_sorted_keys_def listing_def count_loop_length [OF listed_total] by simp
qed

text \<open>A codec for one S3 request: the kind and the path of the last entry.\<close>

definition sample_codec :: "string \<Rightarrow> listing_codec" where
  "sample_codec pre = \<lparr>lc_base64_encode = id, lc_base64_decode = Some,
     lc_to_json = (\<lambda>c. (if kc_last_kind c = ObjectEntry then CHR ''o'' else CHR ''p'') # kc_last_path c),
     lc_from_json = (\<lambda>s. case s of [] \<Rightarrow> None | k # path \<Rightarrow>
       Some \<lparr>kc_scope = ''s3:b'', kc_prefix_mode = ExactStartsWith, kc_prefix = pre, kc_delimiter = Some ''/'',
         kc_collapse_after = Some 1, kc_last_path = path,
         kc_last_kind = (if k = CHR ''o'' then ObjectEntry else CommonPrefix)\<rparr>)\<rparr>"

lemma slash_delimiter: "trim ''/'' = ''/''"
  by (simp add: trim_id ws_firsts_def ws_lasts_def white_space_def)

lemma sample_codec_ok: "codec_ok (sample_codec pre) ''s3:b'' ExactStartsWith pre (Some ''/'') (Some 1)"
proof -
  have "k \<noteq> ObjectEntry \<longleftrightarrow> k = CommonPrefix" for k by (cases k) simp_all
  then show ?thesis by (auto simp: codec_ok_def sample_codec_def slash_delimiter)
qed

theorem paging_complete_witness:
  "all_pages 5 (sample_codec ''d/'') [''d/a'', ''d/b/1'', ''d/b/2'', ''d/c''] ''s3:b'' ExactStartsWith ''d/'' (Some ''/'') (Some 1) None None 2 =
     Some [\<lparr>ke_path = ''d/a'', ke_kind = ObjectEntry\<rparr>, \<lparr>ke_path = ''d/b/'', ke_kind = CommonPrefix\<rparr>, \<lparr>ke_path = ''d/c'', ke_kind = ObjectEntry\<rparr>]"
proof -
  let ?keys = "[''d/a'', ''d/b/1'', ''d/b/2'', ''d/c'']"
  have "sorted ?keys" by code_simp
  moreover have "aligned ExactStartsWith ''d/'' (Some ''/'') ?keys"
    by (simp add: aligned_def slash_delimiter ends_with_def suffix_def)
  moreover have "listing ?keys ExactStartsWith ''d/'' (Some ''/'') (Some 1) =
      [\<lparr>ke_path = ''d/a'', ke_kind = ObjectEntry\<rparr>, \<lparr>ke_path = ''d/b/'', ke_kind = CommonPrefix\<rparr>, \<lparr>ke_path = ''d/c'', ke_kind = ObjectEntry\<rparr>]"
    by code_simp
  ultimately have "all_pages (Suc (length ?keys)) (sample_codec ''d/'') ?keys ''s3:b'' ExactStartsWith ''d/'' (Some ''/'') (Some 1) None None 2 =
      Some (filter (\<lambda>e. True) [\<lparr>ke_path = ''d/a'', ke_kind = ObjectEntry\<rparr>, \<lparr>ke_path = ''d/b/'', ke_kind = CommonPrefix\<rparr>,
        \<lparr>ke_path = ''d/c'', ke_kind = ObjectEntry\<rparr>])"
    using conjunct1 [OF paging_complete [OF _ _ sample_codec_ok, of ?keys "''d/''" None 2]] by (simp only: option.case)
  moreover have "Suc (length ?keys) = 5" by simp
  ultimately show ?thesis by (simp only: filter.simps if_True)
qed

text \<open>A cursor is only accepted by the listing it came from.\<close>

lemma foreign_cursor_rejected:
  assumes "codec_ok codec scope' mode' pre' delimiter' n'"
    and "(scope', mode', pre', used_delimiter delimiter', n') \<noteq> (scope, mode, pre, used_delimiter delimiter, n)"
  shows "paginate_sorted_keys codec keys scope mode pre delimiter n
    (Some (encode_cursor codec (request_cursor scope' mode' pre' delimiter' n' e))) start_after m = Some (Inl TokenMismatch)"
  using assms by (auto simp: paginate_sorted_keys_def Let_def decode_cursor_def encode_cursor_def codec_ok_def)

text \<open>With a prefix that does not end with the delimiter the collapsed path is not a prefix of the keys it
  stands for, and a page after it is skipped: \<open>photos/1\<close> is listed as \<open>photo/s/\<close>, and not listed at
  all by a client that takes one entry per page.\<close>

lemma collapsed_prefix_misplaced:
  "listing [''photo0.txt'', ''photos/1''] ExactStartsWith ''photo'' (Some ''/'') (Some 1) =
     [\<lparr>ke_path = ''photo0.txt'', ke_kind = ObjectEntry\<rparr>, \<lparr>ke_path = ''photo/s/'', ke_kind = CommonPrefix\<rparr>]"
  by code_simp

lemma misplaced_prefix_lost:
  "all_pages 3 (sample_codec ''photo'') [''photo0.txt'', ''photos/1''] ''s3:b'' ExactStartsWith ''photo'' (Some ''/'') (Some 1) None None 1 =
     Some [\<lparr>ke_path = ''photo0.txt'', ke_kind = ObjectEntry\<rparr>]"
  by code_simp

end
