(* ===== verification/Repair_Gate.thy ===== *)
theory Repair_Gate
  imports BK_Prelude
begin

text \<open>
  The gate that lets one repair run at a time (\<open>server-node-sdk/src/repair_execution_gate.rs\<close>).
  Every operation of the gate happens under its mutex, so a run of the program is a sequence of
  the atomic steps below: a task registers as a waiter, inspects the state in one iteration of
  \<open>acquire\<close>, is cancelled, or drops its permit.  Instants and durations are natural numbers;
  waiter ids are 64-bit words, as their counter wraps around.
\<close>

section \<open>The gate\<close>

datatype repair_priority = Manual | Automatic

record repair_waiter =
  rw_id :: "64 word"
  rw_priority :: repair_priority
  rw_enqueued_at :: nat

record gate_state =
  gs_active :: bool
  gs_next_waiter_id :: "64 word"
  gs_waiters :: "repair_waiter list"

record gate_queue =
  gq_manual :: usize
  gq_automatic :: usize

definition new_gate :: gate_state where
  "new_gate = \<lparr>gs_active = False, gs_next_waiter_id = 0, gs_waiters = []\<rparr>"

definition oldest_manual :: "gate_state \<Rightarrow> repair_waiter option" where
  "oldest_manual g = find (\<lambda>w. rw_priority w = Manual) (gs_waiters g)"

definition overdue :: "nat \<Rightarrow> nat \<Rightarrow> gate_state \<Rightarrow> repair_waiter \<Rightarrow> bool" where
  "overdue aging now g w \<longleftrightarrow>
     rw_priority w = Automatic \<and> aging \<le> now - rw_enqueued_at w \<and>
     (case oldest_manual g of None \<Rightarrow> True | Some manual \<Rightarrow> rw_enqueued_at w \<le> rw_enqueued_at manual)"

definition selected_waiter :: "nat \<Rightarrow> nat \<Rightarrow> gate_state \<Rightarrow> repair_waiter option" where
  "selected_waiter aging now g =
     or_else (or_else (find (overdue aging now g) (gs_waiters g)) (oldest_manual g)) (first_opt (gs_waiters g))"

definition selected_waiter_id :: "nat \<Rightarrow> nat \<Rightarrow> gate_state \<Rightarrow> 64 word option" where
  "selected_waiter_id aging now g = map_option rw_id (selected_waiter aging now g)"

definition next_automatic_aging_deadline :: "nat \<Rightarrow> nat \<Rightarrow> gate_state \<Rightarrow> nat option" where
  "next_automatic_aging_deadline aging now g =
     (let ds = filter (\<lambda>d. now < d) (map (\<lambda>w. rw_enqueued_at w + aging)
                 (filter (\<lambda>w. rw_priority w = Automatic) (gs_waiters g)))
      in if ds = [] then None else Some (Min (set ds)))"

definition register :: "nat \<Rightarrow> repair_priority \<Rightarrow> gate_state \<Rightarrow> 64 word \<times> gate_state" where
  "register now priority g =
     (gs_next_waiter_id g,
      g\<lparr>gs_next_waiter_id := gs_next_waiter_id g + 1,
        gs_waiters := gs_waiters g @ [\<lparr>rw_id = gs_next_waiter_id g, rw_priority = priority, rw_enqueued_at = now\<rparr>]\<rparr>)"

definition unregister :: "64 word \<Rightarrow> gate_state \<Rightarrow> gate_state" where
  "unregister i g = g\<lparr>gs_waiters := filter (\<lambda>w. rw_id w \<noteq> i) (gs_waiters g)\<rparr>"

text \<open>One iteration of the loop of \<open>acquire\<close>: the permit, or the deadline to sleep until at the latest.\<close>

definition acquire_step :: "nat \<Rightarrow> nat \<Rightarrow> 64 word \<Rightarrow> gate_state \<Rightarrow> gate_state + nat option" where
  "acquire_step aging now i g =
     (if \<not> gs_active g \<and> selected_waiter_id aging now g = Some i
      then Inl (unregister i (g\<lparr>gs_active := True\<rparr>))
      else Inr (if gs_active g then None else next_automatic_aging_deadline aging now g))"

definition release_permit :: "gate_state \<Rightarrow> gate_state" where
  "release_permit g = g\<lparr>gs_active := False\<rparr>"

definition queue_snapshot :: "gate_state \<Rightarrow> gate_queue" where
  "queue_snapshot g =
     \<lparr>gq_manual = length (filter (\<lambda>w. rw_priority w = Manual) (gs_waiters g)),
      gq_automatic = length (filter (\<lambda>w. rw_priority w = Automatic) (gs_waiters g))\<rparr>"

section \<open>Tasks around the gate\<close>

text \<open>The gate, the time, the ids of the live registrations, the permits that have not been dropped, and how
  many registrations there have been.\<close>

record gate_system =
  gy_gate :: gate_state
  gy_now :: nat
  gy_registered :: "64 word list"
  gy_permits :: nat
  gy_count :: nat

datatype gate_event = Tick nat | Register repair_priority | Enter "64 word" | Cancel "64 word" | Release

inductive gate_step :: "nat \<Rightarrow> gate_system \<Rightarrow> gate_event \<Rightarrow> gate_system \<Rightarrow> bool" for aging where
  tick: "gate_step aging s (Tick d) (s\<lparr>gy_now := gy_now s + d\<rparr>)"
| register: "register (gy_now s) p (gy_gate s) = (i, g) \<Longrightarrow>
    gate_step aging s (Register p) (s\<lparr>gy_gate := g, gy_registered := gy_registered s @ [i], gy_count := Suc (gy_count s)\<rparr>)"
| enter: "i \<in> set (gy_registered s) \<Longrightarrow> acquire_step aging (gy_now s) i (gy_gate s) = Inl g \<Longrightarrow>
    gate_step aging s (Enter i) (s\<lparr>gy_gate := g, gy_registered := remove1 i (gy_registered s), gy_permits := Suc (gy_permits s)\<rparr>)"
| cancel: "i \<in> set (gy_registered s) \<Longrightarrow>
    gate_step aging s (Cancel i) (s\<lparr>gy_gate := unregister i (gy_gate s), gy_registered := remove1 i (gy_registered s)\<rparr>)"
| release: "0 < gy_permits s \<Longrightarrow>
    gate_step aging s Release (s\<lparr>gy_gate := release_permit (gy_gate s), gy_permits := gy_permits s - 1\<rparr>)"

inductive_cases gate_stepE: "gate_step aging s e s'"

inductive gate_run :: "nat \<Rightarrow> gate_system \<Rightarrow> gate_event list \<Rightarrow> gate_system \<Rightarrow> bool" for aging where
  nil: "gate_run aging s [] s"
| cons: "gate_step aging s e s1 \<Longrightarrow> gate_run aging s1 es s2 \<Longrightarrow> gate_run aging s (e # es) s2"

definition gate_start :: "gate_system \<Rightarrow> bool" where
  "gate_start s \<longleftrightarrow> (\<exists>t. s = \<lparr>gy_gate = new_gate, gy_now = t, gy_registered = [], gy_permits = 0, gy_count = 0\<rparr>)"

section \<open>Invariant\<close>

definition gate_inv :: "gate_system \<Rightarrow> bool" where
  "gate_inv s \<longleftrightarrow>
     gy_permits s = (if gs_active (gy_gate s) then 1 else 0) \<and>
     gs_next_waiter_id (gy_gate s) = word_of_nat (gy_count s) \<and>
     (gy_count s \<le> 2 ^ 64 \<longrightarrow>
        map rw_id (gs_waiters (gy_gate s)) = gy_registered s \<and> distinct (gy_registered s) \<and>
        (\<forall>i \<in> set (gy_registered s). unat i < gy_count s))"

lemma remove_waiter_ids:
  "distinct (map rw_id ws) \<Longrightarrow> map rw_id (filter (\<lambda>w. rw_id w \<noteq> i) ws) = remove1 i (map rw_id ws)"
proof (induction ws)
  case (Cons w ws)
  have "filter (\<lambda>w. rw_id w \<noteq> i) ws = ws" if "i \<notin> set (map rw_id ws)"
    using that by (auto simp: filter_id_conv)
  then show ?case using Cons by auto
qed simp

lemma gate_inv_step: "gate_inv s \<Longrightarrow> gate_step aging s e s' \<Longrightarrow> gate_inv s'"
proof (elim gate_stepE)
  fix p i g
  assume inv: "gate_inv s" and r: "register (gy_now s) p (gy_gate s) = (i, g)"
    and s': "s' = s\<lparr>gy_gate := g, gy_registered := gy_registered s @ [i], gy_count := Suc (gy_count s)\<rparr>"
  have i: "i = word_of_nat (gy_count s)" using inv r by (simp add: gate_inv_def register_def)
  have "unat i = gy_count s" if "Suc (gy_count s) \<le> 2 ^ 64" using that unfolding i by (simp add: unsigned_of_nat take_bit_nat_eq_self)
  then show "gate_inv s'"
    using inv r unfolding s' gate_inv_def by (auto simp: register_def less_Suc_eq)
next
  fix i g
  assume inv: "gate_inv s" and acq: "acquire_step aging (gy_now s) i (gy_gate s) = Inl g"
    and s': "s' = s\<lparr>gy_gate := g, gy_registered := remove1 i (gy_registered s), gy_permits := Suc (gy_permits s)\<rparr>"
  have "\<not> gs_active (gy_gate s)" "g = unregister i (gy_gate s\<lparr>gs_active := True\<rparr>)"
    using acq by (auto simp: acquire_step_def split: if_splits)
  then show "gate_inv s'"
    using inv remove_waiter_ids [of "gs_waiters (gy_gate s)" i] unfolding s' gate_inv_def
    by (auto simp: unregister_def dest: notin_set_remove1 set_remove1_subset [THEN subsetD])
next
  fix i
  assume inv: "gate_inv s" and s': "s' = s\<lparr>gy_gate := unregister i (gy_gate s), gy_registered := remove1 i (gy_registered s)\<rparr>"
  then show "gate_inv s'"
    using remove_waiter_ids [of "gs_waiters (gy_gate s)" i] unfolding s' gate_inv_def
    by (auto simp: unregister_def dest: set_remove1_subset [THEN subsetD])
qed (auto simp: gate_inv_def release_permit_def)

interpretation gate: step_system gate_start "\<lambda>s s'. \<exists>e. gate_step aging s e s'" gate_inv for aging
proof
  show "gate_start s \<Longrightarrow> gate_inv s" for s by (auto simp: gate_start_def gate_inv_def new_gate_def)
qed (blast intro: gate_inv_step)

lemma selected_mem: "selected_waiter aging now g = Some w \<Longrightarrow> w \<in> set (gs_waiters g)"
  unfolding selected_waiter_def oldest_manual_def
  by (cases "find (overdue aging now g) (gs_waiters g)"; cases "find (\<lambda>w. rw_priority w = Manual) (gs_waiters g)")
    (auto dest: find_SomeD first_opt_in_set)

lemma selected_None: "selected_waiter aging now g = None \<longleftrightarrow> gs_waiters g = []"
  by (auto simp: selected_waiter_def oldest_manual_def)

section \<open>Who is served\<close>

text \<open>A waiter is due when it is manual, or automatic and old enough.\<close>

definition due :: "nat \<Rightarrow> nat \<Rightarrow> repair_waiter \<Rightarrow> bool" where
  "due aging now w \<longleftrightarrow> rw_priority w = Automatic \<longrightarrow> aging \<le> now - rw_enqueued_at w"

definition ahead :: "repair_waiter \<Rightarrow> gate_state \<Rightarrow> nat" where
  "ahead w g = length (filter (\<lambda>x. rw_enqueued_at x \<le> rw_enqueued_at w) (gs_waiters g))"

lemma find_first_sorted:
  assumes "find P ws = Some x" "w \<in> set ws" "P w" "sorted (map rw_enqueued_at ws)"
  shows "rw_enqueued_at x \<le> rw_enqueued_at w"
  using assms by (induction ws) (auto split: if_splits)

lemma selected_no_later:
  assumes "sorted (map rw_enqueued_at (gs_waiters g))" "w \<in> set (gs_waiters g)" "due aging now w"
    "selected_waiter aging now g = Some x"
  shows "rw_enqueued_at x \<le> rw_enqueued_at w"
proof -
  let ?ws = "gs_waiters g"
  show ?thesis
  proof (cases "oldest_manual g")
    case None
    then have "rw_priority w = Automatic"
      using assms(2) by (cases "rw_priority w") (auto simp: oldest_manual_def find_None_iff)
    then have od: "overdue aging now g w" using assms(3) None by (simp add: overdue_def due_def)
    then obtain y where "find (overdue aging now g) ?ws = Some y"
      using assms(2) by (cases "find (overdue aging now g) ?ws") (auto simp: find_None_iff)
    then show ?thesis using find_first_sorted [where P = "overdue aging now g", OF _ assms(2) od assms(1)] assms(4) by (simp add: selected_waiter_def)
  next
    case (Some m)
    have m: "rw_enqueued_at m \<le> rw_enqueued_at w" if "rw_priority w = Manual"
      using find_first_sorted [where P = "\<lambda>w. rw_priority w = Manual", OF _ assms(2) that assms(1)] Some by (simp add: oldest_manual_def)
    show ?thesis
    proof (cases "find (overdue aging now g) ?ws")
      case None
      then have "x = m" using Some assms(4) by (simp add: selected_waiter_def)
      moreover have "\<not> overdue aging now g w" using None assms(2) by (simp add: find_None_iff)
      ultimately show ?thesis using m assms(3) Some by (cases "rw_priority w") (auto simp: overdue_def due_def)
    next
      case y: (Some y)
      then have "x = y" using assms(4) by (simp add: selected_waiter_def)
      moreover have "rw_enqueued_at y \<le> rw_enqueued_at m" using find_SomeD [OF y] Some by (simp add: overdue_def)
      moreover have "rw_enqueued_at y \<le> rw_enqueued_at w" if "overdue aging now g w"
        by (rule find_first_sorted [OF y assms(2) that assms(1)])
      moreover have "rw_priority w = Manual \<or> overdue aging now g w \<or> rw_enqueued_at m < rw_enqueued_at w"
        using assms(3) Some by (cases "rw_priority w") (auto simp: overdue_def due_def)
      ultimately show ?thesis using m by (auto intro: order_trans less_imp_le)
    qed
  qed
qed

text \<open>The queue is in the order of the registrations.\<close>

definition queue_inv :: "gate_system \<Rightarrow> bool" where
  "queue_inv s \<longleftrightarrow> sorted (map rw_enqueued_at (gs_waiters (gy_gate s))) \<and>
     (\<forall>w \<in> set (gs_waiters (gy_gate s)). rw_enqueued_at w \<le> gy_now s)"

lemma sorted_filter_enq: "sorted (map rw_enqueued_at ws) \<Longrightarrow> sorted (map rw_enqueued_at (filter P ws))"
  by (rule sorted_filter)

lemma queue_inv_step: "queue_inv s \<Longrightarrow> gate_step aging s e s' \<Longrightarrow> queue_inv s'"
  by (elim gate_stepE)
    (auto simp: queue_inv_def register_def acquire_step_def unregister_def release_permit_def sorted_append
      intro: sorted_filter_enq le_add1 order_trans split: if_splits)

interpretation gate_queue: step_system gate_start "\<lambda>s s'. \<exists>e. gate_step aging s e s'" queue_inv for aging
proof
  show "gate_start s \<Longrightarrow> queue_inv s" for s by (auto simp: gate_start_def queue_inv_def new_gate_def)
qed (blast intro: queue_inv_step)

lemma enter_served:
  assumes "gate_step aging s (Enter i) s'"
  obtains x where "selected_waiter aging (gy_now s) (gy_gate s) = Some x" "rw_id x = i"
    "gs_waiters (gy_gate s') = filter (\<lambda>w. rw_id w \<noteq> i) (gs_waiters (gy_gate s))"
  using assms
  by (elim gate_stepE) (auto simp: acquire_step_def selected_waiter_id_def unregister_def split: if_splits)

text \<open>While a due waiter stays in the queue, every step leaves it due, adds nobody ahead of it, and a step that
  serves someone serves one of those ahead.\<close>

lemma due_step:
  assumes "queue_inv s" "gate_step aging s e s'" "w \<in> set (gs_waiters (gy_gate s))" "due aging (gy_now s) w"
    "rw_enqueued_at w < gy_now s"
  shows "due aging (gy_now s') w" "rw_enqueued_at w < gy_now s'" "ahead w (gy_gate s') \<le> ahead w (gy_gate s)"
    "w \<in> set (gs_waiters (gy_gate s')) \<Longrightarrow> e = Enter i \<Longrightarrow> ahead w (gy_gate s') < ahead w (gy_gate s)"
proof -
  have "gy_now s \<le> gy_now s'" using assms(2) by (elim gate_stepE) auto
  then show "due aging (gy_now s') w" "rw_enqueued_at w < gy_now s'" using assms(4,5) by (auto simp: due_def)
  have shorter: "length (filter P (filter Q ws)) \<le> length (filter P ws)" for P Q and ws :: "repair_waiter list"
    by (induction ws) auto
  show "ahead w (gy_gate s') \<le> ahead w (gy_gate s)"
    using assms(2,5) by (elim gate_stepE)
      (auto simp: ahead_def register_def acquire_step_def unregister_def release_permit_def shorter simp del: filter_filter split: if_splits)
  assume "w \<in> set (gs_waiters (gy_gate s'))" "e = Enter i"
  with assms(2) obtain x where x: "selected_waiter aging (gy_now s) (gy_gate s) = Some x" "rw_id x = i"
      "gs_waiters (gy_gate s') = filter (\<lambda>w. rw_id w \<noteq> i) (gs_waiters (gy_gate s))" by (blast elim: enter_served)
  have "x \<in> set (gs_waiters (gy_gate s))" by (rule selected_mem [OF x(1)])
  moreover have "rw_enqueued_at x \<le> rw_enqueued_at w"
    using selected_no_later [OF _ assms(3,4) x(1)] assms(1) by (simp add: queue_inv_def)
  moreover have "length (filter P (filter Q ws)) < length (filter P ws)" if "x \<in> set ws" "P x" "\<not> Q x"
    for P Q and ws :: "repair_waiter list"
    using that shorter [of P Q] by (induction ws) (auto simp: le_imp_less_Suc simp del: filter_filter)
  ultimately show "ahead w (gy_gate s') < ahead w (gy_gate s)" using x(2,3) by (simp add: ahead_def del: filter_filter)
qed

lemma waiter_stays:
  assumes "gate_step aging s e s'" "w \<in> set (gs_waiters (gy_gate s'))" "rw_enqueued_at w < gy_now s"
  shows "w \<in> set (gs_waiters (gy_gate s))"
  using assms by (elim gate_stepE) (auto simp: register_def acquire_step_def unregister_def release_permit_def split: if_splits)

lemma run_waiter_stays:
  "gate_run aging s es s' \<Longrightarrow> w \<in> set (gs_waiters (gy_gate s')) \<Longrightarrow> rw_enqueued_at w < gy_now s \<Longrightarrow> w \<in> set (gs_waiters (gy_gate s))"
proof (induction rule: gate_run.induct)
  case (cons s e s1 es s2)
  have "gy_now s \<le> gy_now s1" using cons.hyps(1) by (elim gate_stepE) auto
  then show ?case using cons waiter_stays by auto
qed

section \<open>Running events\<close>

definition do_event :: "nat \<Rightarrow> gate_system \<Rightarrow> gate_event \<Rightarrow> gate_system option" where
  "do_event aging s e =
     (case e of
        Tick d \<Rightarrow> Some (s\<lparr>gy_now := gy_now s + d\<rparr>)
      | Register p \<Rightarrow> (case register (gy_now s) p (gy_gate s) of (i, g) \<Rightarrow>
          Some (s\<lparr>gy_gate := g, gy_registered := gy_registered s @ [i], gy_count := Suc (gy_count s)\<rparr>))
      | Enter i \<Rightarrow> (if i \<in> set (gy_registered s) then (case acquire_step aging (gy_now s) i (gy_gate s) of
          Inl g \<Rightarrow> Some (s\<lparr>gy_gate := g, gy_registered := remove1 i (gy_registered s), gy_permits := Suc (gy_permits s)\<rparr>)
        | Inr _ \<Rightarrow> None) else None)
      | Cancel i \<Rightarrow> (if i \<in> set (gy_registered s) then
          Some (s\<lparr>gy_gate := unregister i (gy_gate s), gy_registered := remove1 i (gy_registered s)\<rparr>) else None)
      | Release \<Rightarrow> (if 0 < gy_permits s then
          Some (s\<lparr>gy_gate := release_permit (gy_gate s), gy_permits := gy_permits s - 1\<rparr>) else None))"

lemma do_event_step: "do_event aging s e = Some s' \<Longrightarrow> gate_step aging s e s'"
  by (cases e) (auto simp: do_event_def intro: gate_step.intros gate_step.release [simplified] split: if_splits sum.splits prod.splits)

lemma run_events: "run_ops (do_event aging) s es = Some s' \<Longrightarrow> gate_run aging s es s'"
  by (induction es arbitrary: s) (auto intro: gate_run.intros dest: do_event_step split: option.splits)

lemma run_reach:
  "gate_run aging s es s' \<Longrightarrow> reach gate_start (\<lambda>s s'. \<exists>e. gate_step aging s e s') s \<Longrightarrow>
   reach gate_start (\<lambda>s s'. \<exists>e. gate_step aging s e s') s'"
proof (induction rule: gate_run.induct)
  case (cons s e s1 es s2)
  then show ?case using reach_step [of gate_start "\<lambda>s s'. \<exists>e. gate_step aging s e s'" s s1] by blast
qed

text \<open>An automatic waiter registers at time 0 and a manual one 40 later, when the first is overdue.\<close>

definition sample_start :: gate_system where
  "sample_start = \<lparr>gy_gate = new_gate, gy_now = 0, gy_registered = [], gy_permits = 0, gy_count = 0\<rparr>"

definition sample_waiter :: repair_waiter where
  "sample_waiter = \<lparr>rw_id = 0, rw_priority = Automatic, rw_enqueued_at = 0\<rparr>"

definition sample_waiting :: gate_system where
  "sample_waiting = \<lparr>gy_gate = \<lparr>gs_active = False, gs_next_waiter_id = 2,
       gs_waiters = [sample_waiter, \<lparr>rw_id = 1, rw_priority = Manual, rw_enqueued_at = 40\<rparr>]\<rparr>,
     gy_now = 40, gy_registered = [0, 1], gy_permits = 0, gy_count = 2\<rparr>"

lemma sample_reach: "reach gate_start (\<lambda>s s'. \<exists>e. gate_step 30 s e s') sample_waiting"
proof -
  have "run_ops (do_event 30) sample_start [Register Automatic, Tick 40, Register Manual] = Some sample_waiting"
    by (simp add: do_event_def register_def sample_start_def sample_waiting_def sample_waiter_def new_gate_def)
  from run_reach [OF run_events [OF this] reach_init] show ?thesis by (auto simp: gate_start_def sample_start_def)
qed

section \<open>Properties\<close>

text \<open>C23: In every reachable state at most one repair permit exists, exactly when the gate is active, and a
  free gate with waiting tasks always lets one of them in, as long as the waiter counter has not
  wrapped around.\<close>

theorem gate_exclusive:
  assumes "reach gate_start (\<lambda>s s'. \<exists>e. gate_step aging s e s') s"
  shows "gy_permits s \<le> 1 \<and> (gy_permits s = 1 \<longleftrightarrow> gs_active (gy_gate s)) \<and>
    (gy_permits s = 0 \<and> gy_registered s \<noteq> [] \<and> gy_count s \<le> 2 ^ 64 \<longrightarrow>
       (\<exists>i s'. i \<in> set (gy_registered s) \<and> gate_step aging s (Enter i) s'))"
proof (intro conjI impI)
  have inv: "gate_inv s" by (rule gate.reach_inv [OF assms])
  then show "gy_permits s \<le> 1" "gy_permits s = 1 \<longleftrightarrow> gs_active (gy_gate s)" by (auto simp: gate_inv_def)
  assume idle: "gy_permits s = 0 \<and> gy_registered s \<noteq> [] \<and> gy_count s \<le> 2 ^ 64"
  then have reg: "map rw_id (gs_waiters (gy_gate s)) = gy_registered s" "\<not> gs_active (gy_gate s)"
    using inv by (auto simp: gate_inv_def split: if_splits)
  then obtain w where w: "selected_waiter aging (gy_now s) (gy_gate s) = Some w"
    using idle selected_None [of aging "gy_now s" "gy_gate s"] by fastforce
  then have "rw_id w \<in> set (gy_registered s)" using selected_mem [OF w] unfolding reg(1) [symmetric] by simp
  moreover have "acquire_step aging (gy_now s) (rw_id w) (gy_gate s) =
      Inl (unregister (rw_id w) (gy_gate s\<lparr>gs_active := True\<rparr>))"
    using w reg(2) by (simp add: acquire_step_def selected_waiter_id_def)
  ultimately show "\<exists>i s'. i \<in> set (gy_registered s) \<and> gate_step aging s (Enter i) s'" by (blast intro: gate_step.enter)
qed

theorem gate_exclusive_witness:
  "gy_permits sample_waiting \<le> 1 \<and> (\<exists>i s'. i \<in> set (gy_registered sample_waiting) \<and> gate_step 30 sample_waiting (Enter i) s')"
proof -
  have "gy_permits sample_waiting = 0 \<and> gy_registered sample_waiting \<noteq> [] \<and> gy_count sample_waiting \<le> 2 ^ 64"
    by (simp add: sample_waiting_def)
  then show ?thesis using gate_exclusive [OF sample_reach] by blast
qed

text \<open>C22: No waiter starves: once a waiter is manual, or automatic and as old as the aging time, then in any
  run in which it keeps waiting fewer repairs are let in than there are waiters registered no later
  than it, however many manual repairs arrive meanwhile.\<close>

theorem bounded_overtaking:
  assumes "reach gate_start (\<lambda>s s'. \<exists>e. gate_step aging s e s') s" "gate_run aging s es s'"
    "due aging (gy_now s) w" "rw_enqueued_at w < gy_now s" "w \<in> set (gs_waiters (gy_gate s'))"
  shows "length (filter (\<lambda>e. \<exists>i. e = Enter i) es) < ahead w (gy_gate s)"
  using assms(2) gate_queue.reach_inv [OF assms(1)] assms(3-5)
proof (induction rule: gate_run.induct)
  case (nil s)
  then show ?case by (auto simp: ahead_def filter_empty_conv)
next
  case (cons s e s1 es s2)
  have w: "w \<in> set (gs_waiters (gy_gate s))"
    by (rule run_waiter_stays [OF gate_run.cons [OF cons.hyps] cons.prems(4,3)])
  note d = due_step [OF cons.prems(1) cons.hyps(1) w cons.prems(2,3)]
  have IH: "length (filter (\<lambda>e. \<exists>i. e = Enter i) es) < ahead w (gy_gate s1)"
    by (rule cons.IH [OF queue_inv_step [OF cons.prems(1) cons.hyps(1)] d(1,2) cons.prems(4)])
  have "w \<in> set (gs_waiters (gy_gate s1))" by (rule run_waiter_stays [OF cons.hyps(2) cons.prems(4) d(2)])
  then show ?case using IH d(3,4) by auto
qed

theorem bounded_overtaking_witness:
  "length (filter (\<lambda>e. \<exists>i. e = Enter i) [Register Manual, Tick 5]) < ahead sample_waiter (gy_gate sample_waiting)"
proof -
  let ?g = "\<lparr>gs_active = False, gs_next_waiter_id = 3, gs_waiters = [sample_waiter, \<lparr>rw_id = 1, rw_priority = Manual, rw_enqueued_at = 40\<rparr>,
    \<lparr>rw_id = 2, rw_priority = Manual, rw_enqueued_at = 40\<rparr>]\<rparr>"
  have "run_ops (do_event 30) sample_waiting [Register Manual, Tick 5] =
      Some \<lparr>gy_gate = ?g, gy_now = 45, gy_registered = [0, 1, 2], gy_permits = 0, gy_count = 3\<rparr>"
    by (simp add: do_event_def register_def sample_waiting_def)
  from bounded_overtaking [OF sample_reach run_events [OF this], of sample_waiter] show ?thesis
    by (simp add: due_def sample_waiting_def sample_waiter_def)
qed

text \<open>Sleeping misses no wake-up: an iteration of \<open>acquire\<close> that does not get the permit and sleeps
  until the deadline it computed would not have got it at any earlier time, as long as nobody changed
  the gate and notified it.\<close>

lemma sleep_misses_nothing:
  assumes "acquire_step aging now i g = Inr wake" "now \<le> t" "\<And>d. wake = Some d \<Longrightarrow> t < d"
  shows "\<exists>wake'. acquire_step aging t i g = Inr wake'"
proof (cases "gs_active g")
  case False
  then have wake: "wake = next_automatic_aging_deadline aging now g" "selected_waiter_id aging now g \<noteq> Some i"
    using assms(1) by (auto simp: acquire_step_def split: if_splits)
  have same: "overdue aging t g w = overdue aging now g w" if "w \<in> set (gs_waiters g)" for w
  proof (cases "rw_priority w = Automatic \<and> now < rw_enqueued_at w + aging")
    case True
    let ?ds = "filter (\<lambda>d. now < d) (map (\<lambda>w. rw_enqueued_at w + aging) (filter (\<lambda>w. rw_priority w = Automatic) (gs_waiters g)))"
    have mem: "rw_enqueued_at w + aging \<in> set ?ds" using that True by auto
    then have "?ds \<noteq> []" by force
    then have "wake = Some (Min (set ?ds))" unfolding wake(1) next_automatic_aging_deadline_def Let_def by (simp only: if_False)
    then have "t < Min (set ?ds)" by (rule assms(3))
    also have "\<dots> \<le> rw_enqueued_at w + aging" using mem by (intro Min_le) auto
    finally show ?thesis using assms(2) by (auto simp: overdue_def)
  qed (use assms(2) in \<open>auto simp: overdue_def\<close>)
  have "find (overdue aging t g) (gs_waiters g) = find (overdue aging now g) (gs_waiters g)"
    using same by (intro find_cong) auto
  then have "selected_waiter_id aging t g = selected_waiter_id aging now g"
    by (simp add: selected_waiter_id_def selected_waiter_def)
  then show ?thesis using wake(2) by (simp add: acquire_step_def)
qed (simp add: acquire_step_def)

end
