(* ===== verification/Lease_Budget.thy ===== *)
theory Lease_Budget
  imports Rust_Strings
begin

text \<open>
  The client's budget of relay leases (\<open>client-sdk/src/iroh_lease_budget.rs\<close>): at most so many
  leases per rendezvous origin, the least recently used one being released to make room.
  A lease handle is shared between the table and its users, so handles live in a store and are
  named by their position in it; they are never removed from the store, as the table and the
  users keep them alive.  \<open>reserve\<close> and \<open>release_now\<close> hold the admission lock from beginning to end,
  so each is one step; \<open>touch\<close> only moves a lease in the order of use.  The answers of the rendezvous
  server to the release requests are a parameter: the answer to the \<open>n\<close>-th request ever sent.
  The parser of URLs is a parameter as well.  The \<open>Drop\<close> of a handle does nothing for a handle of
  the table, which has been released before it leaves the table.
\<close>

section \<open>State\<close>

record lease_handle =
  lh_endpoint_id :: string
  lh_generation :: "64 word"
  lh_active :: bool
  lh_release_started :: bool

record lease_entry =
  le_generation :: "64 word"
  le_origins :: "string list"
  le_last_access :: u64
  le_lease :: nat

record lease_budget =
  lb_entries :: "(string, lease_entry) hashmap"
  lb_next_access :: u64
  lb_next_generation :: "64 word"
  lb_max_per_origin :: usize
  lb_handles :: "lease_handle list"
  lb_calls :: nat

datatype lease_error = BlankEndpoint | InvalidUrl | ReleaseFailed string | NoEvictableLease

definition MAX_ACTIVE_IROH_RELAY_LEASES_PER_ORIGIN :: usize where
  "MAX_ACTIVE_IROH_RELAY_LEASES_PER_ORIGIN = 8"

text \<open>\<open>with_limit\<close> panics for a limit of zero.\<close>

definition with_limit :: "usize \<Rightarrow> lease_budget option" where
  "with_limit max_per_origin =
     (if 0 < max_per_origin
      then Some \<lparr>lb_entries = [], lb_next_access = 0, lb_next_generation = 0, lb_max_per_origin = max_per_origin,
                 lb_handles = [], lb_calls = 0\<rparr>
      else None)"

section \<open>Operations\<close>

definition next_access :: "lease_budget \<Rightarrow> u64 \<times> lease_budget" where
  "next_access b = (let n = sat_add_u64 (lb_next_access b) 1 in (n, b\<lparr>lb_next_access := n\<rparr>))"

definition remove_matching_entry :: "string \<Rightarrow> 64 word \<Rightarrow> lease_budget \<Rightarrow> lease_budget" where
  "remove_matching_entry endpoint generation b =
     (case map_of (lb_entries b) endpoint of
        None \<Rightarrow> b
      | Some e \<Rightarrow> if le_generation e = generation then b\<lparr>lb_entries := hm_remove endpoint (lb_entries b)\<rparr> else b)"

definition rendezvous_origins :: "(string \<Rightarrow> string option) \<Rightarrow> string list \<Rightarrow> string list option" where
  "rendezvous_origins origin_of urls =
     (let os = map (\<lambda>u. origin_of (trim u)) urls
      in if None \<in> set os then None else Some (bts_collect (map the os)))"

abbreviation leases_at :: "string \<Rightarrow> lease_budget \<Rightarrow> nat" where
  "leases_at origin b \<equiv> length (filter (\<lambda>e. origin \<in> set (le_origins e)) (hm_values (lb_entries b)))"

definition select_lru_eviction ::
  "lease_budget \<Rightarrow> string list \<Rightarrow> string \<Rightarrow> lease_error + nat option" where
  "select_lru_eviction b requested endpoint =
     (let saturated = filter (\<lambda>origin. lb_max_per_origin b \<le> leases_at origin b) requested
      in if saturated = [] then Inr None
         else case min_by_key (\<lambda>(k, e). le_last_access e)
                     (filter (\<lambda>(k, e). k \<noteq> endpoint \<and> list_ex (\<lambda>origin. origin \<in> set saturated) (le_origins e)) (lb_entries b)) of
                None \<Rightarrow> Inl NoEvictableLease
              | Some (k, e) \<Rightarrow> Inr (Some (le_lease e)))"

abbreviation is_active :: "lease_budget \<Rightarrow> nat \<Rightarrow> bool" where
  "is_active b h \<equiv> lh_active (lb_handles b ! h)"

definition touch :: "nat \<Rightarrow> lease_budget \<Rightarrow> lease_budget" where
  "touch h b =
     (if \<not> is_active b h then b
      else case next_access b of (n, b1) \<Rightarrow>
        let handle = lb_handles b ! h in
        case map_of (lb_entries b1) (lh_endpoint_id handle) of
          None \<Rightarrow> b1
        | Some e \<Rightarrow> if le_generation e = lh_generation handle
                    then b1\<lparr>lb_entries := hm_insert (lh_endpoint_id handle) (e\<lparr>le_last_access := n\<rparr>) (lb_entries b1)\<rparr>
                    else b1)"

definition release_server_once :: "(nat \<Rightarrow> bool) \<Rightarrow> nat \<Rightarrow> lease_budget \<Rightarrow> bool \<times> lease_budget" where
  "release_server_once server h b =
     (let handle = (lb_handles b ! h)\<lparr>lh_active := False\<rparr> in
      if lh_release_started handle then (True, b\<lparr>lb_handles := (lb_handles b)[h := handle]\<rparr>)
      else (server (lb_calls b),
            b\<lparr>lb_handles := (lb_handles b)[h := handle\<lparr>lh_release_started := server (lb_calls b)\<rparr>], lb_calls := lb_calls b + 1\<rparr>))"

definition release_now :: "(nat \<Rightarrow> bool) \<Rightarrow> nat \<Rightarrow> lease_budget \<Rightarrow> bool \<times> lease_budget" where
  "release_now server h b =
     (case release_server_once server h b of (ok, b1) \<Rightarrow>
        if ok then (True, remove_matching_entry (lh_endpoint_id (lb_handles b ! h)) (lh_generation (lb_handles b ! h)) b1)
        else (False, b1))"

text \<open>The eviction loop of \<open>reserve\<close>.\<close>

partial_function (option) evict_leases ::
  "(nat \<Rightarrow> bool) \<Rightarrow> string list \<Rightarrow> string \<Rightarrow> lease_budget \<Rightarrow> (lease_error option \<times> lease_budget) option" where
  "evict_leases server origins endpoint b =
     (case select_lru_eviction b origins endpoint of
        Inl e \<Rightarrow> Some (Some e, b)
      | Inr None \<Rightarrow> Some (None, b)
      | Inr (Some h) \<Rightarrow>
          (case release_now server h b of (ok, b1) \<Rightarrow>
             if ok then evict_leases server origins endpoint b1
             else Some (Some (ReleaseFailed (lh_endpoint_id (lb_handles b ! h))), b1)))"

declare evict_leases.simps [code]

definition insert_lease :: "string list \<Rightarrow> string \<Rightarrow> lease_budget \<Rightarrow> nat \<times> lease_budget" where
  "insert_lease origins endpoint b =
     (let old = lb_next_generation b;
          generation = (if old = - 1 then old else old + 1);
          h = length (lb_handles b);
          handle = \<lparr>lh_endpoint_id = endpoint, lh_generation = generation, lh_active = True, lh_release_started = False\<rparr>
      in case next_access b of (n, b1) \<Rightarrow>
        (h, b1\<lparr>lb_next_generation := old + 1, lb_handles := lb_handles b @ [handle],
               lb_entries := hm_insert endpoint
                 \<lparr>le_generation = generation, le_origins = origins, le_last_access = n, le_lease = h\<rparr> (lb_entries b1)\<rparr>))"

text \<open>Evicting and inserting, the end of \<open>reserve\<close>.\<close>

definition admit :: "(nat \<Rightarrow> bool) \<Rightarrow> string list \<Rightarrow> string \<Rightarrow> lease_budget \<Rightarrow> ((lease_error + nat) \<times> lease_budget) option" where
  "admit server origins endpoint b = Option.bind (evict_leases server origins endpoint b) (\<lambda>r. case r of
     (Some e, b1) \<Rightarrow> Some (Inl e, b1)
   | (None, b1) \<Rightarrow> (case insert_lease origins endpoint b1 of (h, b2) \<Rightarrow> Some (Inr h, b2)))"

definition reserve ::
  "(nat \<Rightarrow> bool) \<Rightarrow> (string \<Rightarrow> string option) \<Rightarrow> string list \<Rightarrow> string \<Rightarrow> lease_budget
     \<Rightarrow> ((lease_error + nat) \<times> lease_budget) option" where
  "reserve server origin_of urls endpoint_id b =
     (let endpoint = trim endpoint_id in
      if endpoint = [] then Some (Inl BlankEndpoint, b)
      else case rendezvous_origins origin_of urls of
        None \<Rightarrow> Some (Inl InvalidUrl, b)
      | Some origins \<Rightarrow>
          (case map_of (lb_entries b) endpoint of
                None \<Rightarrow> admit server origins endpoint b
              | Some existing \<Rightarrow>
                  if is_active b (le_lease existing) then Some (Inr (le_lease existing), touch (le_lease existing) b)
                  else case release_server_once server (le_lease existing) b of (ok, b1) \<Rightarrow>
                         if ok then admit server origins endpoint (remove_matching_entry endpoint (lh_generation (lb_handles b ! le_lease existing)) b1)
                         else Some (Inl (ReleaseFailed endpoint), b1)))"

section \<open>Counting entries\<close>

lemma count_delete_le: "length (filter P (hm_values (hm_remove k m))) \<le> length (filter P (hm_values m))"
  by (induction m) auto

lemma count_delete_less:
  "map_of m k = Some v \<Longrightarrow> P v \<Longrightarrow> length (filter P (hm_values (hm_remove k m))) < length (filter P (hm_values m))"
proof (induction m)
  case (Cons x m)
  then show ?case using count_delete_le [of P k m] by (cases "fst x = k") (auto simp: le_imp_less_Suc)
qed simp

lemma count_update:
  "map_of m k = None \<Longrightarrow> length (filter P (hm_values (hm_insert k v m))) = length (filter P (hm_values m)) + (if P v then 1 else 0)"
  "map_of m k = Some u \<Longrightarrow> P u = P v \<Longrightarrow> length (filter P (hm_values (hm_insert k v m))) = length (filter P (hm_values m))"
  by (induction m) (auto split: if_splits)

section \<open>Invariant\<close>

text \<open>The entry of an endpoint belongs to a handle of that endpoint and generation; generations number the
  handles; an active handle has its entry; no origin has more entries than allowed.\<close>

definition entry_ok :: "lease_handle list \<Rightarrow> string \<Rightarrow> lease_entry \<Rightarrow> bool" where
  "entry_ok hs k e \<longleftrightarrow> le_lease e < length hs \<and> lh_endpoint_id (hs ! le_lease e) = k \<and> le_generation e = lh_generation (hs ! le_lease e)"

definition numbered :: "lease_handle list \<Rightarrow> bool" where
  "numbered hs \<longleftrightarrow> length hs < 2 ^ 64 \<and> (\<forall>h < length hs. lh_generation (hs ! h) = word_of_nat (Suc h))"

definition table_ok :: "(string, lease_entry) hashmap \<Rightarrow> lease_handle list \<Rightarrow> bool" where
  "table_ok m hs \<longleftrightarrow> hm_ok m \<and> (\<forall>k e. map_of m k = Some e \<longrightarrow> entry_ok hs k e) \<and>
     (\<forall>h < length hs. lh_active (hs ! h) \<longrightarrow> (\<exists>e. map_of m (lh_endpoint_id (hs ! h)) = Some e \<and> le_lease e = h))"

definition lease_inv :: "lease_budget \<Rightarrow> bool" where
  "lease_inv b \<longleftrightarrow> numbered (lb_handles b) \<and> lb_next_generation b = word_of_nat (length (lb_handles b)) \<and>
     table_ok (lb_entries b) (lb_handles b) \<and> 0 < lb_max_per_origin b \<and> (\<forall>origin. leases_at origin b \<le> lb_max_per_origin b)"

lemma generation_inj:
  assumes "numbered hs" "h < length hs" "j < length hs" "lh_generation (hs ! h) = lh_generation (hs ! j)"
  shows "h = j"
proof -
  have "(word_of_nat (Suc h) :: 64 word) = word_of_nat (Suc j)" using assms by (simp add: numbered_def)
  then have "unat (word_of_nat (Suc h) :: 64 word) = unat (word_of_nat (Suc j) :: 64 word)" by (rule arg_cong)
  moreover have "unat (word_of_nat (Suc i) :: 64 word) = Suc i" if "i < length hs" for i
    using that assms(1) by (simp add: numbered_def unsigned_of_nat take_bit_nat_eq_self del: of_nat_Suc)
  ultimately show ?thesis using assms(2,3) by simp
qed

lemma table_okD:
  assumes "table_ok m hs"
  shows "hm_ok m" "map_of m k = Some e \<Longrightarrow> entry_ok hs k e"
    "h < length hs \<Longrightarrow> lh_active (hs ! h) \<Longrightarrow> \<exists>e. map_of m (lh_endpoint_id (hs ! h)) = Some e \<and> le_lease e = h"
  using assms unfolding table_ok_def by blast+

text \<open>Changing the flags of a handle.\<close>

definition same_handle :: "lease_handle \<Rightarrow> lease_handle \<Rightarrow> bool" where
  "same_handle x y \<longleftrightarrow> lh_endpoint_id x = lh_endpoint_id y \<and> lh_generation x = lh_generation y \<and> (lh_active x \<longrightarrow> lh_active y)"

lemma set_handle:
  assumes "h < length hs" "same_handle x (hs ! h)"
  shows "numbered hs \<Longrightarrow> numbered (hs[h := x])" "table_ok m hs \<Longrightarrow> table_ok m (hs[h := x])"
proof -
  have nth: "(hs[h := x]) ! j = (if j = h then x else hs ! j)" if "j < length hs" for j using that by (simp add: nth_list_update)
  show "numbered hs \<Longrightarrow> numbered (hs[h := x])"
    using assms by (auto simp: numbered_def nth same_handle_def)
  have eok: "entry_ok hs k e \<Longrightarrow> entry_ok (hs[h := x]) k e" for k e
    using assms by (auto simp: entry_ok_def nth same_handle_def)
  show "table_ok m hs \<Longrightarrow> table_ok m (hs[h := x])"
    unfolding table_ok_def using assms eok by (auto simp: nth same_handle_def split: if_splits)
qed

lemma remove_inactive:
  assumes "table_ok m hs" "numbered hs" "h < length hs" "\<not> lh_active (hs ! h)"
    "map_of m (lh_endpoint_id (hs ! h)) = Some e" "le_generation e = lh_generation (hs ! h)"
  shows "table_ok (hm_remove (lh_endpoint_id (hs ! h)) m) hs"
proof -
  have "entry_ok hs (lh_endpoint_id (hs ! h)) e" by (rule table_okD(2) [OF assms(1,5)])
  then have "le_lease e = h" using generation_inj [OF assms(2) _ assms(3)] assms(6) by (simp add: entry_ok_def)
  then have "lh_endpoint_id (hs ! j) \<noteq> lh_endpoint_id (hs ! h)" if "j < length hs" "lh_active (hs ! j)" for j
    using table_okD(3) [OF assms(1) that] assms(4,5) that(2) by auto
  then show ?thesis
    using assms(1) unfolding table_ok_def by (auto simp: delete_conv' restrict_map_def hm.ok_del split: if_splits)
qed

lemma lease_invD:
  assumes "lease_inv b"
  shows "numbered (lb_handles b)" "lb_next_generation b = word_of_nat (length (lb_handles b))"
    "table_ok (lb_entries b) (lb_handles b)" "0 < lb_max_per_origin b" "leases_at origin b \<le> lb_max_per_origin b"
  using assms unfolding lease_inv_def by blast+

lemma release_once_inv:
  assumes "lease_inv b" "h < length (lb_handles b)" "release_server_once server h b = (ok, b1)"
  shows "lease_inv b1" "lb_entries b1 = lb_entries b" "length (lb_handles b1) = length (lb_handles b)"
    "lb_max_per_origin b1 = lb_max_per_origin b" "\<not> is_active b1 h"
    "lh_endpoint_id (lb_handles b1 ! h) = lh_endpoint_id (lb_handles b ! h)"
    "lh_generation (lb_handles b1 ! h) = lh_generation (lb_handles b ! h)" "(\<And>n. server n) \<Longrightarrow> ok"
proof -
  obtain x where x: "lb_handles b1 = (lb_handles b)[h := x]" "same_handle x (lb_handles b ! h)" "\<not> lh_active x"
    using assms(3) by (auto simp: release_server_once_def Let_def same_handle_def split: if_splits)
  have b1: "lb_entries b1 = lb_entries b" "lb_max_per_origin b1 = lb_max_per_origin b" "lb_next_generation b1 = lb_next_generation b"
    "(\<And>n. server n) \<Longrightarrow> ok"
    using assms(3) by (auto simp: release_server_once_def Let_def split: if_splits)
  then show "lb_entries b1 = lb_entries b" "lb_max_per_origin b1 = lb_max_per_origin b" "(\<And>n. server n) \<Longrightarrow> ok" by blast+
  show "length (lb_handles b1) = length (lb_handles b)" "\<not> is_active b1 h"
    "lh_endpoint_id (lb_handles b1 ! h) = lh_endpoint_id (lb_handles b ! h)"
    "lh_generation (lb_handles b1 ! h) = lh_generation (lb_handles b ! h)"
    using x assms(2) by (simp_all add: same_handle_def)
  show "lease_inv b1"
    using lease_invD [OF assms(1)] set_handle [OF assms(2) x(2)] unfolding lease_inv_def x(1) b1(1-3) by simp
qed

lemma remove_matching_inv:
  assumes "lease_inv b" "h < length (lb_handles b)" "\<not> is_active b h"
    "b1 = remove_matching_entry (lh_endpoint_id (lb_handles b ! h)) (lh_generation (lb_handles b ! h)) b"
  shows "lease_inv b1" "lb_handles b1 = lb_handles b" "lb_max_per_origin b1 = lb_max_per_origin b"
    "map_of (lb_entries b) k = None \<Longrightarrow> map_of (lb_entries b1) k = None"
    "map_of (lb_entries b) (lh_endpoint_id (lb_handles b ! h)) = Some e \<Longrightarrow> le_lease e = h \<Longrightarrow>
       map_of (lb_entries b1) (lh_endpoint_id (lb_handles b ! h)) = None \<and> length (lb_entries b1) < length (lb_entries b)"
proof -
  let ?k = "lh_endpoint_id (lb_handles b ! h)" and ?g = "lh_generation (lb_handles b ! h)"
  show "lb_handles b1 = lb_handles b" "lb_max_per_origin b1 = lb_max_per_origin b"
    "map_of (lb_entries b) k = None \<Longrightarrow> map_of (lb_entries b1) k = None"
    unfolding assms(4) remove_matching_entry_def
    by (auto simp: delete_conv' restrict_map_def split: option.split)
  show "lease_inv b1"
  proof (cases "\<exists>e. map_of (lb_entries b) ?k = Some e \<and> le_generation e = ?g")
    case True
    then obtain e where e: "map_of (lb_entries b) ?k = Some e" "le_generation e = ?g" by blast
    then have b1: "b1 = b\<lparr>lb_entries := hm_remove ?k (lb_entries b)\<rparr>" by (simp add: assms(4) remove_matching_entry_def)
    have "table_ok (hm_remove ?k (lb_entries b)) (lb_handles b)"
      by (rule remove_inactive [OF lease_invD(3,1) [OF assms(1)] assms(2,3) e])
    moreover have "leases_at origin b1 \<le> lb_max_per_origin b" for origin
      unfolding b1 using order_trans [OF count_delete_le lease_invD(5) [OF assms(1), of origin]] by simp
    ultimately show ?thesis using lease_invD [OF assms(1)] unfolding lease_inv_def b1 by simp
  next
    case False
    then have "b1 = b" by (auto simp: assms(4) remove_matching_entry_def split: option.split)
    then show ?thesis using assms(1) by simp
  qed
  assume e: "map_of (lb_entries b) ?k = Some e" "le_lease e = h"
  have "le_generation e = ?g" using table_okD(2) [OF lease_invD(3) [OF assms(1)] e(1)] e(2) by (simp add: entry_ok_def)
  then have "lb_entries b1 = hm_remove ?k (lb_entries b)" using e by (simp add: assms(4) remove_matching_entry_def)
  then show "map_of (lb_entries b1) ?k = None \<and> length (lb_entries b1) < length (lb_entries b)"
    using count_delete_less [OF e(1), of "\<lambda>_. True"] by (simp add: delete_conv' restrict_map_def)
qed

text \<open>Releasing the lease of an entry and removing the entry.\<close>

lemma release_entry:
  assumes "lease_inv b" "map_of (lb_entries b) k = Some e" "release_server_once server (le_lease e) b = (ok, b1)"
    "b2 = remove_matching_entry k (lh_generation (lb_handles b ! le_lease e)) b1"
  shows "lh_endpoint_id (lb_handles b ! le_lease e) = k" "le_lease e < length (lb_handles b)"
    "lease_inv b1" "lb_entries b1 = lb_entries b" "length (lb_handles b1) = length (lb_handles b)" "(\<And>n. server n) \<Longrightarrow> ok"
    "lease_inv b2" "length (lb_handles b2) = length (lb_handles b)" "map_of (lb_entries b2) k = None"
    "length (lb_entries b2) < length (lb_entries b)" "map_of (lb_entries b) j = None \<Longrightarrow> map_of (lb_entries b2) j = None"
proof -
  let ?h = "le_lease e"
  show h: "lh_endpoint_id (lb_handles b ! ?h) = k" "?h < length (lb_handles b)"
    using table_okD(2) [OF lease_invD(3) [OF assms(1)] assms(2)] by (simp_all add: entry_ok_def)
  note ro = release_once_inv [OF assms(1) h(2) assms(3)]
  from ro(1,2,3,8) show "lease_inv b1" "lb_entries b1 = lb_entries b" "length (lb_handles b1) = length (lb_handles b)"
    "(\<And>n. server n) \<Longrightarrow> ok" by blast+
  have b2: "b2 = remove_matching_entry (lh_endpoint_id (lb_handles b1 ! ?h)) (lh_generation (lb_handles b1 ! ?h)) b1"
    unfolding ro(6,7) h(1) by (rule assms(4))
  have h1: "?h < length (lb_handles b1)" using h(2) ro(3) by simp
  note rm = remove_matching_inv [OF ro(1) h1 ro(5) b2]
  have e1: "map_of (lb_entries b1) (lh_endpoint_id (lb_handles b1 ! ?h)) = Some e" unfolding ro(2,6) h(1) by (rule assms(2))
  show "lease_inv b2" by (rule rm)
  show "length (lb_handles b2) = length (lb_handles b)" using rm(2) ro(3) by simp
  show "map_of (lb_entries b2) k = None" "length (lb_entries b2) < length (lb_entries b)"
    using rm(5) [OF e1 refl] unfolding ro(2,6) h(1) by blast+
  show "map_of (lb_entries b) j = None \<Longrightarrow> map_of (lb_entries b2) j = None" using rm(4) [of j] unfolding ro(2) .
qed

lemma touch_inv:
  assumes "lease_inv b" "h < length (lb_handles b)"
  shows "lease_inv (touch h b)" "lb_handles (touch h b) = lb_handles b"
    "map_option le_lease (map_of (lb_entries (touch h b)) k) = map_option le_lease (map_of (lb_entries b) k)"
proof -
  let ?k = "lh_endpoint_id (lb_handles b ! h)"
  show hs: "lb_handles (touch h b) = lb_handles b"
    by (auto simp: touch_def next_access_def Let_def split: option.split)
  have "lb_entries (touch h b) = lb_entries b \<or> (\<exists>e n. map_of (lb_entries b) ?k = Some e \<and>
      lb_entries (touch h b) = hm_insert ?k (e\<lparr>le_last_access := n\<rparr>) (lb_entries b))"
    by (cases "map_of (lb_entries b) ?k") (auto simp: touch_def next_access_def Let_def)
  then have tab: "table_ok (lb_entries (touch h b)) (lb_handles b) \<and> (\<forall>origin. leases_at origin (touch h b) = leases_at origin b) \<and>
    (\<forall>k. map_option le_lease (map_of (lb_entries (touch h b)) k) = map_option le_lease (map_of (lb_entries b) k))"
  proof (elim disjE exE conjE)
    fix e n assume 2: "map_of (lb_entries b) ?k = Some e" "lb_entries (touch h b) = hm_insert ?k (e\<lparr>le_last_access := n\<rparr>) (lb_entries b)"
    have "entry_ok (lb_handles b) ?k (e\<lparr>le_last_access := n\<rparr>)"
      using table_okD(2) [OF lease_invD(3) [OF assms(1)] 2(1)] by (simp add: entry_ok_def)
    moreover have "map_option le_lease (map_of (lb_entries (touch h b)) k) = map_option le_lease (map_of (lb_entries b) k)" for k
      unfolding 2(2) using 2(1) by (simp add: update_conv')
    moreover from this have "(\<exists>e. map_of (lb_entries b) k = Some e \<and> le_lease e = j) \<Longrightarrow>
        \<exists>e. map_of (lb_entries (touch h b)) k = Some e \<and> le_lease e = j" for k j
      by (metis map_option_eq_Some)
    ultimately show ?thesis
      using lease_invD(3) [OF assms(1)] count_update(2) [OF 2(1)] unfolding table_ok_def 2(2)
      by (auto simp: update_conv' hm.ok_ins split: if_splits)
  qed (use lease_invD(3) [OF assms(1)] in simp)
  then show "map_option le_lease (map_of (lb_entries (touch h b)) k) = map_option le_lease (map_of (lb_entries b) k)" by blast
  have "lb_next_generation (touch h b) = lb_next_generation b" "lb_max_per_origin (touch h b) = lb_max_per_origin b"
    by (auto simp: touch_def next_access_def Let_def split: option.split)
  then show "lease_inv (touch h b)" using lease_invD [OF assms(1)] tab unfolding lease_inv_def hs by simp
qed

lemma insert_inv:
  assumes "lease_inv b" "map_of (lb_entries b) endpoint = None" "\<And>origin. origin \<in> set origins \<Longrightarrow> leases_at origin b < lb_max_per_origin b"
    "Suc (length (lb_handles b)) < 2 ^ 64" "insert_lease origins endpoint b = (h, b1)"
  shows "lease_inv b1" "h = length (lb_handles b)" "is_active b1 h" "lh_endpoint_id (lb_handles b1 ! h) = endpoint"
    "length (lb_handles b1) = Suc (length (lb_handles b))"
    "map_option le_lease (map_of (lb_entries b1) endpoint) = Some h"
proof -
  let ?n = "length (lb_handles b)" and ?gen = "word_of_nat (Suc (length (lb_handles b))) :: 64 word"
  have "(word_of_nat ?n :: 64 word) \<noteq> - 1"
  proof
    assume "(word_of_nat ?n :: 64 word) = - 1"
    then have "unat (word_of_nat ?n :: 64 word) = unat (- 1 :: 64 word)" by (rule arg_cong)
    then show False using assms(4) by (simp add: unsigned_of_nat take_bit_nat_eq_self unsigned_minus_1_eq_mask mask_eq_exp_minus_1)
  qed
  then have gen: "lb_next_generation b \<noteq> - 1" "lb_next_generation b + 1 = ?gen"
    using lease_invD(2) [OF assms(1)] by (simp_all add: add.commute)
  define handle where "handle = \<lparr>lh_endpoint_id = endpoint, lh_generation = ?gen, lh_active = True, lh_release_started = False\<rparr>"
  define entry where "entry = \<lparr>le_generation = ?gen, le_origins = origins, le_last_access = sat_add_u64 (lb_next_access b) 1, le_lease = ?n\<rparr>"
  have b1: "h = ?n" "lb_handles b1 = lb_handles b @ [handle]" "lb_entries b1 = hm_insert endpoint entry (lb_entries b)"
    "lb_next_generation b1 = ?gen" "lb_max_per_origin b1 = lb_max_per_origin b"
    using assms(5) gen by (auto simp: insert_lease_def Let_def next_access_def handle_def entry_def)
  then show "h = ?n" "is_active b1 h" "lh_endpoint_id (lb_handles b1 ! h) = endpoint" "length (lb_handles b1) = Suc ?n"
    "map_option le_lease (map_of (lb_entries b1) endpoint) = Some h"
    by (simp_all add: nth_append handle_def entry_def update_conv')
  have num: "numbered (lb_handles b1)"
    using lease_invD(1) [OF assms(1)] assms(4) unfolding b1 numbered_def
    by (auto simp: nth_append handle_def less_Suc_eq simp del: of_nat_Suc)
  have "entry_ok (lb_handles b1) k e" if "map_of (lb_entries b1) k = Some e" for k e
  proof (cases "k = endpoint")
    case True
    then show ?thesis using that b1 by (auto simp: update_conv' entry_ok_def entry_def handle_def nth_append)
  next
    case False
    then have "entry_ok (lb_handles b) k e" using that b1 table_okD(2) [OF lease_invD(3) [OF assms(1)]] by (simp add: update_conv')
    then show ?thesis using b1 by (simp add: entry_ok_def nth_append)
  qed
  moreover have "\<exists>e. map_of (lb_entries b1) (lh_endpoint_id (lb_handles b1 ! j)) = Some e \<and> le_lease e = j"
    if j: "j < length (lb_handles b1)" "is_active b1 j" for j
  proof (cases "j = ?n")
    case True
    then show ?thesis using b1 by (simp add: nth_append handle_def entry_def update_conv')
  next
    case False
    then have "j < ?n" "is_active b j" "lb_handles b1 ! j = lb_handles b ! j" using j b1 by (simp_all add: nth_append)
    then obtain e where e: "map_of (lb_entries b) (lh_endpoint_id (lb_handles b ! j)) = Some e" "le_lease e = j"
      using table_okD(3) [OF lease_invD(3) [OF assms(1)]] by blast
    then have "lh_endpoint_id (lb_handles b ! j) \<noteq> endpoint" using assms(2) by auto
    then show ?thesis using e b1 \<open>lb_handles b1 ! j = lb_handles b ! j\<close> by (simp add: update_conv')
  qed
  moreover have "hm_ok (lb_entries b1)" using table_okD(1) [OF lease_invD(3) [OF assms(1)]] b1 by simp
  ultimately have tab: "table_ok (lb_entries b1) (lb_handles b1)" unfolding table_ok_def by blast
  have "leases_at origin b1 \<le> lb_max_per_origin b" for origin
    using count_update(1) [OF assms(2), of "\<lambda>e. origin \<in> set (le_origins e)" entry] assms(3) [of origin] lease_invD(5) [OF assms(1), of origin]
    unfolding b1 by (auto simp: entry_def Suc_le_eq split: if_splits)
  then show "lease_inv b1"
    using num tab lease_invD(4) [OF assms(1)] b1 unfolding lease_inv_def by simp
qed

lemma evict_leases_ok:
  assumes "lease_inv b" "map_of (lb_entries b) endpoint = None"
  shows "\<exists>r b'. evict_leases server origins endpoint b = Some (r, b') \<and> lease_inv b' \<and> length (lb_handles b') = length (lb_handles b) \<and>
    map_of (lb_entries b') endpoint = None \<and> r \<noteq> Some NoEvictableLease \<and> ((\<forall>n. server n) \<longrightarrow> r = None) \<and>
    (r = None \<longrightarrow> (\<forall>origin \<in> set origins. leases_at origin b' < lb_max_per_origin b'))"
  using assms
proof (induction "length (lb_entries b)" arbitrary: b rule: less_induct)
  case less
  let ?sat = "filter (\<lambda>origin. lb_max_per_origin b \<le> leases_at origin b) origins"
  let ?cands = "filter (\<lambda>(k, e). k \<noteq> endpoint \<and> list_ex (\<lambda>origin. origin \<in> set ?sat) (le_origins e)) (lb_entries b)"
  show ?case
  proof (cases "?sat = []")
    case True
    then have "select_lru_eviction b origins endpoint = Inr None" by (simp add: select_lru_eviction_def)
    moreover have "\<forall>origin \<in> set origins. leases_at origin b < lb_max_per_origin b" using True by (auto simp: filter_empty_conv not_le)
    ultimately show ?thesis using less.prems by (subst evict_leases.simps) auto
  next
    case False
    then obtain origin where origin: "origin \<in> set ?sat" by (metis list.set_sel(1))
    then have "lb_max_per_origin b \<le> leases_at origin b" by simp
    then have "0 < leases_at origin b" using lease_invD(4) [OF less.prems(1)] by linarith
    then obtain k e where ke: "(k, e) \<in> set (lb_entries b)" "origin \<in> set (le_origins e)"
      by (auto simp: filter_empty_conv)
    moreover have "k \<noteq> endpoint" using ke(1) less.prems(2) by (auto simp: map_of_eq_None_iff rev_image_eqI)
    ultimately have "(k, e) \<in> set ?cands" using origin by (auto simp: list_ex_iff)
    then have "0 < length ?cands" by (rule length_pos_if_in_set)
    then have "?cands \<noteq> []" by (rule length_greater_0_conv [THEN iffD1])
    then have "min_by_key (\<lambda>(k, e). le_last_access e) ?cands \<noteq> None" unfolding min_by_key_None .
    then obtain k1 e1 where m: "min_by_key (\<lambda>(k, e). le_last_access e) ?cands = Some (k1, e1)"
      unfolding not_None_eq split_paired_Ex by (elim exE)
    then have "(k1, e1) \<in> set (lb_entries b)" using min_by_key_Some(1) [OF m] by auto
    then have e1: "map_of (lb_entries b) k1 = Some e1"
      using hm.mem_iff [OF table_okD(1) [OF lease_invD(3) [OF less.prems(1)]]] by blast
    have sel: "select_lru_eviction b origins endpoint = Inr (Some (le_lease e1))" using False m by (simp add: select_lru_eviction_def)
    obtain ok b1 where r: "release_server_once server (le_lease e1) b = (ok, b1)" by (rule prod.exhaust)
    define b2 where "b2 = remove_matching_entry k1 (lh_generation (lb_handles b ! le_lease e1)) b1"
    note re = release_entry [OF less.prems(1) e1 r b2_def]
    have step: "evict_leases server origins endpoint b =
        (if ok then evict_leases server origins endpoint b2 else Some (Some (ReleaseFailed k1), b1))"
      unfolding evict_leases.simps [of server origins endpoint b] sel release_now_def r b2_def by (simp add: r re(1))
    show ?thesis
    proof (cases ok)
      case False
      then have "\<not> (\<forall>n. server n)" using re(6) by blast
      then show ?thesis using re(3-5) less.prems(2) False step by simp
    next
      case True
      have len: "length (lb_handles b) = length (lb_handles b2)" using re(8) by simp
      have same: "evict_leases server origins endpoint b = evict_leases server origins endpoint b2" using True step by simp
      show ?thesis unfolding same len by (rule less.hyps [OF re(10,7) re(11) [OF less.prems(2)]])
    qed
  qed
qed

definition reserved :: "(nat \<Rightarrow> bool) \<Rightarrow> string \<Rightarrow> (lease_error + nat) \<Rightarrow> lease_budget \<Rightarrow> bool" where
  "reserved server endpoint r b \<longleftrightarrow> lease_inv b \<and> r \<noteq> Inl NoEvictableLease \<and>
     ((\<forall>n. server n) \<longrightarrow> (\<exists>h. r = Inr h)) \<and>
     (\<forall>h. r = Inr h \<longrightarrow> is_active b h \<and> lh_endpoint_id (lb_handles b ! h) = endpoint \<and>
        map_option le_lease (map_of (lb_entries b) endpoint) = Some h)"

lemma admit_ok:
  assumes "lease_inv b" "map_of (lb_entries b) endpoint = None" "Suc (length (lb_handles b)) < 2 ^ 64"
  shows "\<exists>r b'. admit server origins endpoint b = Some (r, b') \<and> reserved server endpoint r b'"
proof -
  obtain r b1 where ev: "evict_leases server origins endpoint b = Some (r, b1)" "lease_inv b1"
      "length (lb_handles b1) = length (lb_handles b)" "map_of (lb_entries b1) endpoint = None" "r \<noteq> Some NoEvictableLease"
      "(\<forall>n. server n) \<longrightarrow> r = None" "r = None \<longrightarrow> (\<forall>origin \<in> set origins. leases_at origin b1 < lb_max_per_origin b1)"
    using evict_leases_ok [OF assms(1,2), of server origins] by blast
  show ?thesis
  proof (cases r)
    case None
    obtain h b2 where i: "insert_lease origins endpoint b1 = (h, b2)" by (rule prod.exhaust)
    have "leases_at origin b1 < lb_max_per_origin b1" if "origin \<in> set origins" for origin using ev(7) None that by blast
    from insert_inv [OF ev(2,4) this _ i] ev(3) assms(3) have "reserved server endpoint (Inr h) b2"
      unfolding reserved_def by auto
    then show ?thesis using ev(1) None i by (simp add: admit_def)
  next
    case (Some e)
    then show ?thesis using ev by (auto simp: admit_def reserved_def)
  qed
qed

lemma reserve_ok:
  assumes "lease_inv b" "Suc (length (lb_handles b)) < 2 ^ 64"
  shows "\<exists>r b'. reserve server origin_of urls endpoint_id b = Some (r, b') \<and> lease_inv b' \<and> r \<noteq> Inl NoEvictableLease \<and>
    (trim endpoint_id \<noteq> [] \<and> rendezvous_origins origin_of urls \<noteq> None \<longrightarrow> reserved server (trim endpoint_id) r b')"
proof (cases "trim endpoint_id = [] \<or> rendezvous_origins origin_of urls = None")
  case True
  then show ?thesis using assms(1) by (auto simp: reserve_def Let_def)
next
  case False
  let ?k = "trim endpoint_id"
  obtain origins where o: "rendezvous_origins origin_of urls = Some origins" using False by blast
  have unf: "reserve server origin_of urls endpoint_id b =
      (case map_of (lb_entries b) ?k of
         None \<Rightarrow> admit server origins ?k b
       | Some existing \<Rightarrow>
           if is_active b (le_lease existing) then Some (Inr (le_lease existing), touch (le_lease existing) b)
           else case release_server_once server (le_lease existing) b of (ok, b1) \<Rightarrow>
                  if ok then admit server origins ?k (remove_matching_entry ?k (lh_generation (lb_handles b ! le_lease existing)) b1)
                  else Some (Inl (ReleaseFailed ?k), b1))"
    using False o by (simp add: reserve_def Let_def)
  have "\<exists>r b'. reserve server origin_of urls endpoint_id b = Some (r, b') \<and> reserved server ?k r b'"
  proof (cases "map_of (lb_entries b) ?k")
    case None
    then show ?thesis using admit_ok [OF assms(1) None assms(2)] unf by simp
  next
    case (Some e)
    obtain ok b1 where r: "release_server_once server (le_lease e) b = (ok, b1)" by (rule prod.exhaust)
    define b2 where "b2 = remove_matching_entry ?k (lh_generation (lb_handles b ! le_lease e)) b1"
    note re = release_entry [OF assms(1) Some r b2_def]
    show ?thesis
    proof (cases "is_active b (le_lease e)")
      case True
      have "map_option le_lease (map_of (lb_entries (touch (le_lease e) b)) ?k) = Some (le_lease e)"
        unfolding touch_inv(3) [OF assms(1) re(2)] by (simp add: Some)
      then have "reserved server ?k (Inr (le_lease e)) (touch (le_lease e) b)"
        using touch_inv(1,2) [OF assms(1) re(2)] True re(1) unfolding reserved_def by simp
      then show ?thesis using unf Some True by simp
    next
      case False
      have "\<exists>r b'. admit server origins ?k b2 = Some (r, b') \<and> reserved server ?k r b'"
        by (rule admit_ok [OF re(7,9)]) (use re(8) assms(2) in simp)
      moreover have "reserved server ?k (Inl (ReleaseFailed ?k)) b1" if "\<not> ok" using re(3,6) that unfolding reserved_def by blast
      moreover have "reserve server origin_of urls endpoint_id b = (if ok then admit server origins ?k b2 else Some (Inl (ReleaseFailed ?k), b1))"
        using unf Some False r by (simp add: b2_def)
      ultimately show ?thesis by (cases ok) auto
    qed
  qed
  then show ?thesis unfolding reserved_def by blast
qed

section \<open>Steps\<close>

text \<open>Fewer than \<open>2^64\<close> leases are ever reserved, so that the generations differ.\<close>

inductive lease_step :: "(nat \<Rightarrow> bool) \<Rightarrow> (string \<Rightarrow> string option) \<Rightarrow> lease_budget \<Rightarrow> lease_budget \<Rightarrow> bool" for server origin_of where
  reserve: "Suc (length (lb_handles b)) < 2 ^ 64 \<Longrightarrow> reserve server origin_of urls endpoint b = Some (r, b') \<Longrightarrow> lease_step server origin_of b b'"
| release: "h < length (lb_handles b) \<Longrightarrow> lease_step server origin_of b (snd (release_now server h b))"
| touch: "h < length (lb_handles b) \<Longrightarrow> lease_step server origin_of b (touch h b)"

interpretation lease: step_system "\<lambda>b. \<exists>n. with_limit n = Some b" "lease_step server origin_of" lease_inv for server origin_of
proof
  fix b assume "\<exists>n. with_limit n = Some b"
  then show "lease_inv b"
    by (auto simp: with_limit_def lease_inv_def numbered_def table_ok_def hm_ok_def split: if_splits)
next
  fix b b' assume inv: "lease_inv b" and step: "lease_step server origin_of b b'"
  from step show "lease_inv b'"
  proof cases
    case (reserve urls endpoint r)
    then show ?thesis using reserve_ok [OF inv reserve(1), of server origin_of urls endpoint] by auto
  next
    case (release h)
    obtain ok b1 where r: "release_server_once server h b = (ok, b1)" by (rule prod.exhaust)
    note ro = release_once_inv [OF inv release(2) r]
    have h1: "h < length (lb_handles b1)" using release(2) ro(3) by simp
    show ?thesis
      using remove_matching_inv(1) [OF ro(1) h1 ro(5) refl] ro(1,6,7) release(1) r by (simp add: release_now_def)
  next
    case (touch h)
    then show ?thesis using touch_inv(1) [OF inv] by simp
  qed
qed

section \<open>Properties\<close>

text \<open>C24: In every reachable budget no origin has more leases in the table than its limit, and every active
  lease is in the table under its endpoint; so no sequence of reservations, releases (whether the
  server accepts them or not) and touches keeps more active leases at an origin than allowed.\<close>

theorem lease_budget_bounded:
  assumes "reach (\<lambda>b. \<exists>n. with_limit n = Some b) (lease_step server origin_of) b"
  shows "leases_at origin b \<le> lb_max_per_origin b \<and>
    (h < length (lb_handles b) \<and> is_active b h \<longrightarrow>
       map_option le_lease (map_of (lb_entries b) (lh_endpoint_id (lb_handles b ! h))) = Some h)"
proof -
  have inv: "lease_inv b" by (rule lease.reach_inv [OF assms])
  then show ?thesis using lease_invD(5) table_okD(3) [OF lease_invD(3) [OF inv], of h] by auto
qed

definition sample_budget :: lease_budget where
  "sample_budget = \<lparr>lb_entries = [], lb_next_access = 0, lb_next_generation = 0, lb_max_per_origin = 1, lb_handles = [], lb_calls = 0\<rparr>"

definition sample_leased :: lease_budget where
  "sample_leased = \<lparr>lb_entries = [(''a'', \<lparr>le_generation = 1, le_origins = [''o''], le_last_access = 1, le_lease = 0\<rparr>)],
     lb_next_access = 1, lb_next_generation = 1, lb_max_per_origin = 1,
     lb_handles = [\<lparr>lh_endpoint_id = ''a'', lh_generation = 1, lh_active = True, lh_release_started = False\<rparr>], lb_calls = 0\<rparr>"

lemma sample_names: "trim ''o'' = ''o''" "trim ''a'' = ''a''" "trim ''b'' = ''b''"
  by (simp_all add: trim_id ws_firsts_def ws_lasts_def white_space_def)

lemma sample_reserve: "reserve (\<lambda>n. True) Some [''o''] ''a'' sample_budget = Some (Inr 0, sample_leased)"
  by (simp add: reserve_def rendezvous_origins_def sample_names admit_def evict_leases.simps select_lru_eviction_def insert_lease_def
      next_access_def sat_add_u64_def sample_budget_def sample_leased_def Let_def)

lemma sample_leased_reach: "reach (\<lambda>b. \<exists>n. with_limit n = Some b) (lease_step (\<lambda>n. True) Some) sample_leased"
proof -
  have "reach (\<lambda>b. \<exists>n. with_limit n = Some b) (lease_step (\<lambda>n. True) Some) sample_budget"
    by (rule reach_init) (auto simp: with_limit_def sample_budget_def intro: exI [of _ 1])
  moreover have "lease_step (\<lambda>n. True) Some sample_budget sample_leased"
    by (rule lease_step.reserve [OF _ sample_reserve]) (simp add: sample_budget_def)
  ultimately show ?thesis by (rule reach_step)
qed

theorem lease_budget_bounded_witness:
  "leases_at ''o'' sample_leased \<le> 1 \<and> map_option le_lease (map_of (lb_entries sample_leased) ''a'') = Some 0"
  using lease_budget_bounded [OF sample_leased_reach, of "''o''" 0] by (simp add: sample_leased_def)

text \<open>C40: A reservation always comes to an end: its eviction loop stops, it never finds the budget full without
  a lease to evict, and when the server accepts the releases it returns an active lease of the
  requested endpoint that is in the table.\<close>

theorem reserve_returns:
  assumes "reach (\<lambda>b. \<exists>n. with_limit n = Some b) (lease_step server origin_of) b" "Suc (length (lb_handles b)) < 2 ^ 64"
  shows "\<exists>r b'. reserve server origin_of urls endpoint b = Some (r, b') \<and> r \<noteq> Inl NoEvictableLease \<and>
    (trim endpoint \<noteq> [] \<and> rendezvous_origins origin_of urls \<noteq> None \<and> (\<forall>n. server n) \<longrightarrow>
       (\<exists>h. r = Inr h \<and> is_active b' h \<and> lh_endpoint_id (lb_handles b' ! h) = trim endpoint \<and>
          map_option le_lease (map_of (lb_entries b') (trim endpoint)) = Some h))"
  using reserve_ok [OF lease.reach_inv [OF assms(1)] assms(2), of server origin_of urls endpoint]
  unfolding reserved_def by blast

theorem reserve_returns_witness:
  "\<exists>r b'. reserve (\<lambda>n. True) Some [''o''] ''b'' sample_leased = Some (r, b') \<and> (\<exists>h. r = Inr h \<and> is_active b' h)"
proof -
  have "Suc (length (lb_handles sample_leased)) < 2 ^ 64" "trim ''b'' \<noteq> []" "rendezvous_origins Some [''o''] \<noteq> None"
    by (simp_all add: sample_leased_def sample_names rendezvous_origins_def Let_def)
  then show ?thesis using reserve_returns [OF sample_leased_reach, of "[''o'']" "''b''"] by blast
qed

end
