(* ===== verification/Cluster.thy ===== *)
theory Cluster
  imports Rust_Strings
begin

text \<open>
  The cluster view of a node (\<open>server-node-sdk/src/cluster.rs\<close>): node descriptors with their health,
  the two views of which node holds which subject, placement by rendezvous hashing, and the
  replication plan.

  A \<open>NodeId\<close> is a UUID, ordered as the 128-bit number it is.  A \<open>HashSet\<close> is a list in its
  iteration order.  The clock is an argument \<open>now\<close>, the first eight bytes of the BLAKE3 hash of
  \<open>key:node_id\<close> are the argument \<open>score\<close>.
\<close>

section \<open>Data\<close>

type_synonym node_id = nat

datatype node_status = Online | Offline

datatype candidate_kind = DirectHttps | DirectQuic | ServerReflexive | Relay

record node_reachability =
  nr_public_api_url :: "string option"
  nr_public_direct_urls :: "string list"
  nr_peer_api_url :: "string option"
  nr_peer_direct_urls :: "string list"
  nr_peer_direct_candidates :: "candidate_kind list"
  nr_relay_required :: bool

record node_capabilities =
  nc_public_api :: bool
  nc_peer_api :: bool
  nc_relay_tunnel :: bool

record node_storage_stats =
  ns_collected_at_unix :: u64
  ns_latest_snapshot_id :: "string option"
  ns_latest_snapshot_created_at_unix :: "u64 option"
  ns_latest_snapshot_object_count :: usize
  ns_chunk_store_bytes :: u64
  ns_manifest_store_bytes :: u64
  ns_metadata_db_bytes :: u64
  ns_media_cache_bytes :: u64
  ns_latest_snapshot_logical_bytes :: u64
  ns_latest_snapshot_unique_chunk_bytes :: u64

record node_descriptor =
  nd_node_id :: node_id
  nd_hostname :: "string option"
  nd_software_version :: "string option"
  nd_reachability :: node_reachability
  nd_capabilities :: node_capabilities
  nd_labels :: "(string, string) hashmap"
  nd_capacity_bytes :: u64
  nd_free_bytes :: u64
  nd_storage_stats :: "node_storage_stats option"
  nd_last_heartbeat_unix :: u64
  nd_status :: node_status

record replication_policy =
  rp_replication_factor :: usize
  rp_min_distinct_labels :: "(string, usize) hashmap"
  rp_accepted_over_replication_items :: usize

definition default_replication_policy :: replication_policy where
  "default_replication_policy = \<lparr>rp_replication_factor = 3,
     rp_min_distinct_labels = [(''dc'', 1), (''rack'', 1)], rp_accepted_over_replication_items = 0\<rparr>"

text \<open>A view: the nodes of each subject, and the subjects of each node.\<close>

record membership =
  mb_by_key :: "(string, node_id list) hashmap"
  mb_by_node :: "(node_id, string list) hashmap"

record cluster =
  cl_local_node :: node_id
  cl_heartbeat_timeout_secs :: u64
  cl_policy :: replication_policy
  cl_nodes :: "(node_id, node_descriptor) hashmap"
  cl_replicas :: membership
  cl_available :: membership

abbreviation empty_membership :: membership where
  "empty_membership \<equiv> \<lparr>mb_by_key = [], mb_by_node = []\<rparr>"

definition new_cluster :: "node_id \<Rightarrow> replication_policy \<Rightarrow> u64 \<Rightarrow> cluster" where
  "new_cluster local_node policy timeout =
     \<lparr>cl_local_node = local_node, cl_heartbeat_timeout_secs = timeout, cl_policy = policy, cl_nodes = [],
      cl_replicas = empty_membership, cl_available = empty_membership\<rparr>"

section \<open>Reachability\<close>

text \<open>One URL of the list: trimmed, without one trailing slash, and not empty.\<close>

definition normalized_url :: "string \<Rightarrow> string option" where
  "normalized_url value = opt_filter (\<lambda>v. v \<noteq> []) (or_else (strip_suffix (trim value) ''/'') (Some (trim value)))"

definition push_url :: "string \<Rightarrow> string list \<Rightarrow> string list" where
  "push_url url urls = (if url \<in> set urls then urls else urls @ [url])"

definition collect_reachability_urls :: "string option \<Rightarrow> string list \<Rightarrow> string list" where
  "collect_reachability_urls primary urls =
     fold (\<lambda>value acc. case normalized_url value of None \<Rightarrow> acc | Some url \<Rightarrow> push_url url acc) urls
       (case opt_filter (\<lambda>v. v \<noteq> []) (map_option trim primary) of None \<Rightarrow> [] | Some p \<Rightarrow> [p])"

definition public_api_urls :: "node_reachability \<Rightarrow> string list" where
  "public_api_urls r = collect_reachability_urls (nr_public_api_url r) (nr_public_direct_urls r)"

definition peer_api_urls :: "node_reachability \<Rightarrow> string list" where
  "peer_api_urls r = collect_reachability_urls (nr_peer_api_url r) (nr_peer_direct_urls r)"

definition has_peer_transport :: "node_reachability \<Rightarrow> bool" where
  "has_peer_transport r \<longleftrightarrow>
     list_ex (\<lambda>k. k = DirectHttps \<or> k = DirectQuic \<or> k = ServerReflexive) (nr_peer_direct_candidates r) \<or>
     peer_api_urls r \<noteq> []"

section \<open>The two views of a subject\<close>

definition hs_insert :: "'a \<Rightarrow> 'a list \<Rightarrow> 'a list" where
  "hs_insert x xs = (if x \<in> set xs then xs else xs @ [x])"

definition insert_subject_membership :: "string \<Rightarrow> node_id \<Rightarrow> membership \<Rightarrow> bool \<times> membership" where
  "insert_subject_membership subject node m =
     (let nodes = unwrap_or [] (map_of (mb_by_key m) subject);
          subjects = unwrap_or [] (map_of (mb_by_node m) node)
      in (subject \<notin> set subjects \<or> node \<notin> set nodes,
          \<lparr>mb_by_key = hm_insert subject (hs_insert node nodes) (mb_by_key m),
           mb_by_node = hm_insert node (hs_insert subject subjects) (mb_by_node m)\<rparr>))"

text \<open>Removing one element of the set filed under \<open>k\<close>, and the entry when the set becomes empty.\<close>

definition remove_member :: "'k \<Rightarrow> 'v \<Rightarrow> ('k, 'v list) hashmap \<Rightarrow> ('k, 'v list) hashmap" where
  "remove_member k x m =
     (case map_of m k of
        None \<Rightarrow> m
      | Some xs \<Rightarrow> if removeAll x xs = [] then hm_remove k m else hm_insert k (removeAll x xs) m)"

definition remove_subject_membership :: "string \<Rightarrow> node_id \<Rightarrow> membership \<Rightarrow> bool \<times> membership" where
  "remove_subject_membership subject node m =
     (case map_of (mb_by_key m) subject of None \<Rightarrow> False | Some nodes \<Rightarrow> node \<in> set nodes,
      \<lparr>mb_by_key = remove_member subject node (mb_by_key m),
       mb_by_node = remove_member node subject (mb_by_node m)\<rparr>)"

text \<open>The part of \<open>remove_node\<close> about one view.\<close>

definition remove_node_membership :: "node_id \<Rightarrow> membership \<Rightarrow> membership" where
  "remove_node_membership node m =
     (case map_of (mb_by_node m) node of
        None \<Rightarrow> m
      | Some subjects \<Rightarrow>
          \<lparr>mb_by_key = fold (\<lambda>subject. remove_member subject node) subjects (mb_by_key m),
           mb_by_node = hm_remove node (mb_by_node m)\<rparr>)"

section \<open>Nodes\<close>

definition node_descriptor_changed_for_persistence :: "node_descriptor \<Rightarrow> node_descriptor \<Rightarrow> bool" where
  "node_descriptor_changed_for_persistence a b \<longleftrightarrow>
     nd_node_id a \<noteq> nd_node_id b \<or> nd_hostname a \<noteq> nd_hostname b \<or>
     nd_software_version a \<noteq> nd_software_version b \<or> nd_reachability a \<noteq> nd_reachability b \<or>
     nd_capabilities a \<noteq> nd_capabilities b \<or> set (nd_labels a) \<noteq> set (nd_labels b)"

definition register_node :: "u64 \<Rightarrow> node_descriptor \<Rightarrow> cluster \<Rightarrow> bool \<times> cluster" where
  "register_node now d c =
     (let d1 = (case map_of (cl_nodes c) (nd_node_id d) of
                  Some existing \<Rightarrow>
                    if nd_storage_stats d = None then d\<lparr>nd_storage_stats := nd_storage_stats existing\<rparr> else d
                | None \<Rightarrow> d);
          changed = (case map_of (cl_nodes c) (nd_node_id d) of
                       None \<Rightarrow> True
                     | Some existing \<Rightarrow> node_descriptor_changed_for_persistence existing d1);
          d2 = d1\<lparr>nd_last_heartbeat_unix := now, nd_status := Online\<rparr>
      in (changed, c\<lparr>cl_nodes := hm_insert (nd_node_id d2) d2 (cl_nodes c)\<rparr>))"

definition import_nodes :: "node_descriptor list \<Rightarrow> cluster \<Rightarrow> cluster" where
  "import_nodes ds c =
     fold (\<lambda>d c. let d1 = (if nd_node_id d \<noteq> cl_local_node c then d\<lparr>nd_status := Offline\<rparr> else d)
                 in c\<lparr>cl_nodes := hm_insert (nd_node_id d1) d1 (cl_nodes c)\<rparr>) ds c"

definition remove_node :: "node_id \<Rightarrow> cluster \<Rightarrow> bool \<times> cluster" where
  "remove_node node c =
     (if map_of (cl_nodes c) node = None then (False, c)
      else (True, c\<lparr>cl_nodes := hm_remove node (cl_nodes c),
                    cl_replicas := remove_node_membership node (cl_replicas c),
                    cl_available := remove_node_membership node (cl_available c)\<rparr>))"

text \<open>\<open>if let Some(x) = new { field = x }\<close>\<close>

abbreviation set_if :: "'a option \<Rightarrow> 'a \<Rightarrow> 'a" where
  "set_if new old \<equiv> unwrap_or old new"

definition touch_heartbeat ::
  "u64 \<Rightarrow> node_id \<Rightarrow> u64 option \<Rightarrow> u64 option \<Rightarrow> node_storage_stats option \<Rightarrow> (string, string) hashmap option
     \<Rightarrow> string option \<Rightarrow> cluster \<Rightarrow> bool \<times> cluster" where
  "touch_heartbeat now node free capacity stats labels version c =
     (case map_of (cl_nodes c) node of
        None \<Rightarrow> (False, c)
      | Some d \<Rightarrow>
          (True, c\<lparr>cl_nodes := hm_insert node
             (d\<lparr>nd_last_heartbeat_unix := now, nd_status := Online,
                nd_free_bytes := set_if free (nd_free_bytes d),
                nd_capacity_bytes := set_if capacity (nd_capacity_bytes d),
                nd_storage_stats := or_else stats (nd_storage_stats d),
                nd_labels := set_if labels (nd_labels d),
                nd_software_version := or_else version (nd_software_version d)\<rparr>) (cl_nodes c)\<rparr>))"

definition update_node_storage ::
  "node_id \<Rightarrow> u64 \<Rightarrow> u64 \<Rightarrow> node_storage_stats option \<Rightarrow> cluster \<Rightarrow> bool \<times> cluster" where
  "update_node_storage node free capacity stats c =
     (case map_of (cl_nodes c) node of
        None \<Rightarrow> (False, c)
      | Some d \<Rightarrow>
          (True, c\<lparr>cl_nodes := hm_insert node
             (d\<lparr>nd_free_bytes := free, nd_capacity_bytes := capacity,
                nd_storage_stats := or_else stats (nd_storage_stats d)\<rparr>) (cl_nodes c)\<rparr>))"

definition update_node_storage_stats :: "node_id \<Rightarrow> node_storage_stats \<Rightarrow> cluster \<Rightarrow> bool \<times> cluster" where
  "update_node_storage_stats node stats c =
     (case map_of (cl_nodes c) node of
        None \<Rightarrow> (False, c)
      | Some d \<Rightarrow> (True, c\<lparr>cl_nodes := hm_insert node (d\<lparr>nd_storage_stats := Some stats\<rparr>) (cl_nodes c)\<rparr>))"

definition list_nodes :: "cluster \<Rightarrow> node_descriptor list" where
  "list_nodes c = sort_asc nd_node_id (hm_values (cl_nodes c))"

abbreviation online_nodes :: "cluster \<Rightarrow> nat" where
  "online_nodes c \<equiv> length (filter (\<lambda>d. nd_status d = Online) (hm_values (cl_nodes c)))"

record cluster_summary =
  cs_local_node_id :: node_id
  cs_total_nodes :: usize
  cs_online_nodes :: usize
  cs_offline_nodes :: usize
  cs_policy :: replication_policy

definition summary :: "cluster \<Rightarrow> cluster_summary" where
  "summary c = \<lparr>cs_local_node_id = cl_local_node c, cs_total_nodes = length (cl_nodes c), cs_online_nodes = online_nodes c,
     cs_offline_nodes = length (cl_nodes c) - online_nodes c, cs_policy = cl_policy c\<rparr>"

definition metadata_commit_quorum_size :: "cluster \<Rightarrow> nat" where
  "metadata_commit_quorum_size c =
     (let total_nodes = length (cl_nodes c) in if total_nodes = 0 then 0 else total_nodes div 2 + 1)"

definition has_metadata_commit_quorum :: "cluster \<Rightarrow> bool" where
  "has_metadata_commit_quorum c \<longleftrightarrow>
     metadata_commit_quorum_size c \<noteq> 0 \<and> metadata_commit_quorum_size c \<le> online_nodes c"

text \<open>The health of one node, and whether it has just gone offline.\<close>

definition refresh_health :: "u64 \<Rightarrow> cluster \<Rightarrow> node_descriptor \<Rightarrow> bool \<times> node_descriptor" where
  "refresh_health now c d =
     (if nd_node_id d = cl_local_node c then (False, d\<lparr>nd_status := Online\<rparr>)
      else if now - nd_last_heartbeat_unix d > cl_heartbeat_timeout_secs c \<and> nd_status d \<noteq> Offline
           then (True, d\<lparr>nd_status := Offline\<rparr>)
      else (False, d))"

definition update_health_and_detect_offline_transition :: "u64 \<Rightarrow> cluster \<Rightarrow> bool \<times> cluster" where
  "update_health_and_detect_offline_transition now c =
     (list_ex (\<lambda>d. fst (refresh_health now c d)) (hm_values (cl_nodes c)),
      c\<lparr>cl_nodes := hm_map_values (\<lambda>d. snd (refresh_health now c d)) (cl_nodes c)\<rparr>)"


section \<open>Who holds what\<close>

definition note_replica :: "string \<Rightarrow> node_id \<Rightarrow> cluster \<Rightarrow> bool \<times> cluster" where
  "note_replica key node c =
     (case insert_subject_membership key node (cl_replicas c) of (replica_inserted, replicas) \<Rightarrow>
      case insert_subject_membership key node (cl_available c) of (available_inserted, available) \<Rightarrow>
        (replica_inserted \<or> available_inserted, c\<lparr>cl_replicas := replicas, cl_available := available\<rparr>))"

text \<open>A loop over subjects that removes or inserts each and accumulates whether anything changed.\<close>

definition remove_subjects :: "string list \<Rightarrow> node_id \<Rightarrow> bool \<times> membership \<Rightarrow> bool \<times> membership" where
  "remove_subjects subjects node acc =
     fold (\<lambda>subject (changed, m). case remove_subject_membership subject node m of
             (b, m1) \<Rightarrow> (changed \<or> b, m1)) subjects acc"

definition insert_subjects :: "string list \<Rightarrow> node_id \<Rightarrow> bool \<times> membership \<Rightarrow> bool \<times> membership" where
  "insert_subjects subjects node acc =
     fold (\<lambda>subject (changed, m). case insert_subject_membership subject node m of
             (b, m1) \<Rightarrow> (changed \<or> b, m1)) subjects acc"

abbreviation subjects_of :: "membership \<Rightarrow> node_id \<Rightarrow> string list" where
  "subjects_of m node \<equiv> unwrap_or [] (map_of (mb_by_node m) node)"

abbreviation nodes_of :: "membership \<Rightarrow> string \<Rightarrow> node_id list" where
  "nodes_of m subject \<equiv> unwrap_or [] (map_of (mb_by_key m) subject)"

definition replace_node_available_view :: "node_id \<Rightarrow> string list \<Rightarrow> cluster \<Rightarrow> bool \<times> cluster" where
  "replace_node_available_view node subjects c =
     (let desired = remdups subjects; current = subjects_of (cl_available c) node
      in if set current = set desired then (False, c)
         else case insert_subjects (filter (\<lambda>s. s \<notin> set current) desired) node
                     (remove_subjects (filter (\<lambda>s. s \<notin> set desired) current) node (False, cl_available c)) of
                (changed, m) \<Rightarrow> (changed, c\<lparr>cl_available := m\<rparr>))"

definition replication_placement_key :: "string \<Rightarrow> string" where
  "replication_placement_key key = (case split_once ''@ver-'' key of None \<Rightarrow> key | Some (base, _) \<Rightarrow> base)"

definition is_versioned_replication_subject :: "string \<Rightarrow> bool" where
  "is_versioned_replication_subject key \<longleftrightarrow> split_once ''@ver-'' key \<noteq> None"

definition reconcile_node_subjects :: "node_id \<Rightarrow> string list \<Rightarrow> cluster \<Rightarrow> bool \<times> cluster" where
  "reconcile_node_subjects node subjects c =
     (let desired = remdups subjects;
          base_keys = map replication_placement_key desired;
          current = subjects_of (cl_replicas c) node
      in case replace_node_available_view node subjects c of (changed, c1) \<Rightarrow>
         case insert_subjects desired node
                (remove_subjects
                  (filter (\<lambda>s. s \<notin> set desired \<and>
                     \<not> (is_versioned_replication_subject s \<and> replication_placement_key s \<in> set base_keys)) current)
                  node (changed, cl_replicas c1)) of
           (changed1, m) \<Rightarrow> (changed1, c1\<lparr>cl_replicas := m\<rparr>))"

definition import_view :: "(string, node_id list) hashmap \<Rightarrow> membership" where
  "import_view view =
     fold (\<lambda>(key, nodes) m. fold (\<lambda>node m. snd (insert_subject_membership key node m)) nodes m) view empty_membership"

definition import_replica_views ::
  "(string, node_id list) hashmap \<Rightarrow> (string, node_id list) hashmap \<Rightarrow> cluster \<Rightarrow> cluster" where
  "import_replica_views replicas available c =
     c\<lparr>cl_replicas := import_view replicas, cl_available := import_view available\<rparr>"

definition export_replicas_by_key :: "cluster \<Rightarrow> (string, node_id list) hashmap" where
  "export_replicas_by_key c = hm_map_values sort (mb_by_key (cl_replicas c))"

definition export_available_by_key :: "cluster \<Rightarrow> (string, node_id list) hashmap" where
  "export_available_by_key c = hm_map_values sort (mb_by_key (cl_available c))"

definition known_replication_subjects :: "cluster \<Rightarrow> string list" where
  "known_replication_subjects c =
     sort (remdups (hm_keys (mb_by_key (cl_replicas c)) @ hm_keys (mb_by_key (cl_available c))))"

definition online_holders :: "cluster \<Rightarrow> membership \<Rightarrow> string \<Rightarrow> node_descriptor list" where
  "online_holders c m key =
     sort_asc nd_node_id (filter (\<lambda>d. nd_status d = Online) (List.map_filter (map_of (cl_nodes c)) (nodes_of m key)))"

definition replica_nodes_for_subject :: "cluster \<Rightarrow> string \<Rightarrow> node_descriptor list" where
  "replica_nodes_for_subject c key = online_holders c (cl_replicas c) key"

definition available_nodes_for_subject :: "cluster \<Rightarrow> string \<Rightarrow> node_descriptor list" where
  "available_nodes_for_subject c key = online_holders c (cl_available c) key"

definition subjects_for_node :: "cluster \<Rightarrow> node_id \<Rightarrow> string list" where
  "subjects_for_node c node = sort (subjects_of (cl_replicas c) node)"

definition available_subjects_for_node :: "cluster \<Rightarrow> node_id \<Rightarrow> string list" where
  "available_subjects_for_node c node = sort (subjects_of (cl_available c) node)"

definition remove_replica :: "string \<Rightarrow> node_id \<Rightarrow> cluster \<Rightarrow> cluster" where
  "remove_replica key node c = c\<lparr>cl_replicas := snd (remove_subject_membership key node (cl_replicas c))\<rparr>"

definition remove_available :: "string \<Rightarrow> node_id \<Rightarrow> cluster \<Rightarrow> cluster" where
  "remove_available key node c = c\<lparr>cl_available := snd (remove_subject_membership key node (cl_available c))\<rparr>"

section \<open>Placement\<close>

abbreviation label_value :: "node_descriptor \<Rightarrow> string \<Rightarrow> string" where
  "label_value d label \<equiv> unwrap_or ''_unknown'' (map_of (nd_labels d) label)"

definition helps_constraint :: "replication_policy \<Rightarrow> (string, string list) hashmap \<Rightarrow> node_descriptor \<Rightarrow> bool" where
  "helps_constraint policy seen d \<longleftrightarrow>
     list_ex (\<lambda>(label, min_needed).
       length (unwrap_or [] (map_of seen label)) < min_needed \<and>
       label_value d label \<notin> set (unwrap_or [] (map_of seen label))) (rp_min_distinct_labels policy)"

definition note_labels :: "replication_policy \<Rightarrow> node_descriptor \<Rightarrow> (string, string list) hashmap \<Rightarrow> (string, string list) hashmap" where
  "note_labels policy d seen =
     fold (\<lambda>label seen. hm_insert label (hs_insert (label_value d label) (unwrap_or [] (map_of seen label))) seen)
       (hm_keys (rp_min_distinct_labels policy)) seen"

fun select_diverse ::
  "replication_policy \<Rightarrow> (node_id, node_descriptor) hashmap \<Rightarrow> node_id list \<Rightarrow> node_id list
     \<Rightarrow> (string, string list) hashmap \<Rightarrow> node_id list" where
  "select_diverse policy nodes [] selected seen = selected"
| "select_diverse policy nodes (n # ranked) selected seen =
     (if rp_replication_factor policy \<le> length selected then selected
      else case map_of nodes n of
             None \<Rightarrow> select_diverse policy nodes ranked selected seen
           | Some d \<Rightarrow>
               if helps_constraint policy seen d \<or> length selected < length (rp_min_distinct_labels policy)
               then select_diverse policy nodes ranked (selected @ [n]) (note_labels policy d seen)
               else select_diverse policy nodes ranked selected seen)"

fun fill_selection :: "nat \<Rightarrow> node_id list \<Rightarrow> node_id list \<Rightarrow> node_id list" where
  "fill_selection factor [] selected = selected"
| "fill_selection factor (n # ranked) selected =
     (if factor \<le> length selected then selected
      else fill_selection factor ranked (if n \<in> set selected then selected else selected @ [n]))"

definition ranked_nodes ::
  "(string \<Rightarrow> node_id \<Rightarrow> nat) \<Rightarrow> string \<Rightarrow> (node_id, node_descriptor) hashmap \<Rightarrow> (node_descriptor \<Rightarrow> bool) \<Rightarrow> node_id list" where
  "ranked_nodes score key nodes eligible =
     map fst (sort_desc snd (map (\<lambda>d. (nd_node_id d, score key (nd_node_id d))) (filter eligible (hm_values nodes))))"

definition select_nodes_by_rendezvous_matching ::
  "(string \<Rightarrow> node_id \<Rightarrow> nat) \<Rightarrow> string \<Rightarrow> (node_id, node_descriptor) hashmap \<Rightarrow> replication_policy
     \<Rightarrow> (node_descriptor \<Rightarrow> bool) \<Rightarrow> node_id list" where
  "select_nodes_by_rendezvous_matching score key nodes policy eligible =
     (let ranked = ranked_nodes score key nodes eligible;
          selected = select_diverse policy nodes ranked [] []
      in if length selected < rp_replication_factor policy
         then fill_selection (rp_replication_factor policy) ranked selected
         else selected)"

definition select_nodes_by_rendezvous ::
  "(string \<Rightarrow> node_id \<Rightarrow> nat) \<Rightarrow> string \<Rightarrow> (node_id, node_descriptor) hashmap \<Rightarrow> replication_policy \<Rightarrow> node_id list" where
  "select_nodes_by_rendezvous score key nodes policy =
     select_nodes_by_rendezvous_matching score key nodes policy (\<lambda>d. nd_status d = Online)"

record placement_decision =
  pd_key :: string
  pd_selected_nodes :: "node_id list"
  pd_replication_factor :: usize

definition placement_for_key :: "(string \<Rightarrow> node_id \<Rightarrow> nat) \<Rightarrow> cluster \<Rightarrow> string \<Rightarrow> placement_decision" where
  "placement_for_key score c key =
     \<lparr>pd_key = key,
      pd_selected_nodes = select_nodes_by_rendezvous score (replication_placement_key key) (cl_nodes c) (cl_policy c),
      pd_replication_factor = rp_replication_factor (cl_policy c)\<rparr>"

definition placement_for_key_with_offline_grace ::
  "(string \<Rightarrow> node_id \<Rightarrow> nat) \<Rightarrow> cluster \<Rightarrow> string \<Rightarrow> u64 \<Rightarrow> u64 \<Rightarrow> placement_decision" where
  "placement_for_key_with_offline_grace score c key now grace =
     \<lparr>pd_key = key,
      pd_selected_nodes = select_nodes_by_rendezvous_matching score (replication_placement_key key) (cl_nodes c) (cl_policy c)
        (\<lambda>d. nd_status d = Online \<or> now - nd_last_heartbeat_unix d \<le> grace),
      pd_replication_factor = rp_replication_factor (cl_policy c)\<rparr>"

section \<open>The replication plan\<close>

datatype cleanup_option = CleanupNone | DeferredWithinTolerance | Recommended

record plan_item =
  pi_key :: string
  pi_desired_nodes :: "node_id list"
  pi_current_nodes :: "node_id list"
  pi_missing_nodes :: "node_id list"
  pi_extra_nodes :: "node_id list"
  pi_cleanup_option :: cleanup_option
  pi_deferred_extra_nodes :: usize

record replication_plan =
  pl_generated_at_unix :: u64
  pl_under_replicated :: usize
  pl_over_replicated :: usize
  pl_cleanup_deferred_items :: usize
  pl_cleanup_deferred_extra_nodes :: usize
  pl_items :: "plan_item list"

definition raw_extra_nodes ::
  "(node_id, node_descriptor) hashmap \<Rightarrow> node_id list \<Rightarrow> node_id list \<Rightarrow> node_id list" where
  "raw_extra_nodes nodes desired current =
     (if length desired < length current
      then sort_asc (\<lambda>n. case map_of nodes n of None \<Rightarrow> 0 | Some d \<Rightarrow> nd_free_bytes d)
             (filter (\<lambda>n. n \<notin> set desired \<and> (case map_of nodes n of None \<Rightarrow> True | Some d \<Rightarrow> nd_status d = Online)) current)
      else [])"

text \<open>The item of one key and what is left of the tolerated extras.\<close>

definition plan_key ::
  "(string \<Rightarrow> node_id \<Rightarrow> nat) \<Rightarrow> cluster \<Rightarrow> string \<Rightarrow> nat \<Rightarrow> plan_item \<times> nat" where
  "plan_key score c key tolerated =
     (let desired = select_nodes_by_rendezvous score (replication_placement_key key) (cl_nodes c) (cl_policy c);
          current = nodes_of (cl_available c) key;
          missing = take (length desired - length current) (filter (\<lambda>n. n \<notin> set current) desired);
          raw = raw_extra_nodes (cl_nodes c) desired current;
          deferred = min (length raw) tolerated;
          extra = take (length raw - deferred) raw
      in (\<lparr>pi_key = key, pi_desired_nodes = desired, pi_current_nodes = sort current, pi_missing_nodes = missing,
           pi_extra_nodes = extra,
           pi_cleanup_option = (if extra \<noteq> [] then Recommended
                                else if 0 < deferred then DeferredWithinTolerance else CleanupNone),
           pi_deferred_extra_nodes = deferred\<rparr>,
          tolerated - deferred))"

fun plan_items :: "(string \<Rightarrow> node_id \<Rightarrow> nat) \<Rightarrow> cluster \<Rightarrow> string list \<Rightarrow> nat \<Rightarrow> plan_item list" where
  "plan_items score c [] tolerated = []"
| "plan_items score c (key # keys) tolerated =
     (case plan_key score c key tolerated of (item, tolerated1) \<Rightarrow>
        if pi_missing_nodes item \<noteq> [] \<or> pi_extra_nodes item \<noteq> [] \<or> 0 < pi_deferred_extra_nodes item
        then item # plan_items score c keys tolerated1
        else plan_items score c keys tolerated1)"

definition replication_plan_for :: "(string \<Rightarrow> node_id \<Rightarrow> nat) \<Rightarrow> u64 \<Rightarrow> cluster \<Rightarrow> string list \<Rightarrow> replication_plan" where
  "replication_plan_for score now c keys =
     (let items = plan_items score c keys (rp_accepted_over_replication_items (cl_policy c))
      in \<lparr>pl_generated_at_unix = now,
          pl_under_replicated = length (filter (\<lambda>i. pi_missing_nodes i \<noteq> []) items),
          pl_over_replicated = length (filter (\<lambda>i. pi_extra_nodes i \<noteq> []) items),
          pl_cleanup_deferred_items = length (filter (\<lambda>i. 0 < pi_deferred_extra_nodes i) items),
          pl_cleanup_deferred_extra_nodes = sum_list (map pi_deferred_extra_nodes items),
          pl_items = items\<rparr>)"

end
