(* ===== verification/Cluster_Views.thy ===== *)
theory Cluster_Views
  imports Cluster
begin

text \<open>
  The two views of which node holds which subject stay inverse to each other: every operation of
  the cluster keeps \<open>view_ok\<close>, and its effect is an update of one relation between subjects and
  nodes.
\<close>

section \<open>An index of a relation\<close>

text \<open>What a client of an indexed relation relies on.\<close>

locale relation_index =
  fixes ok :: "'m \<Rightarrow> bool"
    and held :: "'m \<Rightarrow> ('a \<times> 'b) set"
    and ins :: "'a \<Rightarrow> 'b \<Rightarrow> 'm \<Rightarrow> bool \<times> 'm"
    and del :: "'a \<Rightarrow> 'b \<Rightarrow> 'm \<Rightarrow> bool \<times> 'm"
  assumes ok_ins: "ok m \<Longrightarrow> ok (snd (ins a b m))"
    and held_ins: "ok m \<Longrightarrow> held (snd (ins a b m)) = insert (a, b) (held m)"
    and ins_changed: "ok m \<Longrightarrow> fst (ins a b m) \<longleftrightarrow> (a, b) \<notin> held m"
    and ok_del: "ok m \<Longrightarrow> ok (snd (del a b m))"
    and held_del: "ok m \<Longrightarrow> held (snd (del a b m)) = held m - {(a, b)}"
    and del_changed: "ok m \<Longrightarrow> fst (del a b m) \<longleftrightarrow> (a, b) \<in> held m"
begin

lemma insert_loop:
  assumes "ok m"
  shows "case fold (\<lambda>a (c, m). case ins a b m of (b', m1) \<Rightarrow> (c \<or> b', m1)) as (c0, m) of
    (c, m') \<Rightarrow> ok m' \<and> held m' = held m \<union> set as \<times> {b} \<and> (c \<longleftrightarrow> c0 \<or> held m' \<noteq> held m)"
  using assms
proof (induction as arbitrary: c0 m)
  case (Cons a as)
  obtain b' m1 where i: "ins a b m = (b', m1)" by (rule prod.exhaust)
  then have 1: "ok m1" "held m1 = insert (a, b) (held m)" "b' \<longleftrightarrow> (a, b) \<notin> held m"
    using ok_ins [OF Cons.prems, of a b] held_ins [OF Cons.prems, of a b] ins_changed [OF Cons.prems, of a b] by simp_all
  show ?case using Cons.IH [OF 1(1), of "c0 \<or> b'"] i 1 by (auto split: prod.splits)
qed simp

lemma remove_loop:
  assumes "ok m"
  shows "case fold (\<lambda>a (c, m). case del a b m of (b', m1) \<Rightarrow> (c \<or> b', m1)) as (c0, m) of
    (c, m') \<Rightarrow> ok m' \<and> held m' = held m - set as \<times> {b} \<and> (c \<longleftrightarrow> c0 \<or> held m' \<noteq> held m)"
  using assms
proof (induction as arbitrary: c0 m)
  case (Cons a as)
  obtain b' m1 where i: "del a b m = (b', m1)" by (rule prod.exhaust)
  then have 1: "ok m1" "held m1 = held m - {(a, b)}" "b' \<longleftrightarrow> (a, b) \<in> held m"
    using ok_del [OF Cons.prems, of a b] held_del [OF Cons.prems, of a b] del_changed [OF Cons.prems, of a b] by simp_all
  show ?case using Cons.IH [OF 1(1), of "c0 \<or> b'"] i 1 by (auto split: prod.splits)
qed simp

lemma insert_all:
  "ok m \<Longrightarrow> ok (fold (\<lambda>b m. snd (ins a b m)) bs m) \<and>
    held (fold (\<lambda>b m. snd (ins a b m)) bs m) = held m \<union> {a} \<times> set bs"
  by (induction bs arbitrary: m) (auto simp: ok_ins held_ins)

lemma insert_view:
  "ok m \<Longrightarrow> ok (fold (\<lambda>(a, bs) m. fold (\<lambda>b m. snd (ins a b m)) bs m) view m) \<and>
    held (fold (\<lambda>(a, bs) m. fold (\<lambda>b m. snd (ins a b m)) bs m) view m) =
      held m \<union> {(a, b). \<exists>bs. (a, bs) \<in> set view \<and> b \<in> set bs}"
proof (induction view arbitrary: m)
  case (Cons x view)
  obtain a bs where x: "x = (a, bs)" by (rule prod.exhaust)
  from insert_all [OF Cons.prems, of a bs] Cons.IH show ?case by (auto simp: x)
qed simp

end

section \<open>Views\<close>

definition held :: "membership \<Rightarrow> (string \<times> node_id) set" where
  "held m = {(s, n). n \<in> set (nodes_of m s)}"

definition view_ok :: "membership \<Rightarrow> bool" where
  "view_ok m \<longleftrightarrow> hm_ok (mb_by_key m) \<and> hm_ok (mb_by_node m) \<and>
     (\<forall>s n. n \<in> set (nodes_of m s) \<longleftrightarrow> s \<in> set (subjects_of m n)) \<and>
     (\<forall>s ns. map_of (mb_by_key m) s = Some ns \<longrightarrow> ns \<noteq> [] \<and> distinct ns) \<and>
     (\<forall>n ss. map_of (mb_by_node m) n = Some ss \<longrightarrow> ss \<noteq> [] \<and> distinct ss)"

lemma view_okD:
  assumes "view_ok m"
  shows "hm_ok (mb_by_key m)" "hm_ok (mb_by_node m)" "n \<in> set (nodes_of m s) \<longleftrightarrow> s \<in> set (subjects_of m n)"
    "\<forall>s ns. map_of (mb_by_key m) s = Some ns \<longrightarrow> ns \<noteq> [] \<and> distinct ns"
    "\<forall>n ss. map_of (mb_by_node m) n = Some ss \<longrightarrow> ss \<noteq> [] \<and> distinct ss"
  using assms unfolding view_ok_def by blast+

lemma view_ok_empty: "view_ok empty_membership"
  by (simp add: view_ok_def hm_ok_def)

lemma set_hs_insert [simp]: "set (hs_insert x xs) = insert x (set xs)"
  by (auto simp: hs_insert_def)

lemma distinct_hs_insert [simp]: "distinct (hs_insert x xs) = distinct xs"
  by (auto simp: hs_insert_def)

lemma hs_insert_not_Nil [simp]: "hs_insert x xs \<noteq> []"
  by (auto simp: hs_insert_def)

lemma distinct_entry: "\<forall>k xs. map_of m k = Some xs \<longrightarrow> xs \<noteq> [] \<and> distinct xs \<Longrightarrow> distinct (unwrap_or [] (map_of m k))"
  by (cases "map_of m k") auto

lemma insert_lookup:
  "nodes_of (snd (insert_subject_membership s n m)) s' = (if s' = s then hs_insert n (nodes_of m s) else nodes_of m s')"
  "subjects_of (snd (insert_subject_membership s n m)) n' = (if n' = n then hs_insert s (subjects_of m n) else subjects_of m n')"
  by (simp_all add: insert_subject_membership_def Let_def update_conv')

lemma insert_entry:
  assumes "\<forall>k xs. map_of m k = Some xs \<longrightarrow> xs \<noteq> [] \<and> distinct xs"
  shows "\<forall>k' xs. map_of (hm_insert k (hs_insert x (unwrap_or [] (map_of m k))) m) k' = Some xs \<longrightarrow> xs \<noteq> [] \<and> distinct xs"
  using assms distinct_entry [OF assms, of k] by (simp add: update_conv')

lemma insert_view_ok:
  assumes "view_ok m"
  shows "view_ok (snd (insert_subject_membership s n m))"
proof -
  let ?m = "snd (insert_subject_membership s n m)"
  note ok = view_okD [OF assms]
  have maps: "mb_by_key ?m = hm_insert s (hs_insert n (nodes_of m s)) (mb_by_key m)"
    "mb_by_node ?m = hm_insert n (hs_insert s (subjects_of m n)) (mb_by_node m)"
    by (simp_all add: insert_subject_membership_def Let_def)
  have e: "\<forall>k xs. map_of (mb_by_key ?m) k = Some xs \<longrightarrow> xs \<noteq> [] \<and> distinct xs"
    unfolding maps by (rule insert_entry) (rule ok)
  have f: "\<forall>k xs. map_of (mb_by_node ?m) k = Some xs \<longrightarrow> xs \<noteq> [] \<and> distinct xs"
    unfolding maps by (rule insert_entry) (rule ok)
  have inv: "n' \<in> set (nodes_of ?m s') \<longleftrightarrow> s' \<in> set (subjects_of ?m n')" for n' s'
    unfolding insert_lookup using ok(3) by simp
  have "hm_ok (mb_by_key ?m)" "hm_ok (mb_by_node ?m)" unfolding maps using ok(1,2) by simp_all
  then show ?thesis unfolding view_ok_def using e f inv by blast
qed

lemma held_insert: "held (snd (insert_subject_membership s n m)) = insert (s, n) (held m)"
  by (auto simp: held_def insert_lookup split: if_splits)

lemma remove_member_lookup:
  "unwrap_or [] (map_of (remove_member k x m) k') =
     (if k' = k then removeAll x (unwrap_or [] (map_of m k)) else unwrap_or [] (map_of m k'))"
  by (cases "map_of m k") (auto simp: remove_member_def delete_conv' update_conv')

lemma remove_member_ok [simp]: "hm_ok m \<Longrightarrow> hm_ok (remove_member k x m)"
  by (simp add: remove_member_def split: option.split)

lemma remove_member_entry:
  assumes "\<forall>k xs. map_of m k = Some xs \<longrightarrow> xs \<noteq> [] \<and> distinct xs"
  shows "\<forall>k' xs. map_of (remove_member k x m) k' = Some xs \<longrightarrow> xs \<noteq> [] \<and> distinct xs"
  using assms by (auto simp: remove_member_def delete_conv' update_conv' distinct_removeAll split: option.splits if_splits)

lemma remove_lookup:
  "nodes_of (snd (remove_subject_membership s n m)) s' = (if s' = s then removeAll n (nodes_of m s) else nodes_of m s')"
  "subjects_of (snd (remove_subject_membership s n m)) n' = (if n' = n then removeAll s (subjects_of m n) else subjects_of m n')"
  by (simp_all add: remove_subject_membership_def remove_member_lookup)

lemma remove_view_ok:
  assumes "view_ok m"
  shows "view_ok (snd (remove_subject_membership s n m))"
proof -
  let ?m = "snd (remove_subject_membership s n m)"
  note ok = view_okD [OF assms]
  have maps: "mb_by_key ?m = remove_member s n (mb_by_key m)" "mb_by_node ?m = remove_member n s (mb_by_node m)"
    by (simp_all add: remove_subject_membership_def)
  have e: "\<forall>k xs. map_of (mb_by_key ?m) k = Some xs \<longrightarrow> xs \<noteq> [] \<and> distinct xs"
    unfolding maps by (rule remove_member_entry) (rule ok)
  have f: "\<forall>k xs. map_of (mb_by_node ?m) k = Some xs \<longrightarrow> xs \<noteq> [] \<and> distinct xs"
    unfolding maps by (rule remove_member_entry) (rule ok)
  have inv: "n' \<in> set (nodes_of ?m s') \<longleftrightarrow> s' \<in> set (subjects_of ?m n')" for n' s'
    unfolding remove_lookup using ok(3) by auto
  have "hm_ok (mb_by_key ?m)" "hm_ok (mb_by_node ?m)" unfolding maps using ok(1,2) by simp_all
  then show ?thesis unfolding view_ok_def using e f inv by blast
qed

lemma held_remove: "held (snd (remove_subject_membership s n m)) = held m - {(s, n)}"
  by (auto simp: held_def remove_lookup split: if_splits)

interpretation view: relation_index view_ok held insert_subject_membership remove_subject_membership
proof
  fix m a b assume ok: "view_ok m"
  show "view_ok (snd (insert_subject_membership a b m))" using insert_view_ok [OF ok] .
  show "view_ok (snd (remove_subject_membership a b m))" using remove_view_ok [OF ok] .
  show "fst (insert_subject_membership a b m) \<longleftrightarrow> (a, b) \<notin> held m"
    using view_okD(3) [OF ok] by (simp add: insert_subject_membership_def Let_def held_def)
  show "fst (remove_subject_membership a b m) \<longleftrightarrow> (a, b) \<in> held m"
    by (auto simp: remove_subject_membership_def held_def split: option.split)
qed (rule held_insert held_remove)+

lemma remove_members_loop:
  assumes "\<forall>k xs. map_of m k = Some xs \<longrightarrow> xs \<noteq> [] \<and> distinct xs" "hm_ok m"
  shows "hm_ok (fold (\<lambda>k. remove_member k x) ks m) \<and>
    (\<forall>k xs. map_of (fold (\<lambda>k. remove_member k x) ks m) k = Some xs \<longrightarrow> xs \<noteq> [] \<and> distinct xs) \<and>
    (\<forall>k. set (unwrap_or [] (map_of (fold (\<lambda>k. remove_member k x) ks m) k)) =
       (if k \<in> set ks then set (unwrap_or [] (map_of m k)) - {x} else set (unwrap_or [] (map_of m k))))"
  using assms
proof (induction ks arbitrary: m)
  case (Cons k ks)
  from Cons.IH [OF remove_member_entry [OF Cons.prems(1), of k x] remove_member_ok [OF Cons.prems(2)]]
  show ?case by (auto simp: remove_member_lookup)
qed simp

lemma remove_node_view:
  assumes "view_ok m"
  shows "view_ok (remove_node_membership n m)" "held (remove_node_membership n m) = {(s, k) \<in> held m. k \<noteq> n}"
proof -
  have "view_ok (remove_node_membership n m) \<and> held (remove_node_membership n m) = {(s, k) \<in> held m. k \<noteq> n}"
  proof (cases "map_of (mb_by_node m) n")
    case None
    then have "n \<notin> set (nodes_of m s)" for s using view_okD(3) [OF assms, of n s] by simp
    then show ?thesis using None assms by (auto simp: remove_node_membership_def held_def)
  next
    case (Some ss)
    let ?k = "fold (\<lambda>subject. remove_member subject n) ss (mb_by_key m)"
    note ok = view_okD [OF assms]
    have ss: "s \<in> set ss \<longleftrightarrow> n \<in> set (nodes_of m s)" for s using ok(3) [of n s] Some by simp
    have loop: "hm_ok ?k" "\<forall>k xs. map_of ?k k = Some xs \<longrightarrow> xs \<noteq> [] \<and> distinct xs"
        "\<And>s. set (unwrap_or [] (map_of ?k s)) = set (nodes_of m s) - {n}"
      using remove_members_loop [OF ok(4,1), of n ss] ss by (blast, blast, auto)
    have eq: "remove_node_membership n m = \<lparr>mb_by_key = ?k, mb_by_node = hm_remove n (mb_by_node m)\<rparr>"
      using Some by (simp add: remove_node_membership_def)
    have inv: "k \<in> set (unwrap_or [] (map_of ?k s)) \<longleftrightarrow> s \<in> set (unwrap_or [] (map_of (hm_remove n (mb_by_node m)) k))" for k s
      using loop(3) [of s] ok(3) [of k s] by (simp add: delete_conv')
    have "\<forall>k xs. map_of (hm_remove n (mb_by_node m)) k = Some xs \<longrightarrow> xs \<noteq> [] \<and> distinct xs"
      using ok(5) by (simp add: delete_conv')
    moreover have "hm_ok (hm_remove n (mb_by_node m))" using ok(2) by simp
    ultimately have "view_ok (remove_node_membership n m)"
      unfolding eq view_ok_def membership.simps using loop(1,2) inv by blast
    moreover have "held (remove_node_membership n m) = {(s, k) \<in> held m. k \<noteq> n}"
      unfolding eq held_def membership.simps loop(3) by auto
    ultimately show ?thesis by blast
  qed
  then show "view_ok (remove_node_membership n m)" "held (remove_node_membership n m) = {(s, k) \<in> held m. k \<noteq> n}"
    by simp_all
qed

end
