(* ===== verification/Cluster_Properties.thy ===== *)
theory Cluster_Properties
  imports Cluster_Views
begin

text \<open>
  Properties of the cluster view: the invariant of every reachable view, what reconciling a node
  does, the round trip of the durable views, placement, the replication plan, quorum and health.
\<close>

section \<open>The invariant\<close>

definition nodes_ok :: "(node_id, node_descriptor) hashmap \<Rightarrow> bool" where
  "nodes_ok nodes \<longleftrightarrow> hm_ok nodes \<and> (\<forall>n d. map_of nodes n = Some d \<longrightarrow> nd_node_id d = n)"

definition cluster_ok :: "cluster \<Rightarrow> bool" where
  "cluster_ok c \<longleftrightarrow> nodes_ok (cl_nodes c) \<and> view_ok (cl_replicas c) \<and> view_ok (cl_available c)"

lemma nodes_ok_insert: "nodes_ok nodes \<Longrightarrow> nd_node_id d = n \<Longrightarrow> nodes_ok (hm_insert n d nodes)"
  by (auto simp: nodes_ok_def update_conv' split: if_splits)

lemma nodes_ok_remove: "nodes_ok nodes \<Longrightarrow> nodes_ok (hm_remove n nodes)"
  by (auto simp: nodes_ok_def delete_conv' split: if_splits)

lemma nodes_ok_map: "nodes_ok nodes \<Longrightarrow> (\<And>d. nd_node_id (f d) = nd_node_id d) \<Longrightarrow> nodes_ok (hm_map_values f nodes)"
  by (auto simp: nodes_ok_def)

lemma refresh_health_id [simp]: "nd_node_id (snd (refresh_health now c d)) = nd_node_id d"
  by (simp add: refresh_health_def)

lemma remove_subjects_view:
  assumes "view_ok m" "remove_subjects ss n (c0, m) = (c, m')"
  shows "view_ok m' \<and> held m' = held m - set ss \<times> {n} \<and> (c \<longleftrightarrow> c0 \<or> held m' \<noteq> held m)"
  using view.remove_loop [OF assms(1), of ss n c0] assms(2) by (simp add: remove_subjects_def)

lemma insert_subjects_view:
  assumes "view_ok m" "insert_subjects ss n (c0, m) = (c, m')"
  shows "view_ok m' \<and> held m' = held m \<union> set ss \<times> {n} \<and> (c \<longleftrightarrow> c0 \<or> held m' \<noteq> held m)"
  using view.insert_loop [OF assms(1), of ss n c0] assms(2) by (simp add: insert_subjects_def)

lemma held_node: "view_ok m \<Longrightarrow> s \<in> set (subjects_of m n) \<longleftrightarrow> (s, n) \<in> held m"
  using view_okD(3) by (auto simp: held_def)

lemma replace_view:
  assumes "view_ok (cl_available c)" "replace_node_available_view n ss c = (b, c')"
  shows "view_ok (cl_available c')" "cl_replicas c' = cl_replicas c" "cl_nodes c' = cl_nodes c"
    "held (cl_available c') = {(s, k) \<in> held (cl_available c). k \<noteq> n} \<union> set ss \<times> {n}"
    "b \<longleftrightarrow> held (cl_available c') \<noteq> held (cl_available c)"
proof -
  let ?cur = "subjects_of (cl_available c) n"
  note node = held_node [OF assms(1), of _ n]
  have "view_ok (cl_available c') \<and> cl_replicas c' = cl_replicas c \<and> cl_nodes c' = cl_nodes c \<and>
    held (cl_available c') = {(s, k) \<in> held (cl_available c). k \<noteq> n} \<union> set ss \<times> {n} \<and>
    (b \<longleftrightarrow> held (cl_available c') \<noteq> held (cl_available c))"
  proof (cases "set ?cur = set ss")
    case True
    then have "c' = c" "\<not> b" using assms(2) by (simp_all add: replace_node_available_view_def Let_def)
    moreover have "held (cl_available c) = {(s, k) \<in> held (cl_available c). k \<noteq> n} \<union> set ss \<times> {n}"
      using node True by auto
    ultimately show ?thesis using assms(1) by simp
  next
    case False
    let ?rm = "filter (\<lambda>s. s \<notin> set ss) ?cur" and ?add = "filter (\<lambda>s. s \<notin> set ?cur) (remdups ss)"
    obtain b1 m1 where 1: "remove_subjects ?rm n (False, cl_available c) = (b1, m1)" by (rule prod.exhaust)
    obtain b2 m2 where 2: "insert_subjects ?add n (b1, m1) = (b2, m2)" by (rule prod.exhaust)
    have c': "c' = c\<lparr>cl_available := m2\<rparr>" "b = b2"
      using False assms(2) 1 2 by (simp_all add: replace_node_available_view_def Let_def)
    note r1 = remove_subjects_view [OF assms(1) 1]
    note r2 = insert_subjects_view [OF conjunct1 [OF r1] 2]
    have h2: "held m2 = {(s, k) \<in> held (cl_available c). k \<noteq> n} \<union> set ss \<times> {n}" using r1 r2 node by auto
    from False obtain s where "(s \<in> set ?cur) \<noteq> (s \<in> set ss)" by blast
    then have ne: "held m2 \<noteq> held (cl_available c)" using h2 node by blast
    then have b2 using r1 r2 by auto
    then show ?thesis using c' h2 r2 ne by simp
  qed
  then show "view_ok (cl_available c')" "cl_replicas c' = cl_replicas c" "cl_nodes c' = cl_nodes c"
    "held (cl_available c') = {(s, k) \<in> held (cl_available c). k \<noteq> n} \<union> set ss \<times> {n}"
    "b \<longleftrightarrow> held (cl_available c') \<noteq> held (cl_available c)" by simp_all
qed

definition preserved_claim :: "string list \<Rightarrow> string \<Rightarrow> bool" where
  "preserved_claim ss s \<longleftrightarrow> is_versioned_replication_subject s \<and> replication_placement_key s \<in> replication_placement_key ` set ss"

lemma reconcile_views:
  assumes "view_ok (cl_available c)" "view_ok (cl_replicas c)" "reconcile_node_subjects n ss c = (b, c')"
  shows "view_ok (cl_available c')" "view_ok (cl_replicas c')" "cl_nodes c' = cl_nodes c"
    "held (cl_available c') = {(s, k) \<in> held (cl_available c). k \<noteq> n} \<union> set ss \<times> {n}"
    "held (cl_replicas c') = {(s, k) \<in> held (cl_replicas c). k \<noteq> n \<or> preserved_claim ss s} \<union> set ss \<times> {n}"
proof -
  obtain b1 c1 where 1: "replace_node_available_view n ss c = (b1, c1)" by (rule prod.exhaust)
  note r1 = replace_view [OF assms(1) 1]
  let ?rm = "filter (\<lambda>s. s \<notin> set ss \<and> \<not> (is_versioned_replication_subject s \<and>
      replication_placement_key s \<in> replication_placement_key ` set ss)) (subjects_of (cl_replicas c) n)"
  obtain b2 m2 where 2: "remove_subjects ?rm n (b1, cl_replicas c1) = (b2, m2)" by (rule prod.exhaust)
  obtain b3 m3 where 3: "insert_subjects (remdups ss) n (b2, m2) = (b3, m3)" by (rule prod.exhaust)
  have c': "c' = c1\<lparr>cl_replicas := m3\<rparr>"
    using assms(3) 1 2 3 by (simp add: reconcile_node_subjects_def Let_def)
  have ok1: "view_ok (cl_replicas c1)" using assms(2) r1(2) by simp
  note r2 = remove_subjects_view [OF ok1 2]
  note r3 = insert_subjects_view [OF conjunct1 [OF r2] 3]
  show "view_ok (cl_available c')" "view_ok (cl_replicas c')" "cl_nodes c' = cl_nodes c"
    "held (cl_available c') = {(s, k) \<in> held (cl_available c). k \<noteq> n} \<union> set ss \<times> {n}"
    using c' r1 r3 by simp_all
  have "s \<in> set (subjects_of (cl_replicas c) n) \<longleftrightarrow> (s, n) \<in> held (cl_replicas c)" for s
    by (rule held_node [OF assms(2)])
  then show "held (cl_replicas c') = {(s, k) \<in> held (cl_replicas c). k \<noteq> n \<or> preserved_claim ss s} \<union> set ss \<times> {n}"
    using c' r2 r3 r1(2) by (auto simp: preserved_claim_def)
qed

lemma import_view_held:
  "view_ok (import_view view)" "held (import_view view) = {(s, n). \<exists>ns. (s, ns) \<in> set view \<and> n \<in> set ns}"
  using view.insert_view [OF view_ok_empty, of view] by (simp_all add: import_view_def held_def)


section \<open>Steps\<close>

inductive cluster_step :: "cluster \<Rightarrow> cluster \<Rightarrow> bool" where
  register: "cluster_step c (snd (register_node now d c))"
| import_nodes: "cluster_step c (import_nodes ds c)"
| remove_node: "cluster_step c (snd (remove_node n c))"
| heartbeat: "cluster_step c (snd (touch_heartbeat now n free capacity stats labels version c))"
| storage: "cluster_step c (snd (update_node_storage n free' capacity' stats c))"
| storage_stats: "cluster_step c (snd (update_node_storage_stats n new_stats c))"
| health: "cluster_step c (snd (update_health_and_detect_offline_transition now c))"
| note_replica: "cluster_step c (snd (note_replica key n c))"
| replace: "cluster_step c (snd (replace_node_available_view n ss c))"
| reconcile: "cluster_step c (snd (reconcile_node_subjects n ss c))"
| import_views: "cluster_step c (import_replica_views rs avs c)"
| remove_replica: "cluster_step c (remove_replica key n c)"
| remove_available: "cluster_step c (remove_available key n c)"

lemma nodes_ok_id: "nodes_ok nodes \<Longrightarrow> map_of nodes n = Some d \<Longrightarrow> nd_node_id d = n"
  unfolding nodes_ok_def by blast

lemma register_ok: "nodes_ok (cl_nodes c) \<Longrightarrow> nodes_ok (cl_nodes (snd (register_node now d c)))"
  by (simp add: register_node_def Let_def nodes_ok_insert)

lemma import_nodes_ok:
  "nodes_ok (cl_nodes c) \<Longrightarrow> nodes_ok (cl_nodes (import_nodes ds c)) \<and>
     cl_replicas (import_nodes ds c) = cl_replicas c \<and> cl_available (import_nodes ds c) = cl_available c"
proof (induction ds arbitrary: c)
  case (Cons d ds)
  let ?d = "if nd_node_id d \<noteq> cl_local_node c then d\<lparr>nd_status := Offline\<rparr> else d"
  let ?c = "c\<lparr>cl_nodes := hm_insert (nd_node_id ?d) ?d (cl_nodes c)\<rparr>"
  have "import_nodes (d # ds) c = import_nodes ds ?c" by (simp add: import_nodes_def Let_def)
  moreover have "nodes_ok (cl_nodes ?c)" using nodes_ok_insert [OF Cons.prems, of ?d] by simp
  ultimately show ?case using Cons.IH [of ?c] by simp
qed (simp add: import_nodes_def)

lemma touch_ok: "nodes_ok (cl_nodes c) \<Longrightarrow> nodes_ok (cl_nodes (snd (touch_heartbeat now n f cap st l v c)))"
  by (cases "map_of (cl_nodes c) n") (simp_all add: touch_heartbeat_def nodes_ok_insert nodes_ok_id)

lemma storage_ok: "nodes_ok (cl_nodes c) \<Longrightarrow> nodes_ok (cl_nodes (snd (update_node_storage n f cap st c)))"
  by (cases "map_of (cl_nodes c) n") (simp_all add: update_node_storage_def nodes_ok_insert nodes_ok_id)

lemma storage_stats_ok: "nodes_ok (cl_nodes c) \<Longrightarrow> nodes_ok (cl_nodes (snd (update_node_storage_stats n st c)))"
  by (cases "map_of (cl_nodes c) n") (simp_all add: update_node_storage_stats_def nodes_ok_insert nodes_ok_id)

lemma cluster_frame [simp]:
  "cl_replicas (snd (register_node now d c)) = cl_replicas c" "cl_available (snd (register_node now d c)) = cl_available c"
  "cl_replicas (snd (touch_heartbeat now n f cap st l v c)) = cl_replicas c"
  "cl_available (snd (touch_heartbeat now n f cap st l v c)) = cl_available c"
  "cl_replicas (snd (update_node_storage n f' cap' st c)) = cl_replicas c"
  "cl_available (snd (update_node_storage n f' cap' st c)) = cl_available c"
  "cl_replicas (snd (update_node_storage_stats n st' c)) = cl_replicas c"
  "cl_available (snd (update_node_storage_stats n st' c)) = cl_available c"
  by (simp_all add: register_node_def touch_heartbeat_def update_node_storage_def update_node_storage_stats_def Let_def
      split: option.split)

lemma cluster_okD: "cluster_ok c \<Longrightarrow> nodes_ok (cl_nodes c)" "cluster_ok c \<Longrightarrow> view_ok (cl_replicas c)"
  "cluster_ok c \<Longrightarrow> view_ok (cl_available c)"
  by (simp_all add: cluster_ok_def)

lemma cluster_step_ok:
  assumes ok: "cluster_ok c" and step: "cluster_step c c'"
  shows "cluster_ok c'"
  using step
proof (cases rule: cluster_step.cases)
  case (register now d)
  then show ?thesis using register_ok [OF cluster_okD(1) [OF ok]] cluster_okD [OF ok] by (simp add: cluster_ok_def)
next
  case (import_nodes ds)
  then show ?thesis using import_nodes_ok [OF cluster_okD(1) [OF ok]] cluster_okD [OF ok] by (simp add: cluster_ok_def)
next
  case (remove_node n)
  then show ?thesis
    using nodes_ok_remove [OF cluster_okD(1) [OF ok]] remove_node_view(1) [OF cluster_okD(2) [OF ok]]
      remove_node_view(1) [OF cluster_okD(3) [OF ok]] ok by (simp add: cluster_ok_def remove_node_def)
next
  case (heartbeat now n free capacity stats labels version)
  then show ?thesis using touch_ok [OF cluster_okD(1) [OF ok]] cluster_okD [OF ok] by (simp add: cluster_ok_def)
next
  case (storage n free capacity stats)
  then show ?thesis using storage_ok [OF cluster_okD(1) [OF ok]] cluster_okD [OF ok] by (simp add: cluster_ok_def)
next
  case (storage_stats n stats)
  then show ?thesis using storage_stats_ok [OF cluster_okD(1) [OF ok]] cluster_okD [OF ok] by (simp add: cluster_ok_def)
next
  case (health now)
  then show ?thesis
    using nodes_ok_map [OF cluster_okD(1) [OF ok], of "\<lambda>d. snd (refresh_health now c d)"] cluster_okD [OF ok]
    by (simp add: cluster_ok_def update_health_and_detect_offline_transition_def)
next
  case (note_replica key n)
  then show ?thesis
    using insert_view_ok [OF cluster_okD(2) [OF ok], of key n] insert_view_ok [OF cluster_okD(3) [OF ok], of key n]
      cluster_okD(1) [OF ok] by (simp add: cluster_ok_def note_replica_def case_prod_unfold)
next
  case (replace n ss)
  obtain b c1 where r: "replace_node_available_view n ss c = (b, c1)" by (rule prod.exhaust)
  from replace_view(1-3) [OF cluster_okD(3) [OF ok] r] show ?thesis
    using cluster_okD [OF ok] replace r by (simp add: cluster_ok_def)
next
  case (reconcile n ss)
  obtain b c1 where r: "reconcile_node_subjects n ss c = (b, c1)" by (rule prod.exhaust)
  from reconcile_views(1-3) [OF cluster_okD(3,2) [OF ok] r] show ?thesis
    using cluster_okD [OF ok] reconcile r by (simp add: cluster_ok_def)
next
  case (import_views rs avs)
  then show ?thesis using cluster_okD(1) [OF ok] by (simp add: cluster_ok_def import_replica_views_def import_view_held)
next
  case (remove_replica key n)
  then show ?thesis using cluster_okD [OF ok] by (simp add: cluster_ok_def remove_replica_def remove_view_ok)
next
  case (remove_available key n)
  then show ?thesis using cluster_okD [OF ok] by (simp add: cluster_ok_def remove_available_def remove_view_ok)
qed

interpretation cluster: step_system "\<lambda>c. \<exists>n p t. c = new_cluster n p t" cluster_step cluster_ok
proof
  fix c assume "\<exists>n p t. c = new_cluster n p t"
  then show "cluster_ok c" by (auto simp: new_cluster_def cluster_ok_def nodes_ok_def hm_ok_def view_ok_empty)
qed (rule cluster_step_ok)

section \<open>Placement\<close>

lemma ranked_set:
  assumes "nodes_ok nodes"
  shows "set (ranked_nodes score key nodes eligible) = {n. \<exists>d. map_of nodes n = Some d \<and> eligible d}"
    "distinct (ranked_nodes score key nodes eligible)"
proof -
  have ok: "hm_ok nodes" and id: "\<And>n d. map_of nodes n = Some d \<Longrightarrow> nd_node_id d = n"
    using assms by (auto simp: nodes_ok_def)
  have "set (ranked_nodes score key nodes eligible) = nd_node_id ` {d \<in> set (hm_values nodes). eligible d}"
    by (force simp: ranked_nodes_def)
  also have "\<dots> = {n. \<exists>d. map_of nodes n = Some d \<and> eligible d}"
  proof (intro set_eqI iffI)
    fix n assume "n \<in> nd_node_id ` {d \<in> set (hm_values nodes). eligible d}"
    then obtain d where d: "n = nd_node_id d" "d \<in> set (hm_values nodes)" "eligible d" by blast
    then obtain k where "map_of nodes k = Some d" using hm_value_iff [OF ok] by blast
    then show "n \<in> {n. \<exists>d. map_of nodes n = Some d \<and> eligible d}" using id d by blast
  next
    fix n assume "n \<in> {n. \<exists>d. map_of nodes n = Some d \<and> eligible d}"
    then obtain d where d: "map_of nodes n = Some d" "eligible d" by blast
    then have "d \<in> set (hm_values nodes)" using hm_value_iff [OF ok] by blast
    then show "n \<in> nd_node_id ` {d \<in> set (hm_values nodes). eligible d}" using id [OF d(1)] d(2) by blast
  qed
  finally show "set (ranked_nodes score key nodes eligible) = {n. \<exists>d. map_of nodes n = Some d \<and> eligible d}" .
  have "map nd_node_id (hm_values nodes) = hm_keys nodes"
    using id map_of_is_SomeI [OF ok [unfolded hm_ok_def]] by (auto intro!: map_cong)
  then have "distinct (map nd_node_id (filter eligible (hm_values nodes)))"
    using ok by (metis distinct_map_filter hm_ok_def)
  then have "distinct (map fst (map (\<lambda>d. (nd_node_id d, score key (nd_node_id d))) (filter eligible (hm_values nodes))))"
    by (simp add: comp_def)
  moreover have "mset (map fst (sort_desc snd xs)) = mset (map fst xs)" for xs :: "(node_id \<times> nat) list"
    by (simp add: sort_desc_def)
  ultimately show "distinct (ranked_nodes score key nodes eligible)"
    unfolding ranked_nodes_def by (metis mset_eq_imp_distinct_iff)
qed

lemma select_diverse_extends:
  "\<exists>xs. select_diverse policy nodes ranked selected seen = selected @ xs \<and> subseq xs ranked \<and>
     length xs \<le> rp_replication_factor policy - length selected"
proof (induction policy nodes ranked selected seen rule: select_diverse.induct)
  case (2 policy nodes n ranked selected seen)
  show ?case
  proof (cases "rp_replication_factor policy \<le> length selected")
    case True
    then show ?thesis by simp
  next
    case False
    show ?thesis
    proof (cases "map_of nodes n")
      case None
      then show ?thesis using "2.IH"(1) [OF False None] False by auto
    next
      case (Some d)
      show ?thesis
      proof (cases "helps_constraint policy seen d \<or> length selected < length (rp_min_distinct_labels policy)")
        case True
        from "2.IH"(2) [OF False Some True] obtain xs where
          "select_diverse policy nodes ranked (selected @ [n]) (note_labels policy d seen) = (selected @ [n]) @ xs"
          "subseq xs ranked" "length xs \<le> rp_replication_factor policy - length (selected @ [n])" by blast
        then show ?thesis using False Some True by (intro exI [of _ "n # xs"]) auto
      next
        case no: False
        then show ?thesis using "2.IH"(3) [OF False Some no] False Some by auto
      qed
    qed
  qed
qed simp

lemma fill_selection_props:
  assumes "distinct selected" "length selected \<le> factor"
  shows "distinct (fill_selection factor ranked selected)"
    "set selected \<subseteq> set (fill_selection factor ranked selected)"
    "set (fill_selection factor ranked selected) \<subseteq> set selected \<union> set ranked"
    "length (fill_selection factor ranked selected) = min factor (card (set selected \<union> set ranked))"
proof -
  have "distinct (fill_selection factor ranked selected) \<and> set selected \<subseteq> set (fill_selection factor ranked selected) \<and>
    set (fill_selection factor ranked selected) \<subseteq> set selected \<union> set ranked \<and>
    length (fill_selection factor ranked selected) = min factor (card (set selected \<union> set ranked))"
    using assms
  proof (induction ranked arbitrary: selected)
    case Nil
    then show ?case by (simp add: distinct_card)
  next
    case (Cons n ranked)
    show ?case
    proof (cases "factor \<le> length selected")
      case True
      have "card (set selected) \<le> card (set selected \<union> set (n # ranked))" by (rule card_mono) auto
      then show ?thesis using True Cons.prems by (auto simp: distinct_card)
    next
      case False
      let ?sel = "if n \<in> set selected then selected else selected @ [n]"
      have "distinct ?sel" "length ?sel \<le> factor" using Cons.prems(1) False by auto
      from Cons.IH [OF this] show ?thesis using False by (auto simp: insert_absorb)
    qed
  qed
  then show "distinct (fill_selection factor ranked selected)"
    "set selected \<subseteq> set (fill_selection factor ranked selected)"
    "set (fill_selection factor ranked selected) \<subseteq> set selected \<union> set ranked"
    "length (fill_selection factor ranked selected) = min factor (card (set selected \<union> set ranked))" by blast+
qed


abbreviation eligible_ids :: "(node_id, node_descriptor) hashmap \<Rightarrow> (node_descriptor \<Rightarrow> bool) \<Rightarrow> node_id set" where
  "eligible_ids nodes eligible \<equiv> {n. \<exists>d. map_of nodes n = Some d \<and> eligible d}"

lemma distinct_subseq: "subseq xs ys \<Longrightarrow> distinct ys \<Longrightarrow> distinct xs"
proof (induction rule: list_emb.induct)
  case (list_emb_Cons2 x y xs ys)
  then show ?case using list_emb_set [OF list_emb_Cons2.hyps(2)] by auto
qed auto

lemma subseq_set_subset: "subseq xs ys \<Longrightarrow> set xs \<subseteq> set ys"
  by (auto dest: list_emb_set)

lemma diverse_selection:
  assumes "nodes_ok nodes"
  shows "distinct (select_diverse policy nodes (ranked_nodes score key nodes eligible) [] [])"
    "set (select_diverse policy nodes (ranked_nodes score key nodes eligible) [] []) \<subseteq> eligible_ids nodes eligible"
    "length (select_diverse policy nodes (ranked_nodes score key nodes eligible) [] []) \<le> rp_replication_factor policy"
proof -
  let ?ranked = "ranked_nodes score key nodes eligible"
  obtain xs where xs: "select_diverse policy nodes ?ranked [] [] = xs" "subseq xs ?ranked"
      "length xs \<le> rp_replication_factor policy"
    using select_diverse_extends [of policy nodes ?ranked "[]" "[]"] by auto
  show "distinct (select_diverse policy nodes ?ranked [] [])"
    using xs(1,2) ranked_set(2) [OF assms, of score key eligible] by (metis distinct_subseq)
  show "set (select_diverse policy nodes ?ranked [] []) \<subseteq> eligible_ids nodes eligible"
    unfolding xs(1) using subseq_set_subset [OF xs(2)] ranked_set(1) [OF assms, of score key eligible] by simp
  show "length (select_diverse policy nodes ?ranked [] []) \<le> rp_replication_factor policy" using xs by simp
qed

lemma selection_facts:
  assumes "nodes_ok nodes" and sel_def: "sel = select_nodes_by_rendezvous_matching score key nodes policy eligible"
  shows "distinct sel" "set sel \<subseteq> eligible_ids nodes eligible"
    "length sel = min (rp_replication_factor policy) (card (eligible_ids nodes eligible))"
    "set (select_diverse policy nodes (ranked_nodes score key nodes eligible) [] []) \<subseteq> set sel"
proof -
  let ?ranked = "ranked_nodes score key nodes eligible"
  define d where "d = select_diverse policy nodes ?ranked [] []"
  note div = diverse_selection [OF assms(1), of policy score key eligible, folded d_def]
  have ranked: "set ?ranked = eligible_ids nodes eligible" by (rule ranked_set [OF assms(1)])
  have un: "set d \<union> set ?ranked = eligible_ids nodes eligible"
    unfolding ranked [symmetric] using div(2) unfolding ranked [symmetric] by (rule Un_absorb1)
  have "finite (eligible_ids nodes eligible)" unfolding ranked [symmetric] by (rule finite_set)
  from card_mono [OF this div(2)] have le: "length d \<le> card (eligible_ids nodes eligible)"
    using div(1) by (simp add: distinct_card)
  note fill = fill_selection_props [OF div(1,3), of ?ranked, unfolded un]
  have sel: "sel = (if length d < rp_replication_factor policy
      then fill_selection (rp_replication_factor policy) ?ranked d else d)"
    by (simp add: sel_def select_nodes_by_rendezvous_matching_def Let_def d_def)
  show "distinct sel" unfolding sel using fill(1) div(1) by simp
  show "set sel \<subseteq> eligible_ids nodes eligible" using fill(3) div(2) unfolding sel by presburger
  show "length sel = min (rp_replication_factor policy) (card (eligible_ids nodes eligible))"
    unfolding sel using fill(4) le div(3) by (simp add: min_def)
  show "set (select_diverse policy nodes ?ranked [] []) \<subseteq> set sel"
    using sel fill(2) by (simp add: d_def)
qed

section \<open>Label diversity\<close>

abbreviation node_label :: "(node_id, node_descriptor) hashmap \<Rightarrow> string \<Rightarrow> node_id \<Rightarrow> string" where
  "node_label nodes label n \<equiv> label_value (the (map_of nodes n)) label"

abbreviation seen_of :: "(string, string list) hashmap \<Rightarrow> string \<Rightarrow> string list" where
  "seen_of seen label \<equiv> unwrap_or [] (map_of seen label)"

lemma note_labels_lookup:
  "seen_of (fold (\<lambda>label seen. hm_insert label (hs_insert (label_value d label) (seen_of seen label)) seen) ls seen) label =
     (if label \<in> set ls \<and> distinct ls then hs_insert (label_value d label) (seen_of seen label)
      else if label \<notin> set ls then seen_of seen label
      else seen_of (fold (\<lambda>label seen. hm_insert label (hs_insert (label_value d label) (seen_of seen label)) seen) ls seen) label)"
proof (induction ls arbitrary: seen)
  case (Cons l ls)
  show ?case
    using Cons.IH [of "hm_insert l (hs_insert (label_value d l) (seen_of seen l)) seen"] by (auto simp: update_conv')
qed simp

lemma note_labels_seen:
  assumes "hm_ok (rp_min_distinct_labels policy)" "label \<in> fst ` set (rp_min_distinct_labels policy)"
  shows "seen_of (note_labels policy d seen) label = hs_insert (label_value d label) (seen_of seen label)"
  using note_labels_lookup [of d "hm_keys (rp_min_distinct_labels policy)" seen label] assms
  by (simp add: note_labels_def hm_ok_def)

text \<open>How much of the constraints is met.\<close>

definition met :: "replication_policy \<Rightarrow> (string, string list) hashmap \<Rightarrow> nat" where
  "met policy seen = sum_list (map (\<lambda>(label, k). min (length (seen_of seen label)) (max 1 k)) (rp_min_distinct_labels policy))"

text \<open>What the constraints ask for, a label without a required number counting as one.\<close>

definition required :: "replication_policy \<Rightarrow> nat" where
  "required policy = sum_list (map (\<lambda>(label, k). max 1 k) (rp_min_distinct_labels policy))"

lemma hs_insert_length: "length xs \<le> length (hs_insert x xs)" "x \<notin> set xs \<Longrightarrow> length (hs_insert x xs) = Suc (length xs)"
  by (auto simp: hs_insert_def)

lemma met_mono:
  assumes "hm_ok (rp_min_distinct_labels policy)"
  shows "met policy seen \<le> met policy (note_labels policy d seen)"
    "helps_constraint policy seen d \<Longrightarrow> met policy seen < met policy (note_labels policy d seen)"
proof -
  let ?f = "\<lambda>seen (label, k). min (length (seen_of seen label)) (max 1 k)"
  have le: "?f seen x \<le> ?f (note_labels policy d seen) x" if "x \<in> set (rp_min_distinct_labels policy)" for x
  proof -
    obtain l k where x: "x = (l, k)" by (rule prod.exhaust)
    then have "l \<in> fst ` set (rp_min_distinct_labels policy)" using that by force
    from note_labels_seen [OF assms this, of d seen] hs_insert_length(1) [of "seen_of seen l" "label_value d l"]
    show ?thesis by (simp add: x min.coboundedI1)
  qed
  then show "met policy seen \<le> met policy (note_labels policy d seen)"
    unfolding met_def by (intro sum_list_mono)
  assume "helps_constraint policy seen d"
  then obtain l k where lk: "(l, k) \<in> set (rp_min_distinct_labels policy)" "length (seen_of seen l) < k"
      "label_value d l \<notin> set (seen_of seen l)"
    by (auto simp: helps_constraint_def list_ex_iff)
  then have less: "?f seen (l, k) < ?f (note_labels policy d seen) (l, k)"
  proof -
    have "l \<in> fst ` set (rp_min_distinct_labels policy)" using lk(1) by force
    from note_labels_seen [OF assms this, of d seen] hs_insert_length(2) [OF lk(3)] lk(2) show ?thesis by simp
  qed
  obtain as bs where ab: "rp_min_distinct_labels policy = as @ (l, k) # bs" using lk(1) by (meson split_list)
  have "sum_list (map (?f seen) as) \<le> sum_list (map (?f (note_labels policy d seen)) as)"
    "sum_list (map (?f seen) bs) \<le> sum_list (map (?f (note_labels policy d seen)) bs)"
    by (rule sum_list_mono, rule le, simp add: ab)+
  then show "met policy seen < met policy (note_labels policy d seen)"
    using less unfolding met_def ab map_append list.map sum_list.append sum_list.Cons prod.case by linarith
qed

lemma met_noted:
  assumes "hm_ok (rp_min_distinct_labels policy)"
  shows "length (rp_min_distinct_labels policy) \<le> met policy (note_labels policy d seen)"
proof -
  let ?ls = "rp_min_distinct_labels policy" and ?seen = "note_labels policy d seen"
  have "(\<lambda>x. 1) x \<le> (\<lambda>(label, k). min (length (seen_of ?seen label)) (max 1 k)) x" if "x \<in> set ?ls" for x
  proof -
    have "fst x \<in> fst ` set ?ls" using that by simp
    from note_labels_seen [OF assms this, of d seen] have "length (seen_of ?seen (fst x)) \<ge> 1"
      by (simp add: hs_insert_def Suc_le_eq) force
    then show ?thesis by (simp add: case_prod_unfold)
  qed
  from sum_list_mono [OF this] show ?thesis by (simp add: met_def sum_list_triv)
qed

lemma met_full:
  assumes "required policy \<le> met policy seen" "(l, k) \<in> set (rp_min_distinct_labels policy)"
  shows "k \<le> length (seen_of seen l)"
proof (rule ccontr)
  assume less: "\<not> k \<le> length (seen_of seen l)"
  obtain as bs where ab: "rp_min_distinct_labels policy = as @ (l, k) # bs" using assms(2) by (meson split_list)
  have "sum_list (map (\<lambda>(label, k). min (length (seen_of seen label)) (max 1 k)) xs) \<le> sum_list (map (\<lambda>(label, k). max 1 k) xs)" for xs
    by (rule sum_list_mono) (simp add: case_prod_unfold)
  from this [of as] this [of bs] assms(1) less show False
    unfolding met_def required_def ab map_append list.map sum_list.append sum_list.Cons prod.case by linarith
qed

definition seen_ok :: "replication_policy \<Rightarrow> (node_id, node_descriptor) hashmap \<Rightarrow> node_id list \<Rightarrow> (string, string list) hashmap \<Rightarrow> bool" where
  "seen_ok policy nodes selected seen \<longleftrightarrow> (\<forall>l \<in> fst ` set (rp_min_distinct_labels policy).
     distinct (seen_of seen l) \<and> set (seen_of seen l) = node_label nodes l ` set selected)"

lemma seen_ok_step:
  assumes "hm_ok (rp_min_distinct_labels policy)" "seen_ok policy nodes selected seen" "map_of nodes n = Some d"
  shows "seen_ok policy nodes (selected @ [n]) (note_labels policy d seen)"
  unfolding seen_ok_def
proof
  fix l assume l: "l \<in> fst ` set (rp_min_distinct_labels policy)"
  then have "distinct (seen_of seen l)" "set (seen_of seen l) = node_label nodes l ` set selected"
    using assms(2) unfolding seen_ok_def by blast+
  then show "distinct (seen_of (note_labels policy d seen) l) \<and>
      set (seen_of (note_labels policy d seen) l) = node_label nodes l ` set (selected @ [n])"
    using assms(3) by (simp add: note_labels_seen [OF assms(1) l])
qed

text \<open>Either a constraint is met, or every value its label has on a node is among the selected.\<close>

definition constraint_met :: "(node_id, node_descriptor) hashmap \<Rightarrow> string \<Rightarrow> nat \<Rightarrow> node_id set \<Rightarrow> node_id list \<Rightarrow> bool" where
  "constraint_met nodes l k A sel \<longleftrightarrow>
     k \<le> card (node_label nodes l ` set sel) \<or> node_label nodes l ` A \<subseteq> node_label nodes l ` set sel"

lemma seen_card:
  "seen_ok policy nodes selected seen \<Longrightarrow> l \<in> fst ` set (rp_min_distinct_labels policy) \<Longrightarrow>
   card (node_label nodes l ` set selected) = length (seen_of seen l)"
  unfolding seen_ok_def by (metis distinct_card)

lemma select_diverse_met:
  assumes "hm_ok (rp_min_distinct_labels policy)" "\<forall>n \<in> set ranked. map_of nodes n \<noteq> None"
    "required policy \<le> rp_replication_factor policy"
    "seen_ok policy nodes selected seen" "length selected \<le> met policy seen"
  shows "\<forall>(l, k) \<in> set (rp_min_distinct_labels policy).
    constraint_met nodes l k (set ranked) (select_diverse policy nodes ranked selected seen)"
  using assms(2,4,5)
proof (induction ranked arbitrary: selected seen)
  case Nil
  then show ?case by (simp add: constraint_met_def)
next
  case (Cons n ranked)
  obtain d where d: "map_of nodes n = Some d" using Cons.prems(1) by auto
  have rest: "\<forall>n \<in> set ranked. map_of nodes n \<noteq> None" using Cons.prems(1) by simp
  let ?sel = "select_diverse policy nodes (n # ranked) selected seen"
  have cardmono: "card (node_label nodes l ` A) \<le> card (node_label nodes l ` B)" if "A \<subseteq> B" "finite B" for A B l
    using that by (simp add: card_mono image_mono)
  obtain xs where xs: "?sel = selected @ xs"
    using select_diverse_extends [of policy nodes "n # ranked" selected seen] by blast
  show ?case
  proof (intro ballI, clarify)
    fix l k assume lk: "(l, k) \<in> set (rp_min_distinct_labels policy)"
    then have l: "l \<in> fst ` set (rp_min_distinct_labels policy)" by force
    have seen: "length (seen_of seen l) \<le> card (node_label nodes l ` set ?sel)"
      using seen_card [OF Cons.prems(2) l] cardmono [of "set selected" "set ?sel" l] xs by simp
    consider (full) "rp_replication_factor policy \<le> length selected"
      | (take) "\<not> rp_replication_factor policy \<le> length selected"
          "helps_constraint policy seen d \<or> length selected < length (rp_min_distinct_labels policy)"
      | (skip) "\<not> rp_replication_factor policy \<le> length selected" "\<not> helps_constraint policy seen d"
          "\<not> length selected < length (rp_min_distinct_labels policy)"
      by blast
    then show "constraint_met nodes l k (set (n # ranked)) ?sel"
    proof cases
      case full
      then have "required policy \<le> met policy seen"
        using Cons.prems(3) assms(3) by linarith
      from met_full [OF this lk] show ?thesis using seen by (simp add: constraint_met_def)
    next
      case take
      have step: "?sel = select_diverse policy nodes ranked (selected @ [n]) (note_labels policy d seen)"
        using take d by simp
      have "length (selected @ [n]) \<le> met policy (note_labels policy d seen)"
        using take(2) met_mono(2) [OF assms(1), of seen d] met_noted [OF assms(1), of d seen] Cons.prems(3) by auto
      from Cons.IH [OF rest seen_ok_step [OF assms(1) Cons.prems(2) d] this] lk
      have "constraint_met nodes l k (set ranked) ?sel" unfolding step by blast
      moreover have "n \<in> set ?sel"
        using select_diverse_extends [of policy nodes ranked "selected @ [n]" "note_labels policy d seen"] step by auto
      ultimately show ?thesis by (auto simp: constraint_met_def simp del: select_diverse.simps)
    next
      case skip
      have step: "?sel = select_diverse policy nodes ranked selected seen" using skip d by simp
      from Cons.IH [OF rest Cons.prems(2,3)] lk
      have "constraint_met nodes l k (set ranked) ?sel" unfolding step by blast
      moreover have "k \<le> length (seen_of seen l) \<or> label_value d l \<in> set (seen_of seen l)"
        using skip(2) lk by (force simp: helps_constraint_def list_ex_iff)
      moreover have "set (seen_of seen l) \<subseteq> node_label nodes l ` set ?sel"
        using Cons.prems(2) l xs unfolding seen_ok_def by auto
      ultimately show ?thesis
        using seen d by (auto simp: constraint_met_def simp del: select_diverse.simps)
    qed
  qed
qed


section \<open>Independence of the iteration order\<close>

lemma ranked_order_independent:
  assumes "nodes_ok a" "nodes_ok b" "map_of a = map_of b" "inj_on (score key) (eligible_ids a eligible)"
  shows "ranked_nodes score key a eligible = ranked_nodes score key b eligible"
proof -
  have ok: "hm_ok a" "hm_ok b" using assms(1,2) by (simp_all add: nodes_ok_def)
  have "distinct a" "distinct b" using ok by (simp_all add: hm_ok_def distinct_map)
  moreover have "set a = set b"
    using map_of_inject_set [of a b] ok assms(3) by (simp add: hm_ok_def)
  ultimately have "mset a = mset b" by (simp add: set_eq_iff_mset_eq_distinct)
  let ?f = "\<lambda>d. (nd_node_id d, score key (nd_node_id d))"
  have m: "mset (map ?f (filter eligible (hm_values a))) = mset (map ?f (filter eligible (hm_values b)))"
    by (simp only: mset_map mset_filter \<open>mset a = mset b\<close>)
  have "inj_on snd (set (map ?f (filter eligible (hm_values a))))"
  proof (rule inj_onI, clarsimp)
    fix n d n' d' assume d: "(n, d) \<in> set a" "(n', d') \<in> set a" "eligible d" "eligible d'"
      and eq: "score key (nd_node_id d) = score key (nd_node_id d')"
    have "map_of a n = Some d" "map_of a n' = Some d'" using d ok(1) by (simp_all add: hm_ok_def)
    then have "nd_node_id d \<in> eligible_ids a eligible" "nd_node_id d' \<in> eligible_ids a eligible"
      using nodes_ok_id [OF assms(1)] d(3,4) by blast+
    then show "nd_node_id d = nd_node_id d'" using inj_onD [OF assms(4) eq] by blast
  qed
  from sort_desc_unique [OF this m] show ?thesis by (simp add: ranked_nodes_def)
qed

lemma select_diverse_cong: "map_of a = map_of b \<Longrightarrow> select_diverse policy a ranked sel seen = select_diverse policy b ranked sel seen"
  by (induction policy a ranked sel seen rule: select_diverse.induct) (simp split: option.split)+

section \<open>The replication plan\<close>

abbreviation desired_of :: "(string \<Rightarrow> node_id \<Rightarrow> nat) \<Rightarrow> cluster \<Rightarrow> string \<Rightarrow> node_id list" where
  "desired_of score c key \<equiv> select_nodes_by_rendezvous score (replication_placement_key key) (cl_nodes c) (cl_policy c)"

abbreviation current_of :: "cluster \<Rightarrow> string \<Rightarrow> node_id list" where
  "current_of c key \<equiv> nodes_of (cl_available c) key"

text \<open>What an item of the plan says about its key.\<close>

definition item_sound :: "(string \<Rightarrow> node_id \<Rightarrow> nat) \<Rightarrow> cluster \<Rightarrow> plan_item \<Rightarrow> bool" where
  "item_sound score c i \<longleftrightarrow>
     (let desired = desired_of score c (pi_key i); current = current_of c (pi_key i)
      in pi_desired_nodes i = desired \<and> set (pi_current_nodes i) = set current \<and>
         set (pi_missing_nodes i) \<subseteq> set desired - set current \<and>
         length desired \<le> card (set current \<union> set (pi_missing_nodes i)) \<and>
         set (pi_extra_nodes i) \<subseteq> set current - set desired \<and>
         (pi_extra_nodes i \<noteq> [] \<longrightarrow> pi_missing_nodes i = [] \<and> length desired < card (set current)) \<and>
         (\<forall>n d. n \<in> set (pi_extra_nodes i) \<longrightarrow> map_of (cl_nodes c) n = Some d \<longrightarrow> nd_status d = Online))"

lemma missing_enough:
  assumes "distinct desired" "distinct current"
  defines "missing \<equiv> take (length desired - length current) (filter (\<lambda>n. n \<notin> set current) desired)"
  shows "length desired \<le> card (set current \<union> set missing)"
proof -
  let ?new = "filter (\<lambda>n. n \<notin> set current) desired"
  have "set desired \<subseteq> set current \<union> set ?new" by auto
  from card_mono [OF _ this] have "card (set desired) \<le> card (set current) + card (set ?new)"
    using card_Un_le [of "set current" "set ?new"] by simp
  then have new: "length desired \<le> length current + length ?new"
    using assms(1,2) by (simp only: distinct_card distinct_filter)
  have "distinct missing" unfolding missing_def using assms(1) by (simp add: distinct_take)
  moreover have "set current \<inter> set missing = {}" unfolding missing_def by (auto dest: in_set_takeD)
  ultimately have "card (set current \<union> set missing) = length current + length missing"
    using assms(2) by (simp add: card_Un_disjoint distinct_card)
  then show ?thesis unfolding missing_def using new by simp
qed

lemma raw_extra:
  assumes "n \<in> set (raw_extra_nodes nodes desired current)"
  shows "n \<in> set current - set desired" "length desired < length current" "map_of nodes n = Some d \<Longrightarrow> nd_status d = Online"
  using assms by (auto simp: raw_extra_nodes_def split: if_splits)

lemma plan_key_sound:
  assumes "cluster_ok c"
  shows "item_sound score c (fst (plan_key score c key t))" "pi_key (fst (plan_key score c key t)) = key"
proof -
  let ?i = "fst (plan_key score c key t)"
  let ?desired = "desired_of score c key" and ?current = "current_of c key"
  let ?raw = "raw_extra_nodes (cl_nodes c) ?desired ?current"
  have i: "pi_key ?i = key" "pi_desired_nodes ?i = ?desired" "pi_current_nodes ?i = sort ?current"
    "pi_missing_nodes ?i = take (length ?desired - length ?current) (filter (\<lambda>n. n \<notin> set ?current) ?desired)"
    "pi_extra_nodes ?i = take (length ?raw - min (length ?raw) t) ?raw"
    by (simp_all add: plan_key_def Let_def)
  show "pi_key ?i = key" by (rule i)
  have dist: "distinct ?desired" "distinct ?current"
    using selection_facts(1) [OF cluster_okD(1) [OF assms] refl] distinct_entry [OF view_okD(4) [OF cluster_okD(3) [OF assms]]]
    by (simp_all add: select_nodes_by_rendezvous_def)
  have raw: "set (pi_extra_nodes ?i) \<subseteq> set ?raw" unfolding i by (auto dest: in_set_takeD)
  show "item_sound score c ?i"
    unfolding item_sound_def Let_def i(1)
  proof (intro conjI impI allI)
    show "set (pi_missing_nodes ?i) \<subseteq> set ?desired - set ?current" unfolding i by (auto dest: in_set_takeD)
    show "length ?desired \<le> card (set ?current \<union> set (pi_missing_nodes ?i))" unfolding i by (rule missing_enough [OF dist])
    show "set (pi_extra_nodes ?i) \<subseteq> set ?current - set ?desired" using raw raw_extra(1) by blast
    assume "pi_extra_nodes ?i \<noteq> []"
    then obtain n where "n \<in> set ?raw" using raw by (metis list.set_intros(1) neq_Nil_conv subsetD)
    then have "length ?desired < length ?current" by (rule raw_extra)
    then show "pi_missing_nodes ?i = []" "length ?desired < card (set ?current)"
      using dist(2) by (simp_all add: i(4) distinct_card)
  qed (use i raw raw_extra(3) in auto)
qed

lemma plan_items_sound: "cluster_ok c \<Longrightarrow> i \<in> set (plan_items score c keys t) \<Longrightarrow> item_sound score c i \<and> pi_key i \<in> set keys"
proof (induction keys arbitrary: t)
  case (Cons key keys)
  obtain i1 t1 where p: "plan_key score c key t = (i1, t1)" by (rule prod.exhaust)
  have "item_sound score c i1" "pi_key i1 = key" using plan_key_sound [OF Cons.prems(1), of score key t] p by simp_all
  then show ?case using Cons.IH [OF Cons.prems(1), of t1] Cons.prems(2) p by (auto split: if_splits)
qed simp

lemma plan_items_complete:
  assumes "key \<in> set keys" "length (current_of c key) < length (desired_of score c key)"
    "\<exists>n. n \<in> set (desired_of score c key) \<and> n \<notin> set (current_of c key)"
  shows "\<exists>i \<in> set (plan_items score c keys t). pi_key i = key \<and> pi_missing_nodes i \<noteq> []"
  using assms(1)
proof (induction keys arbitrary: t)
  case (Cons k keys)
  obtain i1 t1 where p: "plan_key score c k t = (i1, t1)" by (rule prod.exhaust)
  show ?case
  proof (cases "k = key")
    case True
    have "filter (\<lambda>n. n \<notin> set (current_of c key)) (desired_of score c key) \<noteq> []"
      using assms(3) by (auto simp: filter_empty_conv)
    then have "pi_missing_nodes i1 \<noteq> []" "pi_key i1 = key"
      using p True assms(2) by (auto simp: plan_key_def Let_def)
    then show ?thesis using p True by simp
  next
    case False
    then show ?thesis using Cons.IH [of t1] Cons.prems p by auto
  qed
qed simp

lemma plan_deferred_bound: "sum_list (map pi_deferred_extra_nodes (plan_items score c keys t)) \<le> t"
proof (induction keys arbitrary: t)
  case (Cons k keys)
  obtain i1 t1 where p: "plan_key score c k t = (i1, t1)" by (rule prod.exhaust)
  then have "pi_deferred_extra_nodes i1 \<le> t" "t1 = t - pi_deferred_extra_nodes i1"
    by (auto simp: plan_key_def Let_def)
  then show ?case using Cons.IH [of t1] p by auto
qed simp

section \<open>A sample cluster\<close>

text \<open>Five online nodes in one data centre, of which 3, 4 and 5 hold the version \<open>k@ver-1\<close>; the policy asks for
  two copies. Scores prefer small ids.\<close>

definition sample_node :: "node_id \<Rightarrow> node_descriptor" where
  "sample_node n = \<lparr>nd_node_id = n, nd_hostname = None, nd_software_version = None,
     nd_reachability = \<lparr>nr_public_api_url = None, nr_public_direct_urls = [], nr_peer_api_url = None,
       nr_peer_direct_urls = [], nr_peer_direct_candidates = [], nr_relay_required = False\<rparr>,
     nd_capabilities = \<lparr>nc_public_api = True, nc_peer_api = True, nc_relay_tunnel = False\<rparr>,
     nd_labels = [(''dc'', ''a'')], nd_capacity_bytes = 10, nd_free_bytes = n, nd_storage_stats = None,
     nd_last_heartbeat_unix = 100, nd_status = Online\<rparr>"

definition sample_policy :: replication_policy where
  "sample_policy = \<lparr>rp_replication_factor = 2, rp_min_distinct_labels = [(''dc'', 1)], rp_accepted_over_replication_items = 0\<rparr>"

definition sample_score :: "string \<Rightarrow> node_id \<Rightarrow> nat" where
  "sample_score key n = 10 - n"

definition sample_members :: cluster where
  "sample_members = fold (\<lambda>n c. snd (register_node 100 (sample_node n) c)) [1, 2, 3, 4, 5] (new_cluster 1 sample_policy 60)"

definition sample_cluster :: cluster where
  "sample_cluster = snd (note_replica ''k@ver-1'' 3 (snd (note_replica ''k@ver-1'' 4 (snd (note_replica ''k@ver-1'' 5 sample_members)))))"

lemma new_cluster_ok: "cluster_ok (new_cluster n p t)"
  by (rule cluster.reach_inv) (rule reach_init, blast)

lemma sample_ok: "cluster_ok sample_members" "cluster_ok sample_cluster"
proof -
  show m: "cluster_ok sample_members"
    unfolding sample_members_def fold_simps o_apply id_apply
    by (intro cluster_step_ok [OF _ cluster_step.register] new_cluster_ok)
  show "cluster_ok sample_cluster"
    unfolding sample_cluster_def
    by (intro cluster_step_ok [OF _ cluster_step.note_replica] m)
qed

lemma held_sample:
  "held (cl_available sample_cluster) = {(''k@ver-1'', 3), (''k@ver-1'', 4), (''k@ver-1'', 5)}"
  "held (cl_replicas sample_cluster) = {(''k@ver-1'', 3), (''k@ver-1'', 4), (''k@ver-1'', 5)}"
proof -
  have by_key: "mb_by_key (cl_available sample_cluster) = [(''k@ver-1'', [5, 4, 3])]"
    "mb_by_key (cl_replicas sample_cluster) = [(''k@ver-1'', [5, 4, 3])]" by code_simp+
  then show "held (cl_available sample_cluster) = {(''k@ver-1'', 3), (''k@ver-1'', 4), (''k@ver-1'', 5)}"
    "held (cl_replicas sample_cluster) = {(''k@ver-1'', 3), (''k@ver-1'', 4), (''k@ver-1'', 5)}"
    by (auto simp: held_def split: if_splits)
qed

lemma sample_cluster_policy: "cl_policy sample_cluster = sample_policy"
  by code_simp

text \<open>A plan that names every copy as extra: none of the holders is desired, nothing is missing because
  there are more copies than desired, and a cleanup that follows the plan removes all copies.\<close>

lemma plan_can_drop_every_replica:
  "map (\<lambda>i. (pi_desired_nodes i, pi_current_nodes i, pi_missing_nodes i, pi_extra_nodes i))
     (pl_items (replication_plan_for sample_score 0 sample_cluster [''k@ver-1''])) = [([1, 2], [3, 4, 5], [], [3, 4, 5])]"
  by code_simp

section \<open>Properties\<close>

text \<open>C15: In every cluster view reachable from a new one, by registering, importing, removing and
  refreshing nodes and by noting, reconciling, importing and dropping replicas, the lists of nodes per
  subject and of subjects per node are inverse to each other in both views, have no duplicates and no
  empty entries, and every node is filed under its own id.\<close>

theorem cluster_views_consistent:
  assumes "reach (\<lambda>c. \<exists>n p t. c = new_cluster n p t) cluster_step c"
  shows "cluster_ok c"
  by (rule cluster.reach_inv [OF assms])

theorem cluster_views_consistent_witness:
  "cluster_ok (snd (note_replica ''k'' 7 (new_cluster 1 default_replication_policy 60)))"
proof -
  have "reach (\<lambda>c. \<exists>n p t. c = new_cluster n p t) cluster_step (new_cluster 1 default_replication_policy 60)"
    by (rule reach_init) blast
  then have "reach (\<lambda>c. \<exists>n p t. c = new_cluster n p t) cluster_step
      (snd (note_replica ''k'' 7 (new_cluster 1 default_replication_policy 60)))"
    by (rule reach_step) (rule cluster_step.note_replica)
  then show ?thesis by (rule cluster_views_consistent)
qed

text \<open>C27: Reconciling a node with the subjects it advertises makes its available view exactly those
  subjects; its replica claims become those subjects plus the claims it had on versions of a key it still
  advertises; nothing changes for any other node.\<close>

theorem reconcile_exact:
  assumes "cluster_ok c" "reconcile_node_subjects n ss c = (b, c')"
  shows "held (cl_available c') = {(s, k) \<in> held (cl_available c). k \<noteq> n} \<union> set ss \<times> {n} \<and>
    held (cl_replicas c') = {(s, k) \<in> held (cl_replicas c). k \<noteq> n \<or> preserved_claim ss s} \<union> set ss \<times> {n}"
  using reconcile_views(4,5) [OF cluster_okD(3,2) [OF assms(1)] assms(2)] by blast

theorem reconcile_exact_witness:
  "held (cl_available (snd (reconcile_node_subjects 3 [''k''] sample_cluster))) = {(''k@ver-1'', 4), (''k@ver-1'', 5), (''k'', 3)} \<and>
    held (cl_replicas (snd (reconcile_node_subjects 3 [''k''] sample_cluster))) = {(''k@ver-1'', 3), (''k@ver-1'', 4), (''k@ver-1'', 5), (''k'', 3)}"
proof -
  have "held (cl_available sample_cluster) = {(''k@ver-1'', 3), (''k@ver-1'', 4), (''k@ver-1'', 5)}"
    "held (cl_replicas sample_cluster) = {(''k@ver-1'', 3), (''k@ver-1'', 4), (''k@ver-1'', 5)}"
    by (simp_all add: held_sample)
  moreover have "preserved_claim [''k''] ''k@ver-1''" by code_simp
  ultimately show ?thesis
    using reconcile_exact [OF sample_ok(2), of 3 "[''k'']", OF prod.collapse [symmetric]] by auto
qed

text \<open>C28: The durable views survive a restart: importing the exported lists into a new view gives the
  same holders of every subject, in both views.\<close>

theorem replica_views_roundtrip:
  assumes "cluster_ok c"
  shows "held (cl_replicas (import_replica_views (export_replicas_by_key c) (export_available_by_key c) c0)) = held (cl_replicas c) \<and>
    held (cl_available (import_replica_views (export_replicas_by_key c) (export_available_by_key c) c0)) = held (cl_available c)"
proof -
  have "held (import_view (hm_map_values sort (mb_by_key m))) = held m" if "view_ok m" for m
  proof -
    have "hm_ok (mb_by_key m)" using that by (simp add: view_okD)
    then have "(s, ns) \<in> set (hm_map_values sort (mb_by_key m)) \<longleftrightarrow> (\<exists>xs. map_of (mb_by_key m) s = Some xs \<and> ns = sort xs)" for s ns
      using hm.mem_iff [of "hm_map_values sort (mb_by_key m)" s ns] by auto
    then have "n \<in> set (nodes_of m s) \<longleftrightarrow> (\<exists>ns. (s, ns) \<in> set (hm_map_values sort (mb_by_key m)) \<and> n \<in> set ns)" for s n
      by (cases "map_of (mb_by_key m) s") auto
    then have "held m = {(s, n). \<exists>ns. (s, ns) \<in> set (hm_map_values sort (mb_by_key m)) \<and> n \<in> set ns}"
      by (simp only: held_def)
    then show ?thesis by (simp only: import_view_held(2))
  qed
  then show ?thesis
    using cluster_okD(2,3) [OF assms]
    by (simp add: import_replica_views_def export_replicas_by_key_def export_available_by_key_def)
qed

theorem replica_views_roundtrip_witness:
  "held (cl_available (import_replica_views (export_replicas_by_key sample_cluster) (export_available_by_key sample_cluster)
      (new_cluster 2 sample_policy 60))) = {(''k@ver-1'', 3), (''k@ver-1'', 4), (''k@ver-1'', 5)}"
  using replica_views_roundtrip [OF sample_ok(2), of "new_cluster 2 sample_policy 60"] by (simp add: held_sample)

text \<open>C26: A placement selects distinct nodes, all of them online, and exactly as many as the replication
  factor asks for or as there are online nodes, whichever is smaller.\<close>

theorem placement_selects_enough:
  assumes "cluster_ok c"
  shows "distinct (pd_selected_nodes (placement_for_key score c key)) \<and>
    (\<forall>n. n \<in> set (pd_selected_nodes (placement_for_key score c key)) \<longrightarrow>
       (\<exists>d. map_of (cl_nodes c) n = Some d \<and> nd_status d = Online)) \<and>
    length (pd_selected_nodes (placement_for_key score c key)) =
      min (rp_replication_factor (cl_policy c)) (card {n. \<exists>d. map_of (cl_nodes c) n = Some d \<and> nd_status d = Online})"
  using selection_facts(1-3) [OF cluster_okD(1) [OF assms] refl, of score "replication_placement_key key" "cl_policy c"
      "\<lambda>d. nd_status d = Online"]
  unfolding placement_for_key_def select_nodes_by_rendezvous_def placement_decision.simps by blast

theorem placement_selects_enough_witness:
  "length (pd_selected_nodes (placement_for_key sample_score sample_cluster ''k'')) =
    min 2 (card {n. \<exists>d. map_of (cl_nodes sample_cluster) n = Some d \<and> nd_status d = Online})"
  using placement_selects_enough [OF sample_ok(2), of sample_score "''k''"] by (simp add: sample_cluster_policy sample_policy_def)

text \<open>C16: A placement respects the label constraints as far as the online nodes allow: with a replication
  factor of at least the sum of the required numbers of values (a label that asks for none
  counting as one, and the default policy meeting this), each
  constrained label has among the selected nodes either the required number of distinct values or
  every value it has on an online node.\<close>

theorem placement_is_diverse:
  assumes "cluster_ok c" "hm_ok (rp_min_distinct_labels (cl_policy c))"
    and "required (cl_policy c) \<le> rp_replication_factor (cl_policy c)"
    and "(label, k) \<in> set (rp_min_distinct_labels (cl_policy c))"
  shows "k \<le> card (node_label (cl_nodes c) label ` set (pd_selected_nodes (placement_for_key score c key))) \<or>
    node_label (cl_nodes c) label ` {n. \<exists>d. map_of (cl_nodes c) n = Some d \<and> nd_status d = Online}
      \<subseteq> node_label (cl_nodes c) label ` set (pd_selected_nodes (placement_for_key score c key))"
proof -
  let ?nodes = "cl_nodes c" and ?policy = "cl_policy c" and ?online = "\<lambda>d. nd_status d = Online"
  let ?ranked = "ranked_nodes score (replication_placement_key key) ?nodes ?online"
  let ?d = "select_diverse ?policy ?nodes ?ranked [] []"
  define sel where "sel = pd_selected_nodes (placement_for_key score c key)"
  have ok: "nodes_ok ?nodes" using cluster_okD(1) [OF assms(1)] .
  have ranked: "set ?ranked = eligible_ids ?nodes ?online" by (rule ranked_set [OF ok])
  have "\<forall>n \<in> set ?ranked. map_of ?nodes n \<noteq> None" unfolding ranked by auto
  moreover have "seen_ok ?policy ?nodes [] []" by (simp add: seen_ok_def)
  ultimately have met: "constraint_met ?nodes label k (set ?ranked) ?d"
    using select_diverse_met [OF assms(2) _ assms(3), of ?ranked ?nodes "[]" "[]"] assms(4) by fastforce
  have "set ?d \<subseteq> set sel"
    unfolding sel_def placement_for_key_def select_nodes_by_rendezvous_def placement_decision.simps
    by (rule selection_facts(4) [OF ok refl])
  then have "node_label ?nodes label ` set ?d \<subseteq> node_label ?nodes label ` set sel" by (rule image_mono)
  moreover from card_mono [OF _ this] have "card (node_label ?nodes label ` set ?d) \<le> card (node_label ?nodes label ` set sel)" by simp
  ultimately show ?thesis
    using met unfolding sel_def [symmetric] constraint_met_def ranked by (meson order_trans)
qed

theorem placement_is_diverse_witness:
  "1 \<le> card (node_label (cl_nodes sample_cluster) ''dc'' ` set (pd_selected_nodes (placement_for_key sample_score sample_cluster ''k''))) \<or>
    node_label (cl_nodes sample_cluster) ''dc'' ` {n. \<exists>d. map_of (cl_nodes sample_cluster) n = Some d \<and> nd_status d = Online}
      \<subseteq> node_label (cl_nodes sample_cluster) ''dc'' ` set (pd_selected_nodes (placement_for_key sample_score sample_cluster ''k''))"
  by (rule placement_is_diverse [OF sample_ok(2)]) (simp_all add: sample_cluster_policy sample_policy_def hm_ok_def required_def)

text \<open>Every node computes the same placement: the selection does not depend on the iteration order
  of the node table, as long as the scores of the eligible nodes differ.\<close>

lemma placement_order_independent:
  assumes "nodes_ok a" "nodes_ok b" "map_of a = map_of b"
    and "inj_on (score key) {n. \<exists>d. map_of a n = Some d \<and> eligible d}"
  shows "select_nodes_by_rendezvous_matching score key a policy eligible =
    select_nodes_by_rendezvous_matching score key b policy eligible"
  using ranked_order_independent [of a b score key eligible] assms select_diverse_cong [OF assms(3)]
  by (simp add: select_nodes_by_rendezvous_matching_def)

text \<open>All versions of a key are placed together: the nodes of the subject \<open>key@ver-...\<close> are those
  of the key itself, as long as the key does not contain the separator.\<close>

lemma versions_placed_with_key:
  assumes "\<not> sublist ''@ver-'' (key @ ''@ver'')"
  shows "pd_selected_nodes (placement_for_key score c (key @ ''@ver-'' @ version)) =
    pd_selected_nodes (placement_for_key score c key)"
proof -
  have "split_once ''@ver-'' (key @ ''@ver-'' @ version) \<noteq> None"
    unfolding split_once_None not_not by (rule sublist_appendI)
  then obtain a b where ab: "split_once ''@ver-'' (key @ ''@ver-'' @ version) = Some (a, b)" by force
  have "length a \<le> length key"
    by (rule split_once_first [OF ab _ refl]) simp
  have s: "key @ ''@ver-'' @ version = a @ ''@ver-'' @ b" by (rule split_once_Some [OF ab])
  have "length a = length key"
  proof (rule ccontr)
    assume "length a \<noteq> length key"
    then have len: "length (a @ ''@ver-'') \<le> length (key @ ''@ver'')" using \<open>length a \<le> length key\<close> by simp
    have "prefix (a @ ''@ver-'') (key @ ''@ver-'' @ version)" unfolding s by simp
    moreover have "prefix (key @ ''@ver'') (key @ ''@ver-'' @ version)" by simp
    ultimately have "prefix (a @ ''@ver-'') (key @ ''@ver'')" using len by (rule prefix_length_prefix)
    then obtain z where "key @ ''@ver'' = a @ ''@ver-'' @ z" by (auto simp: prefix_def)
    then show False using assms sublist_appendI [of "''@ver-''" a z] by simp
  qed
  then have "a = key" using s by (metis append_eq_append_conv)
  moreover have "split_once ''@ver-'' key = None"
    unfolding split_once_None
  proof
    assume "sublist ''@ver-'' key"
    from sublist_order.order_trans [OF this sublist_append_rightI [of key "''@ver''"]] assms show False by contradiction
  qed
  ultimately show ?thesis using ab by (simp add: placement_for_key_def replication_placement_key_def)
qed

text \<open>C17: The replication plan is sound: the nodes an item calls missing are desired holders without a
  current copy, and adding them gives at least as many copies as desired; the nodes it calls extra hold
  a copy, are not desired, are not known to be offline, and are only named when the key has more copies
  than desired and nothing is missing.\<close>

theorem replication_plan_sound:
  assumes "cluster_ok c" "i \<in> set (pl_items (replication_plan_for score now c keys))"
  shows "item_sound score c i \<and> pi_key i \<in> set keys"
  using plan_items_sound [OF assms(1)] assms(2) by (simp add: replication_plan_for_def Let_def)

theorem replication_plan_sound_witness:
  "item_sound sample_score sample_cluster (hd (pl_items (replication_plan_for sample_score 0 sample_cluster [''k@ver-1''])))"
proof -
  have "pl_items (replication_plan_for sample_score 0 sample_cluster [''k@ver-1'']) \<noteq> []" by code_simp
  then show ?thesis using replication_plan_sound [OF sample_ok(2) hd_in_set] by blast
qed



text \<open>A metadata commit needs a majority: there is a quorum exactly when more than half of the known
  nodes are online.\<close>

lemma quorum_is_majority:
  "has_metadata_commit_quorum c \<longleftrightarrow> length (cl_nodes c) < 2 * online_nodes c"
  by (auto simp: has_metadata_commit_quorum_def metadata_commit_quorum_size_def Let_def)

text \<open>C29: A heartbeat keeps a node online for exactly the timeout: after a heartbeat at time \<open>t\<close>, a health
  update at time \<open>now\<close> leaves the node online if it is the local one or \<open>now\<close> is at most the timeout
  later, and marks it offline otherwise.\<close>

theorem heartbeat_timeout_exact:
  assumes "cluster_ok c" "touch_heartbeat t n free capacity stats labels version c = (True, c1)"
  shows "\<exists>d. map_of (cl_nodes (snd (update_health_and_detect_offline_transition now c1))) n = Some d \<and>
    (nd_status d = Online \<longleftrightarrow> n = cl_local_node c \<or> now \<le> t + cl_heartbeat_timeout_secs c)"
proof -
  obtain d where d: "map_of (cl_nodes c) n = Some d"
    using assms(2) by (cases "map_of (cl_nodes c) n") (simp_all add: touch_heartbeat_def)
  then have "nd_node_id d = n" using nodes_ok_id [OF cluster_okD(1) [OF assms(1)]] by blast
  moreover obtain d1 where d1: "map_of (cl_nodes c1) n = Some d1" "nd_node_id d1 = nd_node_id d"
      "nd_last_heartbeat_unix d1 = t" "nd_status d1 = Online"
      "cl_local_node c1 = cl_local_node c" "cl_heartbeat_timeout_secs c1 = cl_heartbeat_timeout_secs c"
    using assms(2) d by (auto simp: touch_heartbeat_def update_conv')
  ultimately show ?thesis
    by (auto simp: update_health_and_detect_offline_transition_def refresh_health_def)
qed

theorem heartbeat_timeout_exact_witness:
  "\<exists>d. map_of (cl_nodes (snd (update_health_and_detect_offline_transition 261
      (snd (touch_heartbeat 200 3 None None None None None sample_cluster))))) 3 = Some d \<and> nd_status d \<noteq> Online"
proof -
  have beat: "touch_heartbeat 200 3 None None None None None sample_cluster =
      (True, snd (touch_heartbeat 200 3 None None None None None sample_cluster))"
    by (rule prod_eqI) (code_simp, simp)
  have "cl_local_node sample_cluster = 1" "cl_heartbeat_timeout_secs sample_cluster = 60" by code_simp+
  then show ?thesis using heartbeat_timeout_exact [OF sample_ok(2) beat, of 261] by auto
qed

end
