(* ===== verification/Replication_Cleanup.thy ===== *)
theory Replication_Cleanup
  imports Cluster_Properties
begin

text \<open>
  The clean-up of surplus copies (\<open>execute_replication_cleanup\<close> in \<open>server-node-sdk/src/lib.rs\<close>):
  the extra holders of the replication plan become candidates, the fullest nodes first, and copies are
  dropped until enough bytes are reclaimed.  Parameters are the subjects the local node has, the size of
  the local bundle of a version (none if it cannot be exported), and whether the peer accepts a drop.
  The answer of the authorisation is a parameter too; the persistence of the views is not modelled.
\<close>

section \<open>The handler\<close>

record cleanup_query =
  cq_dry_run :: "bool option"
  cq_max_deletions :: "usize option"
  cq_retained_overhead_bytes :: "u64 option"

record cleanup_candidate =
  cc_subject :: string
  cc_key :: string
  cc_version_id :: string
  cc_node_id :: node_id
  cc_node :: node_descriptor
  cc_size_bytes :: u64
  cc_node_free_bytes :: u64

record cleanup_report =
  cr_dry_run :: bool
  cr_planned_candidates :: usize
  cr_considered_candidates :: usize
  cr_target_reclaimed_bytes :: u64
  cr_estimated_overhead_bytes :: u64
  cr_reclaimed_bytes :: u64
  cr_attempted_deletions :: usize
  cr_successful_deletions :: usize
  cr_failed_deletions :: usize
  cr_skipped_items :: usize

text \<open>\<open>rsplit_once\<close> cuts at the last occurrence of a character.\<close>

definition rsplit_once :: "char \<Rightarrow> string \<Rightarrow> (string \<times> string) option" where
  "rsplit_once c s = map_option (\<lambda>(a, b). (rev b, rev a)) (split_once [c] (rev s))"

definition parse_replication_subject :: "string \<Rightarrow> (string \<times> string option) option" where
  "parse_replication_subject subject =
     (if subject = [] then None
      else case opt_filter (\<lambda>(key, version). key \<noteq> [] \<and> version \<noteq> []) (rsplit_once CHR ''@'' subject) of
             Some (key, version) \<Rightarrow> Some (key, Some version)
           | None \<Rightarrow> Some (subject, None))"

definition planning_replication_subjects :: "string list \<Rightarrow> cluster \<Rightarrow> string list" where
  "planning_replication_subjects local_subjects c =
     bts_collect (local_subjects @ hm_keys (export_available_by_key c))"

text \<open>The candidates of one plan item, and how many of its parts are skipped.\<close>

definition item_candidates ::
  "(string \<Rightarrow> string \<Rightarrow> u64 option) \<Rightarrow> (node_id, node_descriptor) hashmap \<Rightarrow> plan_item \<Rightarrow> cleanup_candidate list \<times> usize" where
  "item_candidates bundle_size node_by_id item =
     (case parse_replication_subject (pi_key item) of
        Some (key, Some version) \<Rightarrow>
          (case bundle_size key version of
             None \<Rightarrow> ([], 1)
           | Some bytes \<Rightarrow>
               (List.map_filter (\<lambda>n. map_option (\<lambda>d. \<lparr>cc_subject = pi_key item, cc_key = key, cc_version_id = version,
                    cc_node_id = n, cc_node = d, cc_size_bytes = bytes, cc_node_free_bytes = nd_free_bytes d\<rparr>) (map_of node_by_id n))
                  (pi_extra_nodes item),
                length (filter (\<lambda>n. map_of node_by_id n = None) (pi_extra_nodes item))))
      | _ \<Rightarrow> ([], 1))"

definition cleanup_order :: "cleanup_candidate \<Rightarrow> cleanup_candidate \<Rightarrow> bool" where
  "cleanup_order a b \<longleftrightarrow> cc_node_free_bytes a < cc_node_free_bytes b \<or>
     cc_node_free_bytes a = cc_node_free_bytes b \<and> cc_size_bytes b \<le> cc_size_bytes a"

fun select_loop :: "usize \<Rightarrow> u64 \<Rightarrow> cleanup_candidate list \<Rightarrow> cleanup_candidate list \<Rightarrow> u64 \<Rightarrow> cleanup_candidate list \<times> u64" where
  "select_loop max_deletions target [] selected bytes = (selected, bytes)"
| "select_loop max_deletions target (x # xs) selected bytes =
     (if max_deletions \<le> length selected then (selected, bytes)
      else if target \<le> bytes then (selected, bytes)
      else select_loop max_deletions target xs (selected @ [x]) (sat_add_u64 bytes (cc_size_bytes x)))"

definition forget_copy :: "cleanup_candidate \<Rightarrow> cluster \<Rightarrow> cluster" where
  "forget_copy x c =
     (let versioned = cc_key x @ ''@'' @ cc_version_id x
      in remove_available versioned (cc_node_id x) (remove_replica versioned (cc_node_id x)
           (remove_available (cc_subject x) (cc_node_id x) (remove_replica (cc_subject x) (cc_node_id x) c))))"

fun delete_loop ::
  "(cleanup_candidate \<Rightarrow> bool) \<Rightarrow> cleanup_candidate list \<Rightarrow> usize \<times> usize \<times> usize \<times> u64 \<times> cluster
     \<Rightarrow> usize \<times> usize \<times> usize \<times> u64 \<times> cluster" where
  "delete_loop drop_ok [] acc = acc"
| "delete_loop drop_ok (x # xs) (attempted, successful, failed, reclaimed, c) =
     delete_loop drop_ok xs
       (if drop_ok x then (attempted + 1, successful + 1, failed, sat_add_u64 reclaimed (cc_size_bytes x), forget_copy x c)
        else (attempted + 1, successful, failed + 1, reclaimed, c))"

abbreviation overfull_items :: "replication_plan \<Rightarrow> plan_item list" where
  "overfull_items plan \<equiv> filter (\<lambda>i. pi_extra_nodes i \<noteq> []) (pl_items plan)"

definition run_replication_cleanup ::
  "(string \<Rightarrow> node_id \<Rightarrow> nat) \<Rightarrow> u64 \<Rightarrow> string list \<Rightarrow> (string \<Rightarrow> string \<Rightarrow> u64 option) \<Rightarrow> (cleanup_candidate \<Rightarrow> bool)
     \<Rightarrow> cleanup_query \<Rightarrow> cluster \<Rightarrow> cleanup_report \<times> cluster" where
  "run_replication_cleanup score now local_subjects bundle_size drop_ok query c =
     (let dry_run = unwrap_or True (cq_dry_run query);
          max_deletions = max (unwrap_or 64 (cq_max_deletions query)) 1;
          retained = unwrap_or 0 (cq_retained_overhead_bytes query);
          keys = planning_replication_subjects local_subjects c;
          c1 = snd (update_health_and_detect_offline_transition now c);
          plan = replication_plan_for score now c1 keys;
          node_by_id = map (\<lambda>d. (nd_node_id d, d)) (list_nodes c1);
          found = map (item_candidates bundle_size node_by_id) (overfull_items plan);
          candidates = sort_by cleanup_order (concat (map fst found));
          estimated = fold (\<lambda>x acc. sat_add_u64 acc (cc_size_bytes x)) candidates 0;
          target = estimated - retained;
          (selected, selected_bytes) = select_loop max_deletions target candidates [] 0;
          (attempted, successful, failed, reclaimed, c2) =
            (if dry_run then (length selected, length selected, 0, selected_bytes, c1)
             else delete_loop drop_ok selected (0, 0, 0, 0, c1))
      in (\<lparr>cr_dry_run = dry_run, cr_planned_candidates = pl_over_replicated plan, cr_considered_candidates = attempted,
           cr_target_reclaimed_bytes = target, cr_estimated_overhead_bytes = estimated, cr_reclaimed_bytes = reclaimed,
           cr_attempted_deletions = attempted, cr_successful_deletions = successful, cr_failed_deletions = failed,
           cr_skipped_items = sum_list (map snd found)\<rparr>, c2))"

text \<open>The handler: a request that is not authorised is answered with its status and does nothing.\<close>

definition execute_replication_cleanup ::
  "'e option \<Rightarrow> (string \<Rightarrow> node_id \<Rightarrow> nat) \<Rightarrow> u64 \<Rightarrow> string list \<Rightarrow> (string \<Rightarrow> string \<Rightarrow> u64 option) \<Rightarrow> (cleanup_candidate \<Rightarrow> bool)
     \<Rightarrow> cleanup_query \<Rightarrow> cluster \<Rightarrow> ('e + cleanup_report) \<times> cluster" where
  "execute_replication_cleanup denied score now local_subjects bundle_size drop_ok query c =
     (case denied of
        Some status \<Rightarrow> (Inl status, c)
      | None \<Rightarrow> apfst Inr (run_replication_cleanup score now local_subjects bundle_size drop_ok query c))"

section \<open>Lemmas\<close>

text \<open>Evaluation compares integers, so that the limit is not counted up to.\<close>

lemma sat_add_u64_code [code]: "sat_add_u64 a b = (if int a + int b < 18446744073709551615 then a + b else u64_max)"
proof -
  have "int a + int b < 18446744073709551615 \<longleftrightarrow> a + b < u64_max" by linarith
  then show ?thesis by (simp add: sat_add_u64_def)
qed

lemma parse_subject_join: "parse_replication_subject s = Some (key, Some version) \<Longrightarrow> key @ ''@'' @ version = s"
proof -
  assume "parse_replication_subject s = Some (key, Some version)"
  then obtain a b where "split_once ''@'' (rev s) = Some (a, b)" "key = rev b" "version = rev a"
    by (auto simp: parse_replication_subject_def rsplit_once_def split: if_splits option.splits)
  then have "rev s = a @ ''@'' @ b" by (blast dest: split_once_Some)
  then have "rev (rev s) = rev (a @ ''@'' @ b)" by (rule arg_cong)
  then show ?thesis using \<open>key = rev b\<close> \<open>version = rev a\<close> by simp
qed

text \<open>What a candidate of the plan is.\<close>

definition planned :: "plan_item list \<Rightarrow> (node_id, node_descriptor) hashmap \<Rightarrow> cleanup_candidate \<Rightarrow> bool" where
  "planned items node_by_id x \<longleftrightarrow> cc_key x @ ''@'' @ cc_version_id x = cc_subject x \<and> map_of node_by_id (cc_node_id x) \<noteq> None \<and>
     (\<exists>i. i \<in> set items \<and> pi_key i = cc_subject x \<and> cc_node_id x \<in> set (pi_extra_nodes i))"

lemma item_candidates_planned:
  assumes "i \<in> set items" "x \<in> set (fst (item_candidates bundle_size node_by_id i))"
  shows "planned items node_by_id x"
proof -
  from assms(2) obtain key version where k: "parse_replication_subject (pi_key i) = Some (key, Some version)"
    by (auto simp: item_candidates_def split: option.splits)
  from assms(2) have "cc_subject x = pi_key i \<and> cc_key x = key \<and> cc_version_id x = version \<and>
      cc_node_id x \<in> set (pi_extra_nodes i) \<and> map_of node_by_id (cc_node_id x) \<noteq> None"
    by (auto simp: item_candidates_def k List.map_filter_def split: option.splits)
  then show ?thesis using parse_subject_join [OF k] assms(1) unfolding planned_def by auto
qed

lemma select_loop_result:
  "length selected \<le> m \<Longrightarrow> select_loop m target xs selected bytes = (selected', bytes') \<Longrightarrow>
   (\<exists>ys. prefix ys xs \<and> selected' = selected @ ys) \<and> length selected' \<le> m"
proof (induction xs arbitrary: selected bytes)
  case (Cons x xs)
  show ?case
  proof (cases "m \<le> length selected \<or> target \<le> bytes")
    case True
    then show ?thesis using Cons.prems by (auto split: if_splits intro: exI [of _ "[]"])
  next
    case False
    then have "(\<exists>ys. prefix ys xs \<and> selected' = (selected @ [x]) @ ys) \<and> length selected' \<le> m"
      using Cons.IH [of "selected @ [x]"] Cons.prems by (simp add: Suc_le_eq)
    then obtain ys where "prefix ys xs" "selected' = selected @ (x # ys)" "length selected' \<le> m" by auto
    then show ?thesis by (intro conjI exI [of _ "x # ys"]) simp_all
  qed
qed auto

abbreviation total_bytes :: "cleanup_candidate list \<Rightarrow> u64 \<Rightarrow> u64" where
  "total_bytes xs bytes \<equiv> fold (\<lambda>x acc. sat_add_u64 acc (cc_size_bytes x)) xs bytes"

lemma select_loop_enough:
  "select_loop m target xs selected bytes = (selected', bytes') \<Longrightarrow> bytes = total_bytes selected 0 \<Longrightarrow> length selected \<le> m \<Longrightarrow>
   bytes' = total_bytes selected' 0 \<and> (selected' = selected @ xs \<or> length selected' = m \<or> target \<le> bytes')"
proof (induction xs arbitrary: selected bytes)
  case (Cons x xs)
  show ?case
  proof (cases "m \<le> length selected \<or> target \<le> bytes")
    case True
    then show ?thesis using Cons.prems by (auto split: if_splits)
  next
    case False
    then have step: "select_loop m target xs (selected @ [x]) (sat_add_u64 bytes (cc_size_bytes x)) = (selected', bytes')"
      using Cons.prems(1) by simp
    from Cons.IH [OF step] Cons.prems(2) False show ?thesis by auto
  qed
qed simp

lemma forget_copy_held:
  assumes "cc_key x @ ''@'' @ cc_version_id x = cc_subject x"
  shows "held (cl_available (forget_copy x c)) = held (cl_available c) - {(cc_subject x, cc_node_id x)}"
    "cl_nodes (forget_copy x c) = cl_nodes c"
  unfolding forget_copy_def Let_def assms
  by (auto simp: remove_available_def remove_replica_def held_remove)

lemma delete_loop_result:
  "\<forall>x \<in> set xs. cc_key x @ ''@'' @ cc_version_id x = cc_subject x \<Longrightarrow> delete_loop drop_ok xs (a, s, f, r, c) = (a', s', f', r', c') \<Longrightarrow>
   a' = a + length xs \<and> s' + f' = s + f + length xs \<and> ((\<forall>x. drop_ok x) \<longrightarrow> r' = total_bytes xs r) \<and>
   held (cl_available c') = held (cl_available c) - (\<lambda>x. (cc_subject x, cc_node_id x)) ` {x \<in> set xs. drop_ok x}"
proof (induction xs arbitrary: a s f r c)
  case (Cons x xs)
  show ?case
  proof (cases "drop_ok x")
    case True
    then have step: "delete_loop drop_ok xs (a + 1, s + 1, f, sat_add_u64 r (cc_size_bytes x), forget_copy x c) = (a', s', f', r', c')"
      using Cons.prems(2) by simp
    have "cc_key x @ ''@'' @ cc_version_id x = cc_subject x" using Cons.prems(1) by simp
    from forget_copy_held(1) [OF this, of c] Cons.IH [OF _ step] Cons.prems(1) True show ?thesis by auto
  next
    case False
    then have step: "delete_loop drop_ok xs (a + 1, s, f + 1, r, c) = (a', s', f', r', c')" using Cons.prems(2) by simp
    from Cons.IH [OF _ step] Cons.prems(1) False show ?thesis by auto
  qed
qed simp

text \<open>A run of the handler.\<close>

lemma cleanup_run:
  assumes "run_replication_cleanup score now local_subjects bundle_size drop_ok query c = (r, c')"
    and c1: "c1 = snd (update_health_and_detect_offline_transition now c)"
    and plan: "plan = replication_plan_for score now c1 (planning_replication_subjects local_subjects c)"
  obtains selected bytes where
    "\<And>x. x \<in> set selected \<Longrightarrow> planned (pl_items plan) (map (\<lambda>d. (nd_node_id d, d)) (list_nodes c1)) x"
    "length selected \<le> max (unwrap_or 64 (cq_max_deletions query)) 1"
    "bytes = total_bytes selected 0" "length selected = max (unwrap_or 64 (cq_max_deletions query)) 1 \<or> cr_target_reclaimed_bytes r \<le> bytes"
    "(cr_attempted_deletions r, cr_successful_deletions r, cr_failed_deletions r, cr_reclaimed_bytes r, c') =
       (if unwrap_or True (cq_dry_run query) then (length selected, length selected, 0, bytes, c1)
        else delete_loop drop_ok selected (0, 0, 0, 0, c1))"
proof -
  let ?nodes = "map (\<lambda>d. (nd_node_id d, d)) (list_nodes c1)"
  let ?m = "max (unwrap_or 64 (cq_max_deletions query)) 1"
  define cands where "cands = sort_by cleanup_order (concat (map fst (map (item_candidates bundle_size ?nodes) (overfull_items plan))))"
  define target where "target = fold (\<lambda>x acc. sat_add_u64 acc (cc_size_bytes x)) cands 0 - unwrap_or 0 (cq_retained_overhead_bytes query)"
  obtain selected bytes where sel: "select_loop ?m target cands [] 0 = (selected, bytes)" by (rule prod.exhaust)
  note run = assms(1) [unfolded run_replication_cleanup_def Let_def c1 [symmetric] plan [symmetric] cands_def [symmetric]
      target_def [symmetric] sel prod.case]
  have target: "cr_target_reclaimed_bytes r = target" using run by (auto simp: case_prod_unfold)
  have res: "(\<exists>ys. prefix ys cands \<and> selected = [] @ ys) \<and> length selected \<le> ?m" by (rule select_loop_result [OF _ sel]) simp
  show thesis
  proof (rule that [of selected bytes])
    fix x assume "x \<in> set selected"
    then have "x \<in> set cands" using res set_mono_prefix by fastforce
    then show "planned (pl_items plan) ?nodes x" unfolding cands_def by (auto intro: item_candidates_planned)
  next
    show "length selected \<le> ?m" using res by blast
    have "bytes = total_bytes selected 0 \<and> (selected = [] @ cands \<or> length selected = ?m \<or> target \<le> bytes)"
      by (rule select_loop_enough [OF sel]) simp_all
    then show "bytes = total_bytes selected 0" "length selected = ?m \<or> cr_target_reclaimed_bytes r \<le> bytes"
      unfolding target by (auto simp: target_def)
    show "(cr_attempted_deletions r, cr_successful_deletions r, cr_failed_deletions r, cr_reclaimed_bytes r, c') =
       (if unwrap_or True (cq_dry_run query) then (length selected, length selected, 0, bytes, c1)
        else delete_loop drop_ok selected (0, 0, 0, 0, c1))"
      using run by (auto simp: case_prod_unfold)
  qed
qed

lemma plan_items_of: "pl_items (replication_plan_for score now c keys) = plan_items score c keys (rp_accepted_over_replication_items (cl_policy c))"
  by (simp add: replication_plan_for_def Let_def)

section \<open>Properties\<close>

text \<open>C20: A clean-up only drops copies that the plan calls extra: a holder that disappears from the availability
  view is known and online, is not a desired holder of the version, and the version had more holders
  than desired; no holder appears.\<close>

theorem cleanup_drops_only_extras:
  assumes "cluster_ok c" "run_replication_cleanup score now local_subjects bundle_size drop_ok query c = (r, c')"
    and "c1 = snd (update_health_and_detect_offline_transition now c)"
  shows "held (cl_available c') \<subseteq> held (cl_available c) \<and>
    ((s, n) \<in> held (cl_available c) - held (cl_available c') \<longrightarrow>
       n \<notin> set (desired_of score c1 s) \<and> length (desired_of score c1 s) < card {k. (s, k) \<in> held (cl_available c)} \<and>
       (\<exists>d. map_of (cl_nodes c1) n = Some d \<and> nd_status d = Online))"
proof -
  let ?keys = "planning_replication_subjects local_subjects c"
  let ?plan = "replication_plan_for score now c1 ?keys" and ?nodes = "map (\<lambda>d. (nd_node_id d, d)) (list_nodes c1)"
  obtain selected bytes where sel: "\<And>x. x \<in> set selected \<Longrightarrow> planned (pl_items ?plan) ?nodes x"
    "(cr_attempted_deletions r, cr_successful_deletions r, cr_failed_deletions r, cr_reclaimed_bytes r, c') =
       (if unwrap_or True (cq_dry_run query) then (length selected, length selected, 0, bytes, c1)
        else delete_loop drop_ok selected (0, 0, 0, 0, c1))"
    by (rule cleanup_run [OF assms(2,3) refl]) blast
  have ok1: "cluster_ok c1" unfolding assms(3) by (rule cluster_step_ok [OF assms(1) cluster_step.health])
  have avail: "cl_available c1 = cl_available c" unfolding assms(3) by (simp add: update_health_and_detect_offline_transition_def)
  have joined: "\<forall>x \<in> set selected. cc_key x @ ''@'' @ cc_version_id x = cc_subject x" using sel(1) unfolding planned_def by blast
  have held': "held (cl_available c') = held (cl_available c) -
      (if unwrap_or True (cq_dry_run query) then {} else (\<lambda>x. (cc_subject x, cc_node_id x)) ` {x \<in> set selected. drop_ok x})"
  proof (cases "unwrap_or True (cq_dry_run query)")
    case True
    then show ?thesis using sel(2) avail by simp
  next
    case False
    then show ?thesis using delete_loop_result [OF joined sel(2) [symmetric, unfolded if_not_P [OF False]]] avail by simp
  qed
  moreover have "n \<notin> set (desired_of score c1 s) \<and> length (desired_of score c1 s) < card {k. (s, k) \<in> held (cl_available c)} \<and>
       (\<exists>d. map_of (cl_nodes c1) n = Some d \<and> nd_status d = Online)"
    if x: "x \<in> set selected" "s = cc_subject x" "n = cc_node_id x" for x
  proof -
    obtain i where i: "i \<in> set (pl_items ?plan)" "pi_key i = s" "n \<in> set (pi_extra_nodes i)" and "map_of ?nodes n \<noteq> None"
      using sel(1) [OF x(1)] x(2,3) unfolding planned_def by blast
    then obtain d where d: "d \<in> set (list_nodes c1)" "nd_node_id d = n" by (auto simp: map_of_eq_None_iff)
    have "hm_ok (cl_nodes c1)" using cluster_okD(1) [OF ok1] unfolding nodes_ok_def by blast
    then obtain k where "map_of (cl_nodes c1) k = Some d" using d(1) hm_value_iff [of "cl_nodes c1" d] by (auto simp: list_nodes_def sort_asc_def)
    then have node: "map_of (cl_nodes c1) n = Some d" using nodes_ok_id [OF cluster_okD(1) [OF ok1]] d(2) by blast
    have "item_sound score c1 i" using plan_items_sound [OF ok1] i(1) unfolding plan_items_of by blast
    moreover have "{k. (s, k) \<in> held (cl_available c)} = set (current_of c1 s)" unfolding avail by (simp add: held_def)
    ultimately show ?thesis using i(2,3) node unfolding item_sound_def Let_def by fastforce
  qed
  ultimately show ?thesis by (auto split: if_splits)
qed

definition sample_query :: cleanup_query where
  "sample_query = \<lparr>cq_dry_run = Some False, cq_max_deletions = None, cq_retained_overhead_bytes = Some 2\<rparr>"

abbreviation sample_cleanup :: "cleanup_query \<Rightarrow> cleanup_report \<times> cluster" where
  "sample_cleanup query \<equiv> run_replication_cleanup sample_score 100 [] (\<lambda>key version. Some 1) (\<lambda>x. True) query sample_cluster"

lemma held_by_key: "mb_by_key m = [(s, ns)] \<Longrightarrow> held m = {s} \<times> set ns"
  by (auto simp: held_def split: if_splits)

text \<open>Two of the three copies are worth keeping, so that one is dropped, from the fullest node.\<close>

theorem cleanup_drops_only_extras_witness:
  "3 \<notin> set (desired_of sample_score sample_cluster ''k@ver-1'') \<and>
    held (cl_available (snd (sample_cleanup sample_query))) = {(''k@ver-1'', 4), (''k@ver-1'', 5)}"
proof -
  define c1 where "c1 = snd (update_health_and_detect_offline_transition 100 sample_cluster)"
  have same: "desired_of sample_score c1 ''k@ver-1'' = desired_of sample_score sample_cluster ''k@ver-1''"
    unfolding c1_def by code_simp
  have "mb_by_key (cl_available (snd (sample_cleanup sample_query))) = [(''k@ver-1'', [5, 4])]" by code_simp
  then have after: "held (cl_available (snd (sample_cleanup sample_query))) = {(''k@ver-1'', 4), (''k@ver-1'', 5)}"
    by (auto dest: held_by_key)
  have "(''k@ver-1'', 3) \<in> held (cl_available sample_cluster) - held (cl_available (snd (sample_cleanup sample_query)))"
    unfolding after held_sample by simp
  then have "3 \<notin> set (desired_of sample_score c1 ''k@ver-1'')"
    using cleanup_drops_only_extras [OF sample_ok(2) prod.collapse [symmetric] c1_def, of sample_score "[]" "\<lambda>key version. Some 1"
        "\<lambda>x. True" sample_query "''k@ver-1''" 3] by blast
  then show ?thesis using same after by simp
qed

text \<open>With nothing worth keeping, and all drops accepted, every copy that the view knows is dropped,
  although no desired node has one.\<close>

lemma cleanup_can_drop_every_copy:
  "mb_by_key (cl_available (snd (sample_cleanup \<lparr>cq_dry_run = Some False, cq_max_deletions = None, cq_retained_overhead_bytes = None\<rparr>))) = []"
  by code_simp

text \<open>A clean-up keeps to its limits and does its work: it attempts at most the requested number of
  deletions (at least one is allowed), every attempt succeeds or fails, if no drop fails it reclaims the
  target or uses up the allowed deletions, and a dry run, which is the default, leaves the cluster as
  the health update left it.\<close>

lemma cleanup_bounded:
  assumes "run_replication_cleanup score now local_subjects bundle_size drop_ok query c = (r, c')"
  shows "cr_attempted_deletions r \<le> max (unwrap_or 64 (cq_max_deletions query)) 1 \<and>
    cr_successful_deletions r + cr_failed_deletions r = cr_attempted_deletions r \<and>
    ((\<forall>x. drop_ok x) \<longrightarrow>
       cr_target_reclaimed_bytes r \<le> cr_reclaimed_bytes r \<or> cr_attempted_deletions r = max (unwrap_or 64 (cq_max_deletions query)) 1) \<and>
    (cq_dry_run query = None \<or> cq_dry_run query = Some True \<longrightarrow>
       c' = snd (update_health_and_detect_offline_transition now c))"
proof -
  let ?c1 = "snd (update_health_and_detect_offline_transition now c)" and ?m = "max (unwrap_or 64 (cq_max_deletions query)) 1"
  obtain selected bytes where
    sel: "\<And>x. x \<in> set selected \<Longrightarrow> planned (pl_items (replication_plan_for score now ?c1 (planning_replication_subjects local_subjects c)))
        (map (\<lambda>d. (nd_node_id d, d)) (list_nodes ?c1)) x"
      "length selected \<le> ?m" "bytes = total_bytes selected 0" "length selected = ?m \<or> cr_target_reclaimed_bytes r \<le> bytes"
      "(cr_attempted_deletions r, cr_successful_deletions r, cr_failed_deletions r, cr_reclaimed_bytes r, c') =
         (if unwrap_or True (cq_dry_run query) then (length selected, length selected, 0, bytes, ?c1)
          else delete_loop drop_ok selected (0, 0, 0, 0, ?c1))"
    by (rule cleanup_run [OF assms refl refl]) blast
  have joined: "\<forall>x \<in> set selected. cc_key x @ ''@'' @ cc_version_id x = cc_subject x" using sel(1) unfolding planned_def by blast
  have "cr_attempted_deletions r = length selected \<and> cr_successful_deletions r + cr_failed_deletions r = length selected \<and>
      ((\<forall>x. drop_ok x) \<longrightarrow> cr_reclaimed_bytes r = bytes)"
  proof (cases "unwrap_or True (cq_dry_run query)")
    case False
    then show ?thesis using delete_loop_result [OF joined sel(5) [symmetric, unfolded if_not_P [OF False]]] sel(3) by simp
  qed (use sel(5) in simp)
  moreover have "c' = ?c1" if "cq_dry_run query = None \<or> cq_dry_run query = Some True"
    using sel(5) that by (cases "cq_dry_run query") auto
  ultimately show ?thesis using sel(2,4) by auto
qed

end
