(* ===== verification/Sync_Core.thy ===== *)
theory Sync_Core
  imports Rust_Strings
begin

text \<open>
  Planning of a synchronisation (\<open>sync-core/src/lib.rs\<close>), its translation into the actions of the
  FUSE adapter (\<open>adapter-linux-fuse/src/lib.rs\<close>), and the comparison of two remote snapshots
  (\<open>client-sdk/src/remote_sync.rs\<close>).  The media metadata of an entry is a type variable: planning
  does not look at it, and the comparison of entries takes its equality (which is not reflexive in
  Rust, as it compares floating-point numbers) as a parameter.
\<close>

section \<open>Entries\<close>

datatype file_kind = File | Directory

datatype pin_state = Unpinned | Pinned

datatype hydration_state = Placeholder | Hydrated

record 'm namespace_entry =
  ns_path :: string
  ns_kind :: file_kind
  ns_object_id :: "string option"
  ns_version :: "string option"
  ns_content_hash :: "string option"
  ns_content_fingerprint :: "string option"
  ns_size_bytes :: "u64 option"
  ns_modified_at_unix :: "u64 option"
  ns_media :: "'m option"

record 'm local_entry =
  lo_namespace :: "'m namespace_entry"
  lo_pin_state :: pin_state
  lo_hydration_state :: hydration_state

record 'm sync_snapshot =
  sn_local :: "'m local_entry list"
  sn_remote :: "'m namespace_entry list"

datatype sync_operation =
    EnsurePlaceholder string string string
  | Hydrate string string string
  | Upload string "string option"
  | Conflict string "string option" "string option" "string option"
  | CreateDirectory string

record sync_policy =
  sp_create_local_placeholders_for_remote_only :: bool
  sp_treat_missing_remote_as_upload :: bool

definition default_sync_policy :: sync_policy where
  "default_sync_policy = \<lparr>sp_create_local_placeholders_for_remote_only = True, sp_treat_missing_remote_as_upload = True\<rparr>"

definition normalize_path :: "string \<Rightarrow> string" where
  "normalize_path path = trim_start_matches CHR ''/'' (trim path)"

definition file_sized :: "string \<Rightarrow> string \<Rightarrow> string \<Rightarrow> u64 option \<Rightarrow> 'm namespace_entry" where
  "file_sized path version hash bytes = \<lparr>ns_path = normalize_path path, ns_kind = File, ns_object_id = None, ns_version = Some version,
     ns_content_hash = Some hash, ns_content_fingerprint = None, ns_size_bytes = bytes, ns_modified_at_unix = None, ns_media = None\<rparr>"

definition directory_entry :: "string \<Rightarrow> 'm namespace_entry" where
  "directory_entry path = \<lparr>ns_path = normalize_path path, ns_kind = Directory, ns_object_id = None, ns_version = None,
     ns_content_hash = None, ns_content_fingerprint = None, ns_size_bytes = None, ns_modified_at_unix = None, ns_media = None\<rparr>"

definition with_object_id :: "string \<Rightarrow> 'm namespace_entry \<Rightarrow> 'm namespace_entry" where
  "with_object_id object_id e = e\<lparr>ns_object_id := (if trim object_id \<noteq> [] then Some object_id else None)\<rparr>"

section \<open>Planning\<close>

definition placeholder_content_hash :: "string \<Rightarrow> 'm namespace_entry \<Rightarrow> string" where
  "placeholder_content_hash path remote = unwrap_or (''server-head:'' @ path) (ns_content_hash remote)"

text \<open>The body of the loop over the paths.\<close>

definition plan_path :: "sync_policy \<Rightarrow> string \<Rightarrow> 'm local_entry option \<Rightarrow> 'm namespace_entry option \<Rightarrow> sync_operation option" where
  "plan_path policy path local_opt remote_opt =
     (case (local_opt, remote_opt) of
        (Some l, Some r) \<Rightarrow>
          if ns_kind (lo_namespace l) = Directory \<or> ns_kind r = Directory then None
          else if ns_version (lo_namespace l) = ns_version r \<and> ns_content_hash (lo_namespace l) = ns_content_hash r
          then (if lo_pin_state l = Pinned \<and> lo_hydration_state l = Placeholder
                then Some (Hydrate path (unwrap_or [] (ns_version r)) (placeholder_content_hash path r)) else None)
          else if lo_hydration_state l = Hydrated \<and> ns_version (lo_namespace l) \<noteq> None \<and> ns_version r \<noteq> None
          then Some (Conflict path (ns_version (lo_namespace l)) (ns_version r) (Some (placeholder_content_hash path r)))
          else Some (Hydrate path (unwrap_or [] (ns_version r)) (placeholder_content_hash path r))
      | (Some l, None) \<Rightarrow>
          if ns_kind (lo_namespace l) = Directory then None
          else if sp_treat_missing_remote_as_upload policy then Some (Upload path (ns_version (lo_namespace l))) else None
      | (None, Some r) \<Rightarrow>
          if ns_kind r = Directory then Some (CreateDirectory path)
          else if sp_create_local_placeholders_for_remote_only policy
          then Some (EnsurePlaceholder path (unwrap_or [] (ns_version r)) (placeholder_content_hash path r)) else None
      | (None, None) \<Rightarrow> None)"

definition local_map :: "'m sync_snapshot \<Rightarrow> (string, 'm local_entry) btreemap" where
  "local_map snapshot = bt_collect (map (\<lambda>e. (ns_path (lo_namespace e), e)) (sn_local snapshot))"

definition remote_map :: "'m sync_snapshot \<Rightarrow> (string, 'm namespace_entry) btreemap" where
  "remote_map snapshot = bt_collect (map (\<lambda>e. (ns_path e, e)) (sn_remote snapshot))"

definition plan_sync :: "'m sync_snapshot \<Rightarrow> sync_policy \<Rightarrow> sync_operation list" where
  "plan_sync snapshot policy =
     (let locals = local_map snapshot; remotes = remote_map snapshot
      in List.map_filter (\<lambda>path. plan_path policy path (map_of locals path) (map_of remotes path))
           (bts_collect (map fst locals @ map fst remotes)))"

section \<open>Actions of the FUSE adapter\<close>

datatype fuse_action =
    FuseEnsureDirectory string
  | FuseEnsurePlaceholder string string string "u64 option"
  | FuseHydrateOnRead string string string "u64 option"
  | FuseUploadOnFlush string "string option"
  | FuseMarkConflict string "string option" "string option" "string option" "u64 option"
  | FuseRemovePath string

fun map_sync_operation :: "(string, u64) hashmap \<Rightarrow> sync_operation \<Rightarrow> fuse_action" where
  "map_sync_operation sizes (CreateDirectory path) = FuseEnsureDirectory path"
| "map_sync_operation sizes (EnsurePlaceholder path v h) = FuseEnsurePlaceholder path v h (map_of sizes path)"
| "map_sync_operation sizes (Hydrate path v h) = FuseHydrateOnRead path v h (map_of sizes path)"
| "map_sync_operation sizes (Upload path v) = FuseUploadOnFlush path v"
| "map_sync_operation sizes (Conflict path lv rv h) = FuseMarkConflict path lv rv h (map_of sizes path)"

definition map_sync_plan_to_fuse_actions :: "sync_operation list \<Rightarrow> (string, u64) hashmap \<Rightarrow> fuse_action list" where
  "map_sync_plan_to_fuse_actions plan sizes = map (map_sync_operation sizes) plan"

definition remote_sizes_by_path :: "'m sync_snapshot \<Rightarrow> (string, u64) hashmap" where
  "remote_sizes_by_path snapshot =
     fold (\<lambda>e m. case ns_size_bytes e of None \<Rightarrow> m | Some n \<Rightarrow> hm_insert (ns_path e) n m) (sn_remote snapshot) []"

definition plan_actions :: "'m sync_snapshot \<Rightarrow> sync_policy \<Rightarrow> fuse_action list" where
  "plan_actions snapshot policy =
     map_sync_plan_to_fuse_actions (plan_sync snapshot policy) (remote_sizes_by_path snapshot)"

section \<open>Comparison of snapshots\<close>

datatype 'm remote_object_change =
    Created "'m namespace_entry"
  | Modified "'m namespace_entry" "'m namespace_entry"
  | Renamed "'m namespace_entry" "'m namespace_entry"
  | Deleted "'m namespace_entry"
  | LegacyPathChanged string

definition entry_eq :: "('m option \<Rightarrow> 'm option \<Rightarrow> bool) \<Rightarrow> 'm namespace_entry \<Rightarrow> 'm namespace_entry \<Rightarrow> bool" where
  "entry_eq media_eq a b \<longleftrightarrow> a\<lparr>ns_media := None\<rparr> = b\<lparr>ns_media := None\<rparr> \<and> media_eq (ns_media a) (ns_media b)"

definition used_object_id :: "'m namespace_entry \<Rightarrow> string option" where
  "used_object_id e = opt_filter (\<lambda>i. i \<noteq> []) (map_option trim (ns_object_id e))"

definition add_remote_file ::
  "'m namespace_entry \<Rightarrow> (string, 'm namespace_entry) btreemap \<times> string list \<Rightarrow> (string, 'm namespace_entry) btreemap \<times> string list" where
  "add_remote_file e acc =
     (case acc of (unique, ambiguous) \<Rightarrow>
        case used_object_id e of
          None \<Rightarrow> acc
        | Some object_id \<Rightarrow>
            if object_id \<in> set ambiguous then acc
            else if (case map_of unique object_id of None \<Rightarrow> False | Some existing \<Rightarrow> ns_path existing = ns_path e) then acc
            else if map_of unique object_id \<noteq> None then (bt_remove object_id (bt_insert object_id e unique), bts_collect (object_id # ambiguous))
            else (bt_insert object_id e unique, ambiguous))"

definition remote_files_by_object_id :: "'m sync_snapshot \<Rightarrow> (string, 'm namespace_entry) btreemap \<times> string list" where
  "remote_files_by_object_id snapshot = fold add_remote_file (sn_remote snapshot) ([], [])"

definition remote_entry_signature ::
  "'m namespace_entry \<Rightarrow> file_kind \<times> string option \<times> string option \<times> string option \<times> string option \<times> u64 option" where
  "remote_entry_signature e =
     (ns_kind e, ns_object_id e, ns_version e, ns_content_hash e, ns_content_fingerprint e, ns_size_bytes e)"

definition legacy_remote_snapshot_index ::
  "'m sync_snapshot \<Rightarrow> (string, file_kind \<times> string option \<times> string option \<times> string option \<times> string option \<times> u64 option) btreemap" where
  "legacy_remote_snapshot_index snapshot =
     bt_collect (map (\<lambda>e. (ns_path e, remote_entry_signature e)) (filter (\<lambda>e. used_object_id e = None) (sn_remote snapshot)))"

definition remote_snapshot_index ::
  "'m sync_snapshot \<Rightarrow> (string, file_kind \<times> string option \<times> string option \<times> string option \<times> string option \<times> u64 option) btreemap" where
  "remote_snapshot_index snapshot = bt_collect (map (\<lambda>e. (ns_path e, remote_entry_signature e)) (sn_remote snapshot))"

definition changed_paths_between :: "'m sync_snapshot \<Rightarrow> 'm sync_snapshot \<Rightarrow> string list" where
  "changed_paths_between previous current =
     (let p = remote_snapshot_index previous; c = remote_snapshot_index current
      in filter (\<lambda>path. map_of p path \<noteq> map_of c path) (bts_collect (map fst p @ map fst c)))"

text \<open>The change of one object id.\<close>

definition object_change ::
  "('m option \<Rightarrow> 'm option \<Rightarrow> bool) \<Rightarrow> 'm namespace_entry option \<Rightarrow> 'm namespace_entry option \<Rightarrow> 'm remote_object_change option" where
  "object_change media_eq previous current =
     (case (previous, current) of
        (Some p, Some c) \<Rightarrow>
          if ns_path p \<noteq> ns_path c then Some (Renamed p c)
          else if \<not> entry_eq media_eq p c then Some (Modified p c) else None
      | (Some p, None) \<Rightarrow> Some (Deleted p)
      | (None, Some c) \<Rightarrow> Some (Created c)
      | (None, None) \<Rightarrow> None)"

definition object_changes_between ::
  "('m option \<Rightarrow> 'm option \<Rightarrow> bool) \<Rightarrow> 'm sync_snapshot \<Rightarrow> 'm sync_snapshot \<Rightarrow> 'm remote_object_change list" where
  "object_changes_between media_eq previous current =
     (case remote_files_by_object_id previous of (p, p_ambiguous) \<Rightarrow>
      case remote_files_by_object_id current of (c, c_ambiguous) \<Rightarrow>
        List.map_filter (\<lambda>i. if i \<in> set p_ambiguous \<or> i \<in> set c_ambiguous then None
                             else object_change media_eq (map_of p i) (map_of c i))
          (bts_collect (map fst p @ map fst c)) @
        (let pl = legacy_remote_snapshot_index previous; cl = legacy_remote_snapshot_index current
         in map LegacyPathChanged (filter (\<lambda>path. map_of pl path \<noteq> map_of cl path) (bts_collect (map fst pl @ map fst cl)))))"

text \<open>The update a new snapshot gives, if any; the new snapshot becomes the current one.\<close>

definition apply_snapshot_update_with_unchanged_refresh ::
  "('m option \<Rightarrow> 'm option \<Rightarrow> bool) \<Rightarrow> 'm sync_snapshot option \<Rightarrow> 'm sync_snapshot \<Rightarrow> bool
     \<Rightarrow> ('m sync_snapshot \<times> string list \<times> 'm remote_object_change list) option \<times> 'm sync_snapshot option" where
  "apply_snapshot_update_with_unchanged_refresh media_eq current next_snapshot refresh =
     (case current of
        None \<Rightarrow> None
      | Some previous \<Rightarrow>
          let changed_paths = changed_paths_between previous next_snapshot
          in if changed_paths \<noteq> [] \<or> refresh
             then Some (next_snapshot, changed_paths, object_changes_between media_eq previous next_snapshot) else None,
      Some next_snapshot)"

section \<open>Looking up collected maps\<close>

lemma map_of_keyed: "map_of (map (\<lambda>e. (f e, g e)) es) k = map_option g (find (\<lambda>e. f e = k) es)"
  by (induction es) auto

text \<open>Collecting pairs into a map keeps the last value of a key.\<close>

lemma map_of_collect_map:
  "map_of (bt_collect (map (\<lambda>e. (f e, g e)) es)) k = map_option g (find (\<lambda>e. f e = k) (rev es))"
  by (simp add: bt.get_collect [OF bt.ok_Nil] rev_map map_of_keyed)

definition latest_local :: "'m sync_snapshot \<Rightarrow> string \<Rightarrow> 'm local_entry option" where
  "latest_local s p = find (\<lambda>e. ns_path (lo_namespace e) = p) (rev (sn_local s))"

definition latest_remote :: "'m sync_snapshot \<Rightarrow> string \<Rightarrow> 'm namespace_entry option" where
  "latest_remote s p = find (\<lambda>e. ns_path e = p) (rev (sn_remote s))"

lemma map_of_local_map: "map_of (local_map s) p = latest_local s p"
  by (simp add: local_map_def latest_local_def map_of_collect_map option.map_ident)

lemma map_of_remote_map: "map_of (remote_map s) p = latest_remote s p"
  by (simp add: remote_map_def latest_remote_def map_of_collect_map option.map_ident)

section \<open>What a plan holds\<close>

fun op_path :: "sync_operation \<Rightarrow> string" where
  "op_path (EnsurePlaceholder p v h) = p"
| "op_path (Hydrate p v h) = p"
| "op_path (Upload p v) = p"
| "op_path (Conflict p lv rv h) = p"
| "op_path (CreateDirectory p) = p"

fun action_path :: "fuse_action \<Rightarrow> string" where
  "action_path (FuseEnsureDirectory p) = p"
| "action_path (FuseEnsurePlaceholder p v h n) = p"
| "action_path (FuseHydrateOnRead p v h n) = p"
| "action_path (FuseUploadOnFlush p v) = p"
| "action_path (FuseMarkConflict p lv rv h n) = p"
| "action_path (FuseRemovePath p) = p"

lemma plan_path_path: "plan_path policy p l r = Some op \<Longrightarrow> op_path op = p"
  by (auto simp: plan_path_def split: option.splits if_splits)

lemma action_path_map [simp]: "action_path (map_sync_operation sizes op) = op_path op"
  by (cases op) auto

lemma filter_map_filter_key:
  assumes "\<And>x y. f x = Some y \<Longrightarrow> key y = x" "distinct xs"
  shows "filter (\<lambda>y. key y = k) (List.map_filter f xs) =
    (if k \<in> set xs then case f k of None \<Rightarrow> [] | Some y \<Rightarrow> [y] else [])"
  using assms(2)
proof (induction xs)
  case (Cons x xs)
  then show ?case using assms(1) by (cases "f x") (auto simp: map_filter_simps split: option.splits)
qed (simp add: map_filter_simps)

lemma map_filter_keys_sorted:
  assumes "\<And>x y. f x = Some y \<Longrightarrow> key y = x" "sorted_wrt (<) (xs :: 'a :: linorder list)"
  shows "sorted_wrt (<) (map key (List.map_filter f xs))"
proof -
  have "map key (List.map_filter f xs) = filter (\<lambda>x. f x \<noteq> None) xs"
    using assms(1) by (induction xs) (auto simp: map_filter_simps split: option.splits)
  then show ?thesis using assms(2) by (simp add: sorted_wrt_filter)
qed

lemma plan_sync_at:
  "filter (\<lambda>op. op_path op = p) (plan_sync s policy) =
     (case plan_path policy p (latest_local s p) (latest_remote s p) of None \<Rightarrow> [] | Some op \<Rightarrow> [op])"
proof -
  have out: "plan_path policy p (latest_local s p) (latest_remote s p) = None"
    if "p \<notin> fst ` set (local_map s)" "p \<notin> fst ` set (remote_map s)"
    using that map_of_local_map [of s p] map_of_remote_map [of s p]
    by (simp add: plan_path_def flip: map_of_eq_None_iff)
  show ?thesis
    unfolding plan_sync_def Let_def
    by (subst filter_map_filter_key)
      (use out in \<open>auto simp: map_of_local_map map_of_remote_map dest: plan_path_path\<close>)
qed

lemma plan_sync_sorted: "sorted_wrt (<) (map op_path (plan_sync s policy))"
  unfolding plan_sync_def Let_def by (rule map_filter_keys_sorted) (auto dest: plan_path_path)

lemma plan_actions_at:
  "filter (\<lambda>a. action_path a = p) (plan_actions s policy) =
     map (map_sync_operation (remote_sizes_by_path s)) (filter (\<lambda>op. op_path op = p) (plan_sync s policy))"
  by (simp add: plan_actions_def map_sync_plan_to_fuse_actions_def filter_map comp_def)

text \<open>Both sides have their own data of the same file.\<close>

definition diverged :: "'m local_entry \<Rightarrow> 'm namespace_entry \<Rightarrow> bool" where
  "diverged l r \<longleftrightarrow> ns_kind (lo_namespace l) = File \<and> ns_kind r = File \<and> lo_hydration_state l = Hydrated \<and>
     ns_version (lo_namespace l) \<noteq> None \<and> ns_version r \<noteq> None \<and>
     (ns_version (lo_namespace l) \<noteq> ns_version r \<or> ns_content_hash (lo_namespace l) \<noteq> ns_content_hash r)"

text \<open>Either side changed the file since the other saw it.\<close>

definition differs :: "'m local_entry \<Rightarrow> 'm namespace_entry \<Rightarrow> bool" where
  "differs l r \<longleftrightarrow> ns_version (lo_namespace l) \<noteq> ns_version r \<or> ns_content_hash (lo_namespace l) \<noteq> ns_content_hash r"

abbreviation actions_at :: "string \<Rightarrow> 'm sync_snapshot \<Rightarrow> sync_policy \<Rightarrow> fuse_action list" where
  "actions_at p s policy \<equiv> filter (\<lambda>a. action_path a = p) (plan_actions s policy)"

lemma file_kind_neq [simp]: "k \<noteq> Directory \<longleftrightarrow> k = File"
  by (cases k) auto

lemma plan_actions_sorted: "sorted_wrt (<) (map action_path (plan_actions s policy))"
  using plan_sync_sorted [of s policy] by (simp add: plan_actions_def map_sync_plan_to_fuse_actions_def comp_def)


definition sample_file :: "string \<Rightarrow> string \<Rightarrow> unit namespace_entry" where
  "sample_file path version = file_sized path version (''h-'' @ version) (Some 3)"

definition sample_snapshot :: "unit sync_snapshot" where
  "sample_snapshot = \<lparr>sn_local = [\<lparr>lo_namespace = sample_file ''b'' ''v1'', lo_pin_state = Unpinned, lo_hydration_state = Hydrated\<rparr>],
     sn_remote = [sample_file ''b'' ''v2'', sample_file ''a'' ''v1'']\<rparr>"


section \<open>Object ids of a snapshot\<close>

definition listed :: "'m namespace_entry list \<Rightarrow> string \<Rightarrow> bool" where
  "listed es i \<longleftrightarrow> (\<exists>e \<in> set es. used_object_id e = Some i)"

definition shared_id :: "'m namespace_entry list \<Rightarrow> string \<Rightarrow> bool" where
  "shared_id es i \<longleftrightarrow> (\<exists>e \<in> set es. \<exists>e' \<in> set es. used_object_id e = Some i \<and> used_object_id e' = Some i \<and> ns_path e \<noteq> ns_path e')"

text \<open>The entry of an object id that names one path only.\<close>

definition sole_entry :: "'m namespace_entry list \<Rightarrow> string \<Rightarrow> 'm namespace_entry option" where
  "sole_entry es i = (if shared_id es i then None else find (\<lambda>e. used_object_id e = Some i) es)"

lemma find_append: "find P (xs @ ys) = (case find P xs of None \<Rightarrow> find P ys | Some x \<Rightarrow> Some x)"
  by (induction xs) auto

definition files_ok :: "'m namespace_entry list \<Rightarrow> (string, 'm namespace_entry) btreemap \<times> string list \<Rightarrow> bool" where
  "files_ok es acc \<longleftrightarrow> bt_ok (fst acc) \<and> (\<forall>i. i \<in> set (snd acc) \<longleftrightarrow> shared_id es i) \<and> map_of (fst acc) = sole_entry es"

lemma differing_pair_insert:
  "(\<exists>x \<in> insert e S. \<exists>y \<in> insert e S. f x \<noteq> f y) \<longleftrightarrow> (\<exists>x \<in> S. \<exists>y \<in> S. f x \<noteq> f y) \<or> (\<exists>x \<in> S. f x \<noteq> f e)"
  by (simp only: bex_simps) metis

lemma shared_id_set:
  "shared_id es i \<longleftrightarrow> (\<exists>x \<in> {x \<in> set es. used_object_id x = Some i}. \<exists>y \<in> {x \<in> set es. used_object_id x = Some i}. ns_path x \<noteq> ns_path y)"
  by (auto simp: shared_id_def)

lemma shared_id_snoc:
  "shared_id (es @ [e]) i \<longleftrightarrow> shared_id es i \<or>
     used_object_id e = Some i \<and> (\<exists>x \<in> set es. used_object_id x = Some i \<and> ns_path x \<noteq> ns_path e)"
proof -
  have "{x \<in> set (es @ [e]). used_object_id x = Some i} =
    (if used_object_id e = Some i then insert e {x \<in> set es. used_object_id x = Some i} else {x \<in> set es. used_object_id x = Some i})"
    by auto
  then show ?thesis by (simp only: shared_id_set differing_pair_insert split: if_splits) auto
qed

lemma find_used_Some: "find (\<lambda>e. used_object_id e = Some i) es = Some x \<Longrightarrow> x \<in> set es \<and> used_object_id x = Some i"
  by (auto simp: find_Some_iff)

lemma sole_entry_snoc_other: "used_object_id e \<noteq> Some i \<Longrightarrow> sole_entry (es @ [e]) i = sole_entry es i"
  by (auto simp: sole_entry_def shared_id_snoc find_append split: option.splits)

lemma find_None_used: "find (\<lambda>e. used_object_id e = Some i) es = None \<longleftrightarrow> \<not> listed es i"
  by (auto simp: find_None_iff listed_def)

lemma files_ok_none:
  assumes "used_object_id e = None" "files_ok es acc"
  shows "files_ok (es @ [e]) (add_remote_file e acc)"
proof -
  have "sole_entry (es @ [e]) = sole_entry es" using assms(1) by (simp add: fun_eq_iff sole_entry_snoc_other)
  then show ?thesis using assms by (cases acc) (simp add: files_ok_def add_remote_file_def shared_id_snoc)
qed

text \<open>An entry changes the lookup of its own object id only.\<close>

lemma files_okI:
  assumes "files_ok es (u, a)" "used_object_id e = Some i" "bt_ok u'"
    and "\<And>j. j \<noteq> i \<Longrightarrow> map_of u' j = map_of u j" "map_of u' i = sole_entry (es @ [e]) i"
    and "\<And>j. j \<noteq> i \<Longrightarrow> j \<in> set a' \<longleftrightarrow> j \<in> set a" "i \<in> set a' \<longleftrightarrow> shared_id (es @ [e]) i"
  shows "files_ok (es @ [e]) (u', a')"
proof -
  have "map_of u' j = sole_entry (es @ [e]) j" for j
    using assms by (cases "j = i") (simp_all add: files_ok_def sole_entry_snoc_other)
  moreover have "j \<in> set a' \<longleftrightarrow> shared_id (es @ [e]) j" for j
    using assms by (cases "j = i") (simp_all add: files_ok_def shared_id_snoc)
  ultimately show ?thesis using assms(3) by (simp add: files_ok_def fun_eq_iff)
qed

lemma sole_entry_snoc:
  assumes "used_object_id e = Some i"
  shows "sole_entry (es @ [e]) i = (if shared_id (es @ [e]) i then None else if listed es i then sole_entry es i else Some e)"
proof (cases "find (\<lambda>e. used_object_id e = Some i) es")
  case None
  then show ?thesis using assms find_None_used [of i es] by (simp add: sole_entry_def find_append)
next
  case (Some x)
  then have "listed es i" using find_None_used [of i es] by simp
  then show ?thesis using Some by (simp add: sole_entry_def find_append shared_id_snoc)
qed

lemma sole_entry_SomeD:
  assumes "sole_entry es i = Some x"
  shows "listed es i" "\<not> shared_id es i" "y \<in> set es \<Longrightarrow> used_object_id y = Some i \<Longrightarrow> ns_path y = ns_path x"
proof -
  have x: "\<not> shared_id es i" "x \<in> set es" "used_object_id x = Some i"
    using assms find_used_Some [of i es x] by (auto simp: sole_entry_def split: if_splits)
  then show "listed es i" "\<not> shared_id es i" by (auto simp: listed_def)
  show "y \<in> set es \<Longrightarrow> used_object_id y = Some i \<Longrightarrow> ns_path y = ns_path x"
    using x unfolding shared_id_def by blast
qed

lemma sole_entry_NoneD: "sole_entry es i = None \<Longrightarrow> \<not> shared_id es i \<Longrightarrow> \<not> listed es i"
  by (simp add: sole_entry_def find_None_used)

lemma shared_id_snoc_sole:
  assumes "used_object_id e = Some i" "sole_entry es i = Some x"
  shows "shared_id (es @ [e]) i \<longleftrightarrow> ns_path x \<noteq> ns_path e"
proof -
  have "x \<in> set es" "used_object_id x = Some i"
    using assms(2) find_used_Some [of i es x] by (auto simp: sole_entry_def split: if_splits)
  then show ?thesis using assms(1) sole_entry_SomeD [OF assms(2)] unfolding shared_id_snoc by metis
qed

lemma files_ok_step:
  assumes ok: "files_ok es acc"
  shows "files_ok (es @ [e]) (add_remote_file e acc)"
proof (cases "used_object_id e")
  case None
  then show ?thesis using ok by (rule files_ok_none)
next
  case (Some i)
  obtain u a where acc: "acc = (u, a)" by (cases acc)
  have u: "bt_ok u" and a: "i \<in> set a \<longleftrightarrow> shared_id es i" and m: "map_of u i = sole_entry es i"
    using ok by (simp_all add: files_ok_def acc)
  note I = files_okI [OF ok [unfolded acc] Some]
  consider "shared_id es i" | "\<not> shared_id es i" "sole_entry es i = None"
    | x where "\<not> shared_id es i" "sole_entry es i = Some x" by (cases "sole_entry es i") blast+
  then show ?thesis
  proof cases
    case 1
    then have "shared_id (es @ [e]) i" "sole_entry es i = None" by (simp_all add: shared_id_snoc sole_entry_def)
    then show ?thesis using 1 u a m by (simp add: acc add_remote_file_def Some I sole_entry_snoc)
  next
    case 2
    then have n: "\<not> listed es i" by (rule sole_entry_NoneD [rotated])
    then have "\<not> shared_id (es @ [e]) i" using 2(1) by (auto simp: shared_id_snoc listed_def)
    then show ?thesis using 2 n u a m by (simp add: acc add_remote_file_def Some I sole_entry_snoc bt_ok_insert)
  next
    case 3
    note sh = shared_id_snoc_sole [OF Some 3(2)] and l = sole_entry_SomeD(1) [OF 3(2)]
    show ?thesis
    proof (cases "ns_path x = ns_path e")
      case True
      then show ?thesis using 3 u a m sh l by (simp add: acc add_remote_file_def Some I sole_entry_snoc)
    next
      case False
      then show ?thesis using 3 u a m sh
        by (auto simp: acc add_remote_file_def Some sole_entry_snoc bt_ok_insert bt_ok_remove map_of_bt_remove set_insort_key intro!: I)
    qed
  qed
qed

lemma files_ok_remote: "files_ok (sn_remote s) (remote_files_by_object_id s)"
proof -
  have "files_ok es (fold add_remote_file es ([], []))" for es :: "'a namespace_entry list"
  proof (induction es rule: rev_induct)
    case Nil
    show ?case by (simp add: files_ok_def bt_ok_def shared_id_def sole_entry_def fun_eq_iff)
  qed (simp add: files_ok_step)
  then show ?thesis by (simp add: remote_files_by_object_id_def)
qed

section \<open>Changes between snapshots\<close>

lemma map_filter_set: "y \<in> set (List.map_filter f xs) \<longleftrightarrow> (\<exists>x \<in> set xs. f x = Some y)"
  by (force simp: List.map_filter_def)

lemma object_change_None [simp]: "object_change media_eq None None = None"
  by (simp add: object_change_def)

abbreviation sole :: "'m sync_snapshot \<Rightarrow> string \<Rightarrow> 'm namespace_entry option" where
  "sole s \<equiv> sole_entry (sn_remote s)"

lemma in_object_changes:
  assumes "\<And>p. c \<noteq> LegacyPathChanged p"
  shows "c \<in> set (object_changes_between media_eq a b) \<longleftrightarrow>
    (\<exists>i. \<not> shared_id (sn_remote a) i \<and> \<not> shared_id (sn_remote b) i \<and> object_change media_eq (sole a i) (sole b i) = Some c)"
proof -
  obtain p pa where p: "remote_files_by_object_id a = (p, pa)" by force
  obtain q qa where q: "remote_files_by_object_id b = (q, qa)" by force
  have ok: "map_of p = sole a" "map_of q = sole b"
    "\<And>i. i \<in> set pa \<longleftrightarrow> shared_id (sn_remote a) i" "\<And>i. i \<in> set qa \<longleftrightarrow> shared_id (sn_remote b) i"
    using files_ok_remote [of a] files_ok_remote [of b] by (simp_all add: files_ok_def p q)
  have dom: "i \<in> fst ` set p \<or> i \<in> fst ` set q \<longleftrightarrow> sole a i \<noteq> None \<or> sole b i \<noteq> None" for i
    using map_of_eq_None_iff [of p i] map_of_eq_None_iff [of q i] ok(1,2) by simp
  have "c \<in> set (object_changes_between media_eq a b) \<longleftrightarrow>
    (\<exists>i. (i \<in> fst ` set p \<or> i \<in> fst ` set q) \<and> \<not> shared_id (sn_remote a) i \<and> \<not> shared_id (sn_remote b) i \<and>
      object_change media_eq (sole a i) (sole b i) = Some c)"
    using assms by (auto simp: object_changes_between_def p q Let_def map_filter_set ok Bex_def split: if_splits)
  moreover have "i \<in> fst ` set p \<or> i \<in> fst ` set q" if "object_change media_eq (sole a i) (sole b i) = Some c" for i
    unfolding dom using that by (metis object_change_None option.distinct(1))
  ultimately show ?thesis by blast
qed

lemma sole_None: "\<not> shared_id es i \<Longrightarrow> sole_entry es i = None \<longleftrightarrow> \<not> listed es i"
  by (simp add: sole_entry_def find_None_used)

lemma sole_Some_unshared: "sole_entry es i = Some e \<Longrightarrow> \<not> shared_id es i"
  by (rule sole_entry_SomeD)

lemma unlisted_unshared: "\<not> listed es i \<Longrightarrow> \<not> shared_id es i"
  by (auto simp: listed_def shared_id_def)

lemma object_change_iffs:
  "object_change media_eq p q = Some (Created e) \<longleftrightarrow> p = None \<and> q = Some e"
  "object_change media_eq p q = Some (Deleted e) \<longleftrightarrow> p = Some e \<and> q = None"
  "object_change media_eq p q = Some (Renamed e e') \<longleftrightarrow> p = Some e \<and> q = Some e' \<and> ns_path e \<noteq> ns_path e'"
  "object_change media_eq p q = Some (Modified e e') \<longleftrightarrow> p = Some e \<and> q = Some e' \<and> ns_path e = ns_path e' \<and> \<not> entry_eq media_eq e e'"
  by (auto simp: object_change_def split: option.splits if_splits)

text \<open>C38: The changes between two snapshots are exact for every object id that names one path in
  each snapshot: an object is created (deleted) exactly when only the current (previous) snapshot
  lists its id, renamed exactly when both list it under different paths, and modified exactly when
  the path is the same and the entries differ.  An id listed under two paths gives no change.\<close>

theorem object_changes_exact:
  "(Created e \<in> set (object_changes_between media_eq a b) \<longleftrightarrow> (\<exists>i. \<not> listed (sn_remote a) i \<and> sole b i = Some e)) \<and>
   (Deleted e \<in> set (object_changes_between media_eq a b) \<longleftrightarrow> (\<exists>i. sole a i = Some e \<and> \<not> listed (sn_remote b) i)) \<and>
   (Renamed e e' \<in> set (object_changes_between media_eq a b) \<longleftrightarrow>
     (\<exists>i. sole a i = Some e \<and> sole b i = Some e' \<and> ns_path e \<noteq> ns_path e')) \<and>
   (Modified e e' \<in> set (object_changes_between media_eq a b) \<longleftrightarrow>
     (\<exists>i. sole a i = Some e \<and> sole b i = Some e' \<and> ns_path e = ns_path e' \<and> \<not> entry_eq media_eq e e'))"
  by (intro conjI; subst in_object_changes; simp add: object_change_iffs;
      metis sole_None sole_Some_unshared unlisted_unshared)

section \<open>Announced updates\<close>

lemma map_of_index: "map_of (remote_snapshot_index s) p = map_option remote_entry_signature (latest_remote s p)"
  by (simp add: remote_snapshot_index_def latest_remote_def map_of_collect_map)

lemma changed_paths_iff:
  "p \<in> set (changed_paths_between a b) \<longleftrightarrow> map_of (remote_snapshot_index a) p \<noteq> map_of (remote_snapshot_index b) p"
proof -
  have "p \<in> fst ` set (remote_snapshot_index a) \<or> p \<in> fst ` set (remote_snapshot_index b)"
    if "map_of (remote_snapshot_index a) p \<noteq> map_of (remote_snapshot_index b) p"
    using that map_of_eq_None_iff [of "remote_snapshot_index a" p] map_of_eq_None_iff [of "remote_snapshot_index b" p] by metis
  then show ?thesis by (auto simp: changed_paths_between_def Let_def)
qed

text \<open>A consumer that looks again at the announced paths only, and at nothing when no update is
  announced.\<close>

definition observe ::
  "('m option \<Rightarrow> 'm option \<Rightarrow> bool) \<Rightarrow> 'm sync_snapshot option \<times> (string \<Rightarrow> _) \<Rightarrow> 'm sync_snapshot \<times> bool
     \<Rightarrow> 'm sync_snapshot option \<times> (string \<Rightarrow> (file_kind \<times> string option \<times> string option \<times> string option \<times> string option \<times> u64 option) option)" where
  "observe media_eq st input =
     (case apply_snapshot_update_with_unchanged_refresh media_eq (fst st) (fst input) (snd input) of
        (None, current) \<Rightarrow> (current, snd st)
      | (Some (snapshot, changed, changes), current) \<Rightarrow>
          (current, \<lambda>p. if p \<in> set changed then map_option remote_entry_signature (latest_remote snapshot p) else snd st p))"

lemma observe_step:
  "observe media_eq (Some s, \<lambda>p. map_option remote_entry_signature (latest_remote s p)) (s', refresh) =
     (Some s', \<lambda>p. map_option remote_entry_signature (latest_remote s' p))"
proof -
  have "map_option remote_entry_signature (latest_remote s p) = map_option remote_entry_signature (latest_remote s' p)"
    if "p \<notin> set (changed_paths_between s s')" for p
    using that by (simp add: changed_paths_iff map_of_index)
  then show ?thesis
    by (auto simp: observe_def apply_snapshot_update_with_unchanged_refresh_def Let_def fun_eq_iff)
qed


end
