(* ===== verification/Replica_Drop.thy ===== *)
theory Replica_Drop
  imports Store_Properties Replication_Cleanup
begin

text \<open>
  The handler by which a node gives up its copy of a version (\<open>drop_replication_subject\<close> in
  \<open>server-node-sdk/src/lib.rs\<close>): it changes the object store, announces the change, updates the
  node's own cluster view and saves that view.  The counters are 64-bit atomics that wrap around.
  The cached answers themselves are type variables; whether the lock of the retained-content cache
  is free and whether the views can be saved are parameters.
\<close>

section \<open>The state of a server node\<close>

record ('h, 'r) server_state =
  sv_node_id :: node_id
  sv_store :: store
  sv_cluster :: cluster
  sv_store_history_cache :: "'h list"
  sv_store_history_cache_generation :: "64 word"
  sv_namespace_change_sequence :: "64 word"
  sv_namespace_change_tx :: "64 word"
  sv_local_availability_generation :: "64 word"
  sv_retained_content_generation :: "64 word"
  sv_retained_content_cache :: "'r option"
  sv_saved_views :: "(string, node_id list) hashmap \<times> (string, node_id list) hashmap"

section \<open>Operations\<close>

definition invalidate_local_availability_cache :: "('h, 'r) server_state \<Rightarrow> ('h, 'r) server_state" where
  "invalidate_local_availability_cache s = s\<lparr>sv_local_availability_generation := sv_local_availability_generation s + 1\<rparr>"

definition invalidate_retained_content_cache :: "bool \<Rightarrow> ('h, 'r) server_state \<Rightarrow> ('h, 'r) server_state" where
  "invalidate_retained_content_cache lock_free s =
     (let s1 = s\<lparr>sv_retained_content_generation := sv_retained_content_generation s + 1\<rparr>
      in if lock_free then s1\<lparr>sv_retained_content_cache := None\<rparr> else s1)"

text \<open>The counter wraps around, the number that is sent saturates.\<close>

definition publish_namespace_change :: "bool \<Rightarrow> ('h, 'r) server_state \<Rightarrow> ('h, 'r) server_state" where
  "publish_namespace_change lock_free s =
     (let old = sv_namespace_change_sequence s;
          s1 = s\<lparr>sv_store_history_cache_generation := sv_store_history_cache_generation s + 1,
                 sv_store_history_cache := [],
                 sv_namespace_change_sequence := old + 1,
                 sv_namespace_change_tx := (if old = - 1 then old else old + 1)\<rparr>
      in invalidate_retained_content_cache lock_free (invalidate_local_availability_cache s1))"

definition persist_cluster_replicas_state_inner :: "bool \<Rightarrow> bool \<Rightarrow> bool \<Rightarrow> ('h, 'r) server_state \<Rightarrow> ('h, 'r) server_state" where
  "persist_cluster_replicas_state_inner lock_free save_ok invalidate s =
     (let s1 = (if invalidate then invalidate_retained_content_cache lock_free (invalidate_local_availability_cache s) else s)
      in if save_ok
         then s1\<lparr>sv_saved_views := (export_replicas_by_key (sv_cluster s1), export_available_by_key (sv_cluster s1))\<rparr>
         else s1)"

text \<open>The removal of the node's own copy from both views.\<close>

definition forget_own_copy :: "string \<Rightarrow> string option \<Rightarrow> node_id \<Rightarrow> cluster \<Rightarrow> cluster" where
  "forget_own_copy key version n c =
     (let c1 = remove_available key n (remove_replica key n c)
      in case version of
           None \<Rightarrow> c1
         | Some v \<Rightarrow> remove_available (key @ ''@'' @ v) n (remove_replica (key @ ''@'' @ v) n c1))"

text \<open>An error of the store is answered as a bad request.\<close>

definition drop_replication_subject ::
  "store_env \<Rightarrow> bool \<Rightarrow> bool \<Rightarrow> string \<Rightarrow> string option \<Rightarrow> ('h, 'r) server_state \<Rightarrow> bool res \<times> ('h, 'r) server_state" where
  "drop_replication_subject env lock_free save_ok key version s =
     (case drop_replica_subject env key version (sv_store s) of
        (Inl e, st) \<Rightarrow> (Inl e, s\<lparr>sv_store := st\<rparr>)
      | (Inr dropped, st) \<Rightarrow>
          let s1 = s\<lparr>sv_store := st\<rparr>
          in if dropped
             then let s2 = publish_namespace_change lock_free s1;
                      s3 = s2\<lparr>sv_cluster := forget_own_copy key version (sv_node_id s2) (sv_cluster s2)\<rparr>
                  in (Inr True, persist_cluster_replicas_state_inner lock_free save_ok True s3)
             else (Inr False, s1))"

section \<open>Lemmas\<close>

definition stored_version :: "store \<Rightarrow> string \<Rightarrow> string \<Rightarrow> file_version_record option" where
  "stored_version st oid v = Option.bind (map_of (st_indexes st) oid) (\<lambda>idx. version_of idx v)"

lemma forget_own_copy_ok: "cluster_ok c \<Longrightarrow> cluster_ok (forget_own_copy key version n c)"
  unfolding forget_own_copy_def Let_def
  by (cases version) (auto intro!: cluster_step_ok [OF _ cluster_step.remove_available] cluster_step_ok [OF _ cluster_step.remove_replica])

lemma forget_own_copy_held:
  "held (cl_available (forget_own_copy key (Some v) n c)) = held (cl_available c) - {(key, n), (key @ ''@'' @ v, n)}"
  "held (cl_replicas (forget_own_copy key (Some v) n c)) = held (cl_replicas c) - {(key, n), (key @ ''@'' @ v, n)}"
  by (auto simp: forget_own_copy_def remove_available_def remove_replica_def held_remove)

lemma handler_fields [simp]:
  "sv_store (publish_namespace_change b s) = sv_store s" "sv_cluster (publish_namespace_change b s) = sv_cluster s"
  "sv_node_id (publish_namespace_change b s) = sv_node_id s"
  "sv_namespace_change_sequence (publish_namespace_change b s) = sv_namespace_change_sequence s + 1"
  "sv_store_history_cache (publish_namespace_change b s) = []"
  "sv_store (persist_cluster_replicas_state_inner b ok k s) = sv_store s"
  "sv_cluster (persist_cluster_replicas_state_inner b ok k s) = sv_cluster s"
  "sv_namespace_change_sequence (persist_cluster_replicas_state_inner b ok k s) = sv_namespace_change_sequence s"
  "sv_store_history_cache (persist_cluster_replicas_state_inner b ok k s) = sv_store_history_cache s"
  by (simp_all add: publish_namespace_change_def persist_cluster_replicas_state_inner_def
      invalidate_local_availability_cache_def invalidate_retained_content_cache_def Let_def)

lemma saved_views:
  "sv_saved_views (persist_cluster_replicas_state_inner b True k s) =
     (export_replicas_by_key (sv_cluster s), export_available_by_key (sv_cluster s))"
  by (simp add: persist_cluster_replicas_state_inner_def invalidate_local_availability_cache_def
      invalidate_retained_content_cache_def Let_def)

lemma stored_version_load:
  assumes "store_ok st" "load_version_index_by_object_id env st oid = Some idx"
  shows "stored_version st oid w = version_of idx w"
  using assms(2) unfolding load_index [OF assms(1)] by (auto simp: stored_version_def)

lemma stored_version_unloaded:
  "store_ok st \<Longrightarrow> load_version_index_by_object_id env st oid = None \<Longrightarrow> stored_version st oid w = None"
  by (simp add: stored_version_def load_index)

lemma stored_version_dropped:
  assumes "map_of (st_indexes st') = (map_of (st_indexes st))(oid \<mapsto> index_row (drop_version v idx))"
    and "\<And>w. stored_version st oid w = version_of idx w"
  shows "stored_version st' o' w = (if o' = oid \<and> w = v then None else stored_version st o' w)"
proof (cases "o' = oid")
  case True
  have "version_of (drop_version v idx) w = (if w = v then None else version_of idx w)"
    by (simp add: drop_version_def Let_def delete_conv')
  then show ?thesis using True assms by (simp add: stored_version_def)
qed (simp add: stored_version_def assms(1))

text \<open>What a completed drop of version \<open>v\<close> of the object \<open>oid\<close> at \<open>key\<close> leaves behind.\<close>

definition version_given_up :: "string \<Rightarrow> string \<Rightarrow> string \<Rightarrow> ('h, 'r) server_state \<Rightarrow> ('h, 'r) server_state \<Rightarrow> bool" where
  "version_given_up key v oid s s' \<longleftrightarrow>
     (\<forall>o' w. stored_version (sv_store s') o' w = (if o' = oid \<and> w = v then None else stored_version (sv_store s) o' w)) \<and>
     (\<forall>k. k \<noteq> key \<longrightarrow> current_entry (sv_store s') k = current_entry (sv_store s) k) \<and>
     st_content (sv_store s') = st_content (sv_store s) \<and>
     held (cl_available (sv_cluster s')) = held (cl_available (sv_cluster s)) - {(key, sv_node_id s), (key @ ''@'' @ v, sv_node_id s)} \<and>
     held (cl_replicas (sv_cluster s')) = held (cl_replicas (sv_cluster s)) - {(key, sv_node_id s), (key @ ''@'' @ v, sv_node_id s)} \<and>
     sv_namespace_change_sequence s' = sv_namespace_change_sequence s + 1 \<and> sv_store_history_cache s' = []"

lemma drop_completed:
  assumes "store_ok (sv_store s)" "cluster_ok (sv_cluster s)"
    and drop: "drop_replica_subject env key (Some v) (sv_store s) = (Inr True, st)" "store_ok st"
    and at: "load_version_index_by_object_id env (sv_store s) oid = Some idx"
    and st: "map_of (st_indexes st) = (map_of (st_indexes (sv_store s)))(oid \<mapsto> index_row (drop_version v idx))"
      "st_content st = st_content (sv_store s)" "\<forall>k. k \<noteq> key \<longrightarrow> current_entry st k = current_entry (sv_store s) k"
  shows "\<exists>s'. drop_replication_subject env lock_free save_ok key (Some v) s = (Inr True, s') \<and>
    store_ok (sv_store s') \<and> cluster_ok (sv_cluster s') \<and> version_given_up key v oid s s' \<and>
    (save_ok \<longrightarrow> sv_saved_views s' = (export_replicas_by_key (sv_cluster s'), export_available_by_key (sv_cluster s')))"
proof -
  have versions: "stored_version st o' w = (if o' = oid \<and> w = v then None else stored_version (sv_store s) o' w)" for o' w
    by (rule stored_version_dropped [OF st(1)]) (rule stored_version_load [OF assms(1) at])
  show ?thesis
    unfolding drop_replication_subject_def drop(1) prod.case sum.case Let_def if_True
    by (cases save_ok)
      (simp_all add: version_given_up_def drop(2) forget_own_copy_ok [OF assms(2)] forget_own_copy_held versions st(2,3) saved_views)
qed

end
