(* ===== verification/Spec2Isabelle.thy ===== *)
theory Spec2Isabelle
  imports Range_Chunk_Cache Rust_Strings Content_Range Storage_Pool Retained_Content Garbage_Collection Store_Properties
    Key_Listing Repair_Gate Lease_Budget Replication_Cleanup Sync_Core Replica_Drop
begin

text \<open>
  Verification of the Berrykeep sources: the versioned object store of a server node, the cluster
  view it replicates by, and the parts of the clients that decide what is synchronised.

  \<^bold>\<open>The program.\<close>  A server node stores objects as versions: payloads are cut into chunks named by
  their hash, a manifest names the chunks, an index per object holds its versions, and a table binds
  keys to objects.  Nodes form a cluster; each keeps a view of which node holds which version, places
  keys by rendezvous hashing, plans replication, runs one repair at a time and gives up surplus
  copies.  Clients list keys in pages, cache chunks, hold a bounded number of relay leases, and compare
  a local with a remote snapshot to plan what to fetch, upload or report as a conflict.

  \<^bold>\<open>Theories and sources.\<close>  All paths are below \<open>src/crates\<close>.
  \<^item> \<open>BK_Prelude\<close>, \<open>Rust_Strings\<close>: what the sources use of the Rust library (maps, sets, stable sorting,
    saturating arithmetic, \<open>str\<close> methods on UTF-8 bytes), and the interfaces \<open>keyed_map\<close>,
    \<open>step_system\<close> and \<open>simulation\<close>.
  \<^item> \<open>Range_Chunk_Cache\<close>: \<open>common/src/range_chunk_cache.rs\<close>, the LRU cache with its arena and its
    intrusive list.  Every run is free of panics, its loops end, and it refines a list of entries.
  \<^item> \<open>Content_Store\<close>, \<open>Version_Index\<close>, \<open>Current_Objects\<close>, \<open>Object_Store\<close>:
    \<open>server-node-sdk/src/storage/mod.rs\<close> with the tables of \<open>sqlite_impl.rs\<close>: chunks and manifests,
    the version graph of an object, the cached bindings, and the operations put, commit, tombstone,
    delete, drop, rename, copy, restore and read.  \<open>Index_Invariant\<close>, \<open>Store_Invariant\<close>,
    \<open>Store_Operations\<close> and \<open>Store_Mutations\<close> prove the invariant \<open>store_ok\<close> and the effect of each
    operation; \<open>Store_Properties\<close> states what callers rely on: reads return what was put, no version
    is lost, renames move whole objects, failed puts change nothing.
  \<^item> \<open>Content_Range\<close>: the range operations of the same file and the intake of received chunks: a range that is read
    is that part of the object, and a node knows exactly which chunks it lacks for it.
  \<^item> \<open>Storage_Pool\<close>: the directories behind the chunk and manifest maps, also in \<open>storage/mod.rs\<close>:
    configuration, location records, choice of a directory, moving files out of a draining
    directory, restart.  Operations are lists of effects, so that a crash is a prefix.  The pool implements the
    maps of \<open>Content_Store\<close>, storing is safe against crashes, rebalancing keeps and moves everything.
  \<^item> \<open>Retained_Content\<close>, \<open>Garbage_Collection\<close>: \<open>storage/retained_content.rs\<close> and
    \<open>cleanup_unreferenced\<close>, on the tables of the object store and the files of the pool: exactly the garbage
    is deleted and no read changes.
  \<^item> \<open>Cluster\<close>, \<open>Cluster_Views\<close>, \<open>Cluster_Properties\<close>: \<open>server-node-sdk/src/cluster.rs\<close>, the class
    \<open>ClusterService\<close>.  The two views stay inverse to each other; placement is diverse, large enough and
    independent of iteration order; the plan is sound and complete; the timeout of heartbeats is exact.
  \<^item> \<open>Replication_Cleanup\<close>, \<open>Replica_Drop\<close>: the handlers \<open>execute_replication_cleanup\<close> and
    \<open>drop_replication_subject\<close> of \<open>server-node-sdk/src/lib.rs\<close>, on the cluster view and, for the
    second, on the object store as well; their common property is below.
  \<^item> \<open>Repair_Gate\<close>: \<open>server-node-sdk/src/repair_execution_gate.rs\<close> as a step system: exclusion, bounded
    overtaking of a waiter, no missed wake-up.
  \<^item> \<open>Key_Listing\<close>: \<open>server-node-sdk/src/listing.rs\<close>: pages put together are the whole listing.
  \<^item> \<open>Lease_Budget\<close>: \<open>client-sdk/src/iroh_lease_budget.rs\<close>: the limit per origin holds and a
    reservation returns.
  \<^item> \<open>Sync_Core\<close>: \<open>sync-core/src/lib.rs\<close>, the actions of \<open>adapter-linux-fuse/src/lib.rs\<close> and the snapshot
    comparison of \<open>client-sdk/src/remote_sync.rs\<close>: diverged data is never fetched over, changes
    between snapshots are exact, announced updates miss nothing.

  \<^bold>\<open>How the model corresponds to the code.\<close>  A struct is a record with the fields of the struct under a
  prefix, an enum a datatype, and a method a function of the same name that returns its result with
  the new state.  Errors are values of sum types; earlier writes of a failing operation stay.  A
  panic or a loop that does not return is \<open>None\<close>.  Each operation that runs under a lock is one step;
  asynchronous tasks are sequences of such steps.  Unsigned integers are natural numbers where the code
  only compares, counts or saturates, and 64-bit words where they wrap around.

  \<^bold>\<open>Parameters and hypotheses.\<close>  Hash functions, JSON and base64 codecs, the URL parser, clocks,
  generated ids and the answers of other machines are arguments.  The hypotheses about them are: the
  content hash is collision-free on the payloads at hand and codecs decode what they encode
  (\<open>env_ok\<close>, \<open>codec_ok\<close>); a failing write of a file fails before the target is replaced; generated object ids are new (\<open>fresh_id\<close>, \<open>fresh_pair\<close>) and so are
  version ids, which contain the time (\<open>fresh_clock\<close>).  The witnesses instantiate them.

  \<^bold>\<open>Bounds and fuel.\<close>  Collecting all pages of a listing takes one more request than there are keys,
  since each page but the last has an entry; that is the fuel of \<open>all_pages\<close>.  Fewer than \<open>2^64\<close>
  leases and waiters are assumed where ids must differ; elsewhere no size is bounded.  All other loops
  are structural or are shown to end.

  \<^bold>\<open>Observations.\<close>  \<open>plan_can_drop_every_replica\<close> and \<open>cleanup_can_drop_every_copy\<close> evaluate a cluster in
  which more nodes than desired hold a version and none of them is desired: all copies are called
  extra and are dropped.  \<open>collapsed_prefix_misplaced\<close> and \<open>misplaced_prefix_lost\<close> evaluate a listing
  whose prefix does not end with the delimiter, which is why \<open>paging_complete\<close> is about aligned
  listings.  \<open>relocation_crash_loses_content\<close> evaluates a crash in the middle of a relocation, after which reads
  no longer find a content whose file is intact; \<open>relocate_from_legacy_crash_safe\<close> shows that this cannot
  happen when files leave the directory that reads fall back to.

  \<^bold>\<open>Not modelled.\<close>  Input and output: the HTTP, S3 and web surfaces, transports and rendezvous, SQL
  statements and database errors, file-system watching, the FUSE and Windows callbacks, telemetry and
  user interfaces.  Media, gallery and map data, which are derived from the tables above and involve
  floating-point numbers.  Content recovery and scrubbing, the transfer of
  replicas between nodes, authorisation, changes to the store while a garbage collection runs, and the release of a relay lease that the last drop of its handle spawns.
\<close>

section \<open>Properties across components\<close>

text \<open>C21: Asked to give up a version, a node answers whether it had that version, and never fails on a
  well-formed state.  If it had it, exactly that version leaves the object store (no other version, no
  other key and no stored content changes), the node leaves both cluster views as a holder of that
  version and of the key and nobody else does, the change is announced once and cached history is
  discarded, and the views are saved as they now are; if it had not, nothing changes.\<close>

theorem dropped_replica_gone:
  assumes "store_ok (sv_store s)" "cluster_ok (sv_cluster s)" "object_id_for_key (sv_store s) key = Some oid"
  shows "\<exists>s'. drop_replication_subject env lock_free save_ok key (Some v) s =
      (Inr (stored_version (sv_store s) oid v \<noteq> None), s') \<and>
    store_ok (sv_store s') \<and> cluster_ok (sv_cluster s') \<and>
    (if stored_version (sv_store s) oid v = None then s' = s
     else version_given_up key v oid s s' \<and>
       (save_ok \<longrightarrow> sv_saved_views s' = (export_replicas_by_key (sv_cluster s'), export_available_by_key (sv_cluster s'))))"
proof (rule drop_replica_cases [OF assms(1), of env key "Some v"])
  assume same: "drop_replica_subject env key (Some v) (sv_store s) = (Inr False, sv_store s)"
    and none: "\<And>v' oid idx. Some v = Some v' \<Longrightarrow> object_id_for_key (sv_store s) key = Some oid \<Longrightarrow>
      load_version_index_by_object_id env (sv_store s) oid = Some idx \<Longrightarrow> version_of idx v' = None"
  have "stored_version (sv_store s) oid v = None"
    using none [OF refl assms(3)] stored_version_load [OF assms(1), of env oid _ v] stored_version_unloaded [OF assms(1), of env oid v]
    by (cases "load_version_index_by_object_id env (sv_store s) oid") simp_all
  then show ?thesis using same assms(1,2) by (simp add: drop_replication_subject_def)
next
  fix st v' o' idx
  assume d: "drop_replica_subject env key (Some v) (sv_store s) = (Inr True, st)" "store_ok st" "Some v = Some v'"
    "object_id_for_key (sv_store s) key = Some o'" "load_version_index_by_object_id env (sv_store s) o' = Some idx"
    "version_of idx v' \<noteq> None" "map_of (st_indexes st) = (map_of (st_indexes (sv_store s)))(o' \<mapsto> index_row (drop_version v' idx))"
    "st_content st = st_content (sv_store s)" "\<forall>k. k \<noteq> key \<longrightarrow> current_entry st k = current_entry (sv_store s) k"
  have same: "v' = v" "o' = oid" using d(3,4) assms(3) by simp_all
  have "stored_version (sv_store s) oid v \<noteq> None"
    using stored_version_load [OF assms(1) d(5)] d(6) same by simp
  then have "(stored_version (sv_store s) oid v = None) = False" "(stored_version (sv_store s) oid v \<noteq> None) = True" by simp_all
  then show ?thesis
    using drop_completed [OF assms(1,2) d(1,2,5,7,8,9) [unfolded same], of lock_free save_ok] by (simp only: if_False)
qed

definition sample_server :: "(unit, unit) server_state" where
  "sample_server = \<lparr>sv_node_id = 3, sv_store = sample_store, sv_cluster = sample_cluster, sv_store_history_cache = [()],
     sv_store_history_cache_generation = 0, sv_namespace_change_sequence = 0, sv_namespace_change_tx = 0,
     sv_local_availability_generation = 0, sv_retained_content_generation = 0, sv_retained_content_cache = None,
     sv_saved_views = ([], [])\<rparr>"

theorem dropped_replica_gone_witness:
  "\<exists>s'. drop_replication_subject (sample_at 1) True True ''a'' (Some ''ver--000000000000'') sample_server = (Inr True, s') \<and>
    stored_version (sv_store s') ''o'' ''ver--000000000000'' = None"
proof -
  have had: "stored_version sample_store ''o'' ''ver--000000000000'' \<noteq> None" by code_simp
  have bound: "object_id_for_key sample_store ''a'' = Some ''o''" by code_simp
  have ok: "store_ok sample_store" using sample_store_ok .
  obtain s' where "drop_replication_subject (sample_at 1) True True ''a'' (Some ''ver--000000000000'') sample_server = (Inr True, s')"
    "version_given_up ''a'' ''ver--000000000000'' ''o'' sample_server s'"
    using dropped_replica_gone [of sample_server "''a''" "''o''" "sample_at 1" True True "''ver--000000000000''"] ok bound had sample_ok(2)
    by (auto simp: sample_server_def)
  then show ?thesis by (auto simp: version_given_up_def)
qed

end
